(* ===== verification/Prelude.thy ===== *)
theory Prelude
  imports Main "HOL-Library.Word"
begin

text \<open>
  Shared vocabulary of the development: the machine types of the sources (bytes, the
  \<^verbatim>\<open>uintN_t\<close> words, pointers as optional addresses), the wrap-around arithmetic of
  \<^verbatim>\<open>size_t\<close>, the little-endian byte codec through which the structs of
  \<^verbatim>\<open>api/p8_protocol.h\<close> live in buffers, and the list lemmas about reading and
  overwriting a range of bytes that every serializer proof uses.
\<close>

named_theorems codec_simps \<open>reading and writing byte ranges\<close>
named_theorems frame_simps \<open>fields an operation leaves unchanged\<close>

section \<open>Machine types\<close>

type_synonym byte = "8 word"
type_synonym u8 = "8 word"
type_synonym u16 = "16 word"
type_synonym u32 = "32 word"
type_synonym u64 = "64 word"
type_synonym addr = nat
type_synonym ptr = "addr option"

text \<open>
  A \<^verbatim>\<open>size_t\<close> is kept as a \<open>nat\<close> where the code only adds and compares sizes that
  are bounded by the memory that holds them; \<open>size_sub\<close> is its subtraction, with the
  wrap-around of the 64-bit type written out.
\<close>

definition size_sub :: "nat \<Rightarrow> nat \<Rightarrow> nat" where
  "size_sub a b = (if b \<le> a then a - b else a + 2 ^ 64 - b)"

lemma size_sub_le [simp]: "b \<le> a \<Longrightarrow> size_sub a b = a - b"
  by (simp add: size_sub_def)

lemma size_sub_self [simp]: "size_sub a a = 0"
  by (simp add: size_sub_def)

lemma size_sub_wrap: "a < b \<Longrightarrow> size_sub a b = a + 2 ^ 64 - b"
  by (simp add: size_sub_def)

text \<open>\<^verbatim>\<open>P8_ALIGN_UP_8\<close> of \<^verbatim>\<open>engine/p8_core.cpp\<close>: \<open>(x + 7) & ~7\<close> on sizes.\<close>

definition align_up_8 :: "nat \<Rightarrow> nat" where
  "align_up_8 x = (x + 7) div 8 * 8"

lemma align_up_8_dvd [simp]: "8 dvd align_up_8 x"
  by (simp add: align_up_8_def)

lemma align_up_8_mod [simp]: "align_up_8 x mod 8 = 0"
  by (simp add: align_up_8_def)

lemma align_up_8_bounds: "x \<le> align_up_8 x" "align_up_8 x < x + 8"
  by (simp_all add: align_up_8_def; presburger)+

lemma align_up_8_fix: "8 dvd x \<Longrightarrow> align_up_8 x = x"
  by (auto simp: align_up_8_def elim!: dvdE)

lemma align_up_8_le: "x \<le> m \<Longrightarrow> 8 dvd m \<Longrightarrow> align_up_8 x \<le> m"
  by (simp add: align_up_8_def) presburger

lemma align_up_8_pos: "0 < x \<Longrightarrow> 0 < align_up_8 x"
  using align_up_8_bounds(1) [of x] by simp

section \<open>Little-endian bytes\<close>

primrec le_bytes :: "nat \<Rightarrow> nat \<Rightarrow> byte list" where
  "le_bytes 0 v = []"
| "le_bytes (Suc k) v = of_nat v # le_bytes k (v div 256)"

primrec le_nat :: "byte list \<Rightarrow> nat" where
  "le_nat [] = 0"
| "le_nat (b # bs) = unat b + 256 * le_nat bs"

lemma length_le_bytes [simp]: "length (le_bytes k v) = k"
  by (induction k arbitrary: v) auto

lemma unat_of_nat_byte: "unat (of_nat v :: byte) = v mod 256"
  by (simp add: unat_of_nat)

lemma le_nat_le_bytes [simp]: "le_nat (le_bytes k v) = v mod 256 ^ k"
proof (induction k arbitrary: v)
  case 0
  then show ?case by simp
next
  case (Suc k)
  have "v mod 256 + 256 * (v div 256 mod 256 ^ k) = v mod (256 * 256 ^ k)"
    by (simp add: mod_mult2_eq)
  with Suc show ?case by (simp add: unat_of_nat_byte)
qed

lemma le_nat_bound: "le_nat bs < 256 ^ length bs"
proof (induction bs)
  case Nil
  then show ?case by simp
next
  case (Cons b bs)
  have "unat b < 256" using unsigned_less [of b, where ?'a = nat] by simp
  with Cons show ?case by simp
qed

lemma le_bytes_cong: "v mod 256 ^ k = w mod 256 ^ k \<Longrightarrow> le_bytes k v = le_bytes k w"
proof (induction k arbitrary: v w)
  case 0
  then show ?case by simp
next
  case (Suc k)
  have lo: "v mod 256 = w mod 256"
    using Suc.prems by (metis dvd_triv_left mod_mod_cancel power_Suc)
  have "v div 256 mod 256 ^ k = w div 256 mod 256 ^ k"
    using Suc.prems by (simp add: mod_mult2_eq lo)
  then have "le_bytes k (v div 256) = le_bytes k (w div 256)" by (rule Suc.IH)
  moreover have "(of_nat v :: byte) = of_nat w"
    using lo by (metis unat_of_nat_byte word_unat_eq_iff)
  ultimately show ?case by simp
qed

lemma le_bytes_le_nat [simp]: "le_bytes (length bs) (le_nat bs) = bs"
proof (induction bs)
  case Nil
  then show ?case by simp
next
  case (Cons b bs)
  have b: "unat b < 256" using unsigned_less [of b, where ?'a = nat] by simp
  then have "(unat b + 256 * le_nat bs) mod 256 = unat b" by simp
  then have "unat (of_nat (unat b + 256 * le_nat bs) :: byte) = unat b"
    by (simp only: unat_of_nat_byte)
  then have "(of_nat (unat b + 256 * le_nat bs) :: byte) = b"
    by (simp only: word_unat_eq_iff)
  with b Cons show ?case by simp
qed

lemma le_bytes_inj: "v < 256 ^ k \<Longrightarrow> w < 256 ^ k \<Longrightarrow> le_bytes k v = le_bytes k w \<Longrightarrow> v = w"
  by (metis le_nat_le_bytes mod_less)

section \<open>Byte ranges of a buffer\<close>

text \<open>
  \<open>sub_bytes off n bs\<close> is what a read of \<open>n\<close> bytes at offset \<open>off\<close> sees;
  \<open>put_bytes off xs bs\<close> is \<open>memcpy(bs + off, xs, length xs)\<close>. \<open>put_bytes\<close> keeps the length of
  the buffer when the range is inside it; the callers check the range first.
\<close>

definition sub_bytes :: "nat \<Rightarrow> nat \<Rightarrow> 'a list \<Rightarrow> 'a list" where
  "sub_bytes off n bs = take n (drop off bs)"

definition put_bytes :: "nat \<Rightarrow> 'a list \<Rightarrow> 'a list \<Rightarrow> 'a list" where
  "put_bytes off xs bs = take off bs @ xs @ drop (off + length xs) bs"

lemma length_sub_bytes [simp]: "off + n \<le> length bs \<Longrightarrow> length (sub_bytes off n bs) = n"
  by (simp add: sub_bytes_def)

lemma sub_bytes_0 [simp]: "sub_bytes off 0 bs = []"
  by (simp add: sub_bytes_def)

lemma length_put_bytes [simp]: "off + length xs \<le> length bs \<Longrightarrow> length (put_bytes off xs bs) = length bs"
  by (simp add: put_bytes_def)

lemma put_bytes_Nil [simp]: "put_bytes off [] bs = bs"
  by (simp add: put_bytes_def)

lemma sub_put_same [codec_simps]:
  "off + length xs \<le> length bs \<Longrightarrow> n = length xs \<Longrightarrow> sub_bytes off n (put_bytes off xs bs) = xs"
  by (simp add: sub_bytes_def put_bytes_def)

lemma sub_put_below [codec_simps]:
  assumes "off' + n \<le> off" "off \<le> length bs"
  shows "sub_bytes off' n (put_bytes off xs bs) = sub_bytes off' n bs"
proof -
  have "take n (drop off' (take off bs)) = take n (drop off' bs)"
    using assms by (simp add: drop_take min_def)
  with assms show ?thesis by (simp add: sub_bytes_def put_bytes_def)
qed

lemma sub_put_above [codec_simps]:
  assumes "off + length xs \<le> off'" "off + length xs \<le> length bs"
  shows "sub_bytes off' n (put_bytes off xs bs) = sub_bytes off' n bs"
  using assms by (simp add: sub_bytes_def put_bytes_def min_def)

lemma sub_bytes_split: "sub_bytes off (n + m) bs = sub_bytes off n bs @ sub_bytes (off + n) m bs"
  using take_add [of n m "drop off bs"] by (simp add: sub_bytes_def add.commute)

lemma sub_put_inside:
  assumes "off + length xs \<le> length bs" "k + n \<le> length xs"
  shows "sub_bytes (off + k) n (put_bytes off xs bs) = sub_bytes k n xs"
  using assms by (simp add: sub_bytes_def put_bytes_def)

lemma sub_sub_bytes: "k + m \<le> n \<Longrightarrow> sub_bytes k m (sub_bytes off n bs) = sub_bytes (off + k) m bs"
  by (simp add: sub_bytes_def drop_take min_def add.commute)

lemma put_bytes_all:
  assumes "length xs = length bs"
  shows "put_bytes 0 xs bs = xs"
  using assms by (simp add: put_bytes_def)

text \<open>Writing an adjacent range after another is one write of both.\<close>

lemma put_put_adj:
  assumes "off + length xs + length ys \<le> length bs"
  shows "put_bytes (off + length xs) ys (put_bytes off xs bs) = put_bytes off (xs @ ys) bs"
proof -
  have "length bs \<le> off \<Longrightarrow> xs = []" using assms by (cases xs) auto
  with assms show ?thesis
    by (auto simp: put_bytes_def min_def add.assoc add.commute add.left_commute)
qed

section \<open>Little-endian fields at an offset\<close>

definition get_le :: "nat \<Rightarrow> nat \<Rightarrow> byte list \<Rightarrow> nat" where
  "get_le off k bs = le_nat (sub_bytes off k bs)"

lemma get_le_bound: "off + k \<le> length bs \<Longrightarrow> get_le off k bs < 256 ^ k"
  using le_nat_bound [of "sub_bytes off k bs"] by (simp add: get_le_def)

lemma of_nat_unat_mod:
  fixes w :: "'a::len word"
  assumes "(256::nat) ^ k = 2 ^ LENGTH('a)"
  shows "of_nat (unat w mod 256 ^ k) = w"
proof -
  have "unat w < 256 ^ k" using assms unsigned_less [of w, where ?'a = nat] by simp
  then show ?thesis by simp
qed

lemma unat_mod_u8 [simp]: "unat (w :: u8) mod 256 = unat w"
  using unsigned_less [of w, where ?'a = nat] by simp

lemma unat_mod_u16 [simp]: "unat (w :: u16) mod 65536 = unat w"
  using unsigned_less [of w, where ?'a = nat] by simp

lemma unat_mod_u32 [simp]: "unat (w :: u32) mod 4294967296 = unat w"
  using unsigned_less [of w, where ?'a = nat] by simp

lemma unat_mod_u64 [simp]: "unat (w :: u64) mod 18446744073709551616 = unat w"
  using unsigned_less [of w, where ?'a = nat] by simp

lemma unat_of_nat_u16: "n < 65536 \<Longrightarrow> unat (of_nat n :: u16) = n"
  by (simp add: unat_of_nat)

section \<open>Lists\<close>

lemma distinct_snoc [simp]: "distinct (xs @ [x]) \<longleftrightarrow> distinct xs \<and> x \<notin> set xs"
  by auto

lemma foldl_add_init: "foldl (\<lambda>s x. s + f x) (a :: nat) xs = a + sum_list (map f xs)"
  by (induction xs arbitrary: a) (auto simp: add.assoc)

end
