(* ===== verification/MemBudget.thy ===== *)
theory MemBudget
  imports Prelude
begin

text \<open>
  \<^verbatim>\<open>cp8_memory_budget\<close> (\<^verbatim>\<open>engine/p8_memory_budget.cpp\<close>): the atomic byte budget the pools
  draw from. \<open>try_reserve\<close> and \<open>release\<close> are the operations as their callers see them;
  \<open>cas_step\<close> is the compare-exchange loop of \<^verbatim>\<open>try_reserve\<close>, with any number of threads
  interleaving at the granularity of single atomic accesses.
\<close>

section \<open>The budget and its operations\<close>

record budget =
  bd_used :: u64
  bd_max :: u64

definition new_budget :: "u64 \<Rightarrow> budget" where
  "new_budget m = \<lparr>bd_used = 0, bd_max = m\<rparr>"

definition no_headroom :: "u64 \<Rightarrow> u64 \<Rightarrow> u64 \<Rightarrow> bool" where
  "no_headroom m cur n \<longleftrightarrow> m < cur \<or> m - cur < n"

definition try_reserve :: "u64 \<Rightarrow> budget \<Rightarrow> bool \<times> budget" where
  "try_reserve n b =
     (if no_headroom (bd_max b) (bd_used b) n then (False, b)
      else (True, b\<lparr>bd_used := bd_used b + n\<rparr>))"

definition release :: "u64 \<Rightarrow> budget \<Rightarrow> budget" where
  "release n b = b\<lparr>bd_used := bd_used b - n\<rparr>"

definition budget_ok :: "budget \<Rightarrow> bool" where
  "budget_ok b \<longleftrightarrow> bd_used b \<le> bd_max b"

text \<open>The guard never wraps: it is the comparison of the unbounded sum with the cap.\<close>

lemma no_headroom_iff:
  assumes "cur \<le> m"
  shows "no_headroom m cur n \<longleftrightarrow> unat m < unat cur + unat n"
  using assms by (auto simp: no_headroom_def word_less_nat_alt word_le_nat_alt unat_sub)

lemma unat_add_fits: "unat (a :: u64) + unat b \<le> unat (m :: u64) \<Longrightarrow> unat (a + b) = unat a + unat b"
  using unsigned_less [of m, where ?'a = nat] by (simp add: unat_word_ariths)

section \<open>The contract a pool relies on\<close>

locale byte_budget =
  fixes reserve :: "u64 \<Rightarrow> 'b \<Rightarrow> bool \<times> 'b"
    and give_back :: "u64 \<Rightarrow> 'b \<Rightarrow> 'b"
    and used :: "'b \<Rightarrow> nat"
    and cap :: "'b \<Rightarrow> nat"
    and inv :: "'b \<Rightarrow> bool"
  assumes reserve_iff: "inv b \<Longrightarrow> fst (reserve n b) \<longleftrightarrow> used b + unat n \<le> cap b"
    and reserve_grant: "inv b \<Longrightarrow> reserve n b = (True, b') \<Longrightarrow>
          inv b' \<and> used b' = used b + unat n \<and> cap b' = cap b"
    and reserve_deny: "reserve n b = (False, b') \<Longrightarrow> b' = b"
    and give_back_used: "inv b \<Longrightarrow> unat n \<le> used b \<Longrightarrow>
          inv (give_back n b) \<and> used (give_back n b) = used b - unat n \<and> cap (give_back n b) = cap b"
    and inv_cap: "inv b \<Longrightarrow> used b \<le> cap b"
begin

lemma reserve_give_back:
  assumes "inv b" "reserve n b = (True, b')"
  shows "inv (give_back n b')" "used (give_back n b') = used b" "cap (give_back n b') = cap b"
  using reserve_grant [OF assms] give_back_used [of b' n] by auto

lemma reserve_keeps:
  assumes "inv b" "reserve n b = (ok, b')"
  shows "inv b'" "cap b' = cap b" "used b' = used b + (if ok then unat n else 0)"
proof -
  have "inv b' \<and> cap b' = cap b \<and> used b' = used b + (if ok then unat n else 0)"
  proof (cases ok)
    case True
    with assms show ?thesis using reserve_grant [of b n b'] by simp
  next
    case False
    with assms show ?thesis using reserve_deny [of n b b'] by simp
  qed
  then show "inv b'" "cap b' = cap b" "used b' = used b + (if ok then unat n else 0)" by simp_all
qed

lemma reserve_denied:
  assumes "inv b" "reserve n b = (False, b')"
  shows "cap b < used b + unat n"
  using assms reserve_iff [of b n] by simp

end

interpretation bud: byte_budget try_reserve release "\<lambda>b. unat (bd_used b)" "\<lambda>b. unat (bd_max b)" budget_ok
proof (unfold_locales, goal_cases)
  case (1 b n)
  then show ?case by (auto simp: try_reserve_def budget_ok_def no_headroom_iff)
next
  case (2 b n b')
  then have fits: "unat (bd_used b) + unat n \<le> unat (bd_max b)"
    by (auto simp: try_reserve_def budget_ok_def no_headroom_iff split: if_splits)
  with 2 show ?case
    by (auto simp: try_reserve_def budget_ok_def unat_add_fits word_le_nat_alt split: if_splits)
next
  case (3 n b b')
  then show ?case by (auto simp: try_reserve_def split: if_splits)
next
  case (4 b n)
  then have "n \<le> bd_used b" by (simp add: word_le_nat_alt)
  with 4 show ?case
    by (simp add: release_def budget_ok_def word_le_nat_alt unat_sub)
next
  case (5 b)
  then show ?case by (simp add: budget_ok_def word_le_nat_alt)
qed

section \<open>The compare-exchange loop, interleaved\<close>

text \<open>
  A thread is idle, at the top of \<^verbatim>\<open>try_reserve\<close>, in its loop with the value it last saw in
  \<open>lz_current\<close>, or holding a reservation it will release. \<open>cas_miss\<close> covers both a value
  that another thread changed and the spurious failure \<^verbatim>\<open>compare_exchange_weak\<close> allows; in
  both cases \<open>lz_current\<close> is reloaded.
\<close>

datatype rpc = R_idle | R_start u64 | R_loop u64 u64 | R_held u64

record cas_state =
  cs_budget :: budget
  cs_pcs :: "rpc list"

definition set_pc :: "nat \<Rightarrow> rpc \<Rightarrow> cas_state \<Rightarrow> cas_state" where
  "set_pc t p s = s\<lparr>cs_pcs := (cs_pcs s)[t := p]\<rparr>"

inductive cas_step :: "cas_state \<Rightarrow> cas_state \<Rightarrow> bool" where
  call: "t < length (cs_pcs s) \<Longrightarrow> cs_pcs s ! t = R_idle \<Longrightarrow> cas_step s (set_pc t (R_start n) s)"
| load: "t < length (cs_pcs s) \<Longrightarrow> cs_pcs s ! t = R_start n \<Longrightarrow>
     cas_step s (set_pc t (R_loop n (bd_used (cs_budget s))) s)"
| deny: "t < length (cs_pcs s) \<Longrightarrow> cs_pcs s ! t = R_loop n cur \<Longrightarrow>
     no_headroom (bd_max (cs_budget s)) cur n \<Longrightarrow> cas_step s (set_pc t R_idle s)"
| cas_hit: "t < length (cs_pcs s) \<Longrightarrow> cs_pcs s ! t = R_loop n cur \<Longrightarrow>
     \<not> no_headroom (bd_max (cs_budget s)) cur n \<Longrightarrow> bd_used (cs_budget s) = cur \<Longrightarrow>
     cas_step s (set_pc t (R_held n) (s\<lparr>cs_budget := (cs_budget s)\<lparr>bd_used := cur + n\<rparr>\<rparr>))"
| cas_miss: "t < length (cs_pcs s) \<Longrightarrow> cs_pcs s ! t = R_loop n cur \<Longrightarrow>
     \<not> no_headroom (bd_max (cs_budget s)) cur n \<Longrightarrow>
     cas_step s (set_pc t (R_loop n (bd_used (cs_budget s))) s)"
| give: "t < length (cs_pcs s) \<Longrightarrow> cs_pcs s ! t = R_held n \<Longrightarrow>
     cas_step s (set_pc t R_idle (s\<lparr>cs_budget := release n (cs_budget s)\<rparr>))"

inductive cas_reach :: "u64 \<Rightarrow> nat \<Rightarrow> cas_state \<Rightarrow> bool" for m :: u64 and k :: nat where
  start: "cas_reach m k \<lparr>cs_budget = new_budget m, cs_pcs = replicate k R_idle\<rparr>"
| more: "cas_reach m k s \<Longrightarrow> cas_step s t \<Longrightarrow> cas_reach m k t"

fun held :: "rpc \<Rightarrow> nat" where
  "held (R_held n) = unat n"
| "held _ = 0"

definition total_held :: "cas_state \<Rightarrow> nat" where
  "total_held s = sum_list (map held (cs_pcs s))"

lemma total_held_set_pc:
  assumes "t < length (cs_pcs s)"
  shows "total_held (set_pc t p s) + held (cs_pcs s ! t) = total_held s + held p"
proof -
  have le: "held (cs_pcs s ! t) \<le> total_held s"
    unfolding total_held_def using assms by (metis elem_le_sum_list length_map nth_map)
  then show ?thesis
    using assms by (simp add: total_held_def set_pc_def map_update sum_list_update)
qed

lemma total_held_budget [simp]: "total_held (s\<lparr>cs_budget := b\<rparr>) = total_held s"
  by (simp add: total_held_def)

lemma set_pc_simps [simp]:
  "cs_budget (set_pc t p s) = cs_budget s" "length (cs_pcs (set_pc t p s)) = length (cs_pcs s)"
  by (simp_all add: set_pc_def)

text \<open>Every step is, on the shared budget, nothing or one whole atomic operation.\<close>

lemma cas_step_atomic:
  assumes "cas_step s t"
  shows "cs_budget t = cs_budget s \<or> (\<exists>n. try_reserve n (cs_budget s) = (True, cs_budget t)) \<or>
         (\<exists>n. cs_budget t = release n (cs_budget s))"
  using assms by cases (auto simp: try_reserve_def)

definition cas_inv :: "cas_state \<Rightarrow> bool" where
  "cas_inv s \<longleftrightarrow> budget_ok (cs_budget s) \<and> unat (bd_used (cs_budget s)) = total_held s"

lemma cas_step_inv:
  assumes "cas_step s t" "cas_inv s"
  shows "cas_inv t"
  using assms
proof cases
  case (cas_hit i n cur)
  then have "try_reserve n (cs_budget s) = (True, cs_budget t)"
    by (simp add: try_reserve_def)
  with cas_hit assms(2) show ?thesis
    using bud.reserve_grant [of "cs_budget s" n "cs_budget t"]
      total_held_set_pc [of i "s\<lparr>cs_budget := cs_budget t\<rparr>" "R_held n"]
    by (simp add: cas_inv_def)
next
  case (give i n)
  have "held (cs_pcs s ! i) \<le> total_held s"
    unfolding total_held_def using give(2) by (metis elem_le_sum_list length_map nth_map)
  with give assms(2) have "unat n \<le> unat (bd_used (cs_budget s))"
    by (simp add: cas_inv_def)
  with give assms(2) show ?thesis
    using bud.give_back_used [of "cs_budget s" n]
      total_held_set_pc [of i "s\<lparr>cs_budget := release n (cs_budget s)\<rparr>" R_idle]
    by (simp add: cas_inv_def)
qed (use total_held_set_pc in \<open>fastforce simp: cas_inv_def\<close>)+

lemma cas_reach_inv: "cas_reach m k s \<Longrightarrow> cas_inv s \<and> bd_max (cs_budget s) = m \<and> length (cs_pcs s) = k"
proof (induction rule: cas_reach.induct)
  case start
  show ?case
    by (simp add: cas_inv_def budget_ok_def new_budget_def total_held_def map_replicate_const sum_list_replicate)
next
  case (more s t)
  have "bd_max (cs_budget t) = bd_max (cs_budget s)" "length (cs_pcs t) = length (cs_pcs s)"
    using more.hyps(2) by (cases; simp add: release_def)+
  with more show ?case using cas_step_inv by metis
qed

text \<open>C26: However many threads run the compare-exchange loop and however their atomic accesses
  interleave, the budget in use is exactly the sum of the granted, not yet released
  reservations, and never exceeds the cap.\<close>

theorem budget_interleaved_safe:
  assumes "cas_reach m k s"
  shows "unat (bd_used (cs_budget s)) = total_held s \<and> total_held s \<le> unat m"
  using cas_reach_inv [OF assms] by (auto simp: cas_inv_def budget_ok_def word_le_nat_alt)

lemma budget_interleaved_safe_witness:
  "total_held \<lparr>cs_budget = \<lparr>bd_used = 3, bd_max = 4\<rparr>, cs_pcs = [R_held 3, R_loop 2 0]\<rparr> \<le> unat (4 :: u64)"
proof -
  let ?s = "\<lambda>u a b. \<lparr>cs_budget = \<lparr>bd_used = u, bd_max = 4\<rparr>, cs_pcs = [a, b]\<rparr>"
  have "cas_reach 4 2 (?s 0 R_idle R_idle)"
    using cas_reach.start [of 4 2] by (simp add: new_budget_def numeral_2_eq_2)
  then have "cas_reach 4 2 (?s 0 (R_start 3) R_idle)"
    by (rule cas_reach.more) (use cas_step.call [of 0 "?s 0 R_idle R_idle" 3] in \<open>simp add: set_pc_def\<close>)
  then have "cas_reach 4 2 (?s 0 (R_start 3) (R_start 2))"
    by (rule cas_reach.more) (use cas_step.call [of 1 "?s 0 (R_start 3) R_idle" 2] in \<open>simp add: set_pc_def\<close>)
  then have "cas_reach 4 2 (?s 0 (R_loop 3 0) (R_start 2))"
    by (rule cas_reach.more) (use cas_step.load [of 0 "?s 0 (R_start 3) (R_start 2)" 3] in \<open>simp add: set_pc_def\<close>)
  then have "cas_reach 4 2 (?s 0 (R_loop 3 0) (R_loop 2 0))"
    by (rule cas_reach.more) (use cas_step.load [of 1 "?s 0 (R_loop 3 0) (R_start 2)" 2] in \<open>simp add: set_pc_def\<close>)
  then have "cas_reach 4 2 (?s 3 (R_held 3) (R_loop 2 0))"
    by (rule cas_reach.more)
      (use cas_step.cas_hit [of 0 "?s 0 (R_loop 3 0) (R_loop 2 0)" 3 0] in \<open>simp add: set_pc_def no_headroom_def\<close>)
  from budget_interleaved_safe [OF this] show ?thesis by simp
qed

end
