(* ===== verification/WaitQueue.thy ===== *)
theory WaitQueue
  imports Prelude
begin

text \<open>
  The intrusive FIFO queue of blocked acquirers inside \<^verbatim>\<open>cp8_buffer_pool\<close>
  (\<^verbatim>\<open>engine/p8_buffer_pool.cpp\<close>): nodes live on the waiting threads' stacks, linked by
  \<^verbatim>\<open>mp_next\<close> between \<^verbatim>\<open>mp_wait_head\<close> and \<^verbatim>\<open>mp_wait_tail\<close>, with the count beside them. A node
  is named by the thread that owns it. \<open>wq_abs\<close> relates the pointer structure to the list
  of queued threads, oldest first.
\<close>

section \<open>Nodes, head and tail\<close>

record waiter =
  wt_next :: "nat option"
  wt_buf :: ptr
  wt_done :: bool
  wt_cv :: nat

record wqueue =
  wq_nodes :: "nat \<Rightarrow> waiter"
  wq_head :: "nat option"
  wq_tail :: "nat option"
  wq_count :: nat

definition wq_empty :: wqueue where
  "wq_empty = \<lparr>wq_nodes = (\<lambda>_. \<lparr>wt_next = None, wt_buf = None, wt_done = False, wt_cv = 0\<rparr>),
               wq_head = None, wq_tail = None, wq_count = 0\<rparr>"

text \<open>Link a fresh node \<open>i\<close> (\<open>lo_self\<close>) at the tail, parked on shard \<open>cv\<close>.\<close>

definition wq_enqueue :: "nat \<Rightarrow> nat \<Rightarrow> wqueue \<Rightarrow> wqueue" where
  "wq_enqueue i cv q =
     (let nd = (wq_nodes q)(i := \<lparr>wt_next = None, wt_buf = None, wt_done = False, wt_cv = cv\<rparr>)
      in case wq_tail q of
           Some t \<Rightarrow> q\<lparr>wq_nodes := nd(t := (nd t)\<lparr>wt_next := Some i\<rparr>),
                      wq_tail := Some i, wq_count := Suc (wq_count q)\<rparr>
         | None \<Rightarrow> q\<lparr>wq_nodes := nd, wq_head := Some i,
                     wq_tail := Some i, wq_count := Suc (wq_count q)\<rparr>)"

text \<open>
  \<open>try_handoff_no_lock\<close>: hand \<open>b\<close> to the oldest waiter and report the shard it parks on;
  the count decides, as in the code. A null head with a positive count would be a null
  dereference; the invariant excludes it and the model then reports no waiter.
\<close>

definition wq_handoff :: "addr \<Rightarrow> wqueue \<Rightarrow> nat option \<times> wqueue" where
  "wq_handoff b q =
     (if wq_count q = 0 then (None, q)
      else case wq_head q of
          None \<Rightarrow> (None, q)
        | Some w \<Rightarrow>
            let nd = wq_nodes q; hd' = wt_next (nd w)
            in (Some (wt_cv (nd w)),
                q\<lparr>wq_nodes := nd(w := (nd w)\<lparr>wt_buf := Some b, wt_done := True\<rparr>),
                  wq_head := hd',
                  wq_tail := (if hd' = None then None else wq_tail q),
                  wq_count := wq_count q - 1\<rparr>))"

text \<open>
  The loop of \<open>stop_waiters\<close>: serve every linked node with the null sentinel. It follows
  pointers, so on a cyclic structure it would not return.
\<close>

partial_function (option) wq_drain_loop :: "(nat \<Rightarrow> waiter) \<Rightarrow> nat option \<Rightarrow> (nat \<Rightarrow> waiter) option" where
  "wq_drain_loop nd p =
     (case p of None \<Rightarrow> Some nd
      | Some w \<Rightarrow> wq_drain_loop (nd(w := (nd w)\<lparr>wt_buf := None, wt_done := True\<rparr>)) (wt_next (nd w)))"

definition wq_drain :: "wqueue \<Rightarrow> wqueue option" where
  "wq_drain q =
     map_option (\<lambda>nd. q\<lparr>wq_nodes := nd, wq_head := None, wq_tail := None, wq_count := 0\<rparr>)
       (wq_drain_loop (wq_nodes q) (wq_head q))"

section \<open>The queue as a list\<close>

fun lseg :: "(nat \<Rightarrow> waiter) \<Rightarrow> nat option \<Rightarrow> nat list \<Rightarrow> bool" where
  "lseg nd p [] \<longleftrightarrow> p = None"
| "lseg nd p (x # xs) \<longleftrightarrow> p = Some x \<and> lseg nd (wt_next (nd x)) xs"

definition wq_abs :: "wqueue \<Rightarrow> nat list \<Rightarrow> bool" where
  "wq_abs q xs \<longleftrightarrow>
     lseg (wq_nodes q) (wq_head q) xs \<and> distinct xs \<and>
     wq_tail q = (if xs = [] then None else Some (last xs)) \<and>
     wq_count q = length xs \<and>
     (\<forall>x\<in>set xs. \<not> wt_done (wq_nodes q x) \<and> wt_buf (wq_nodes q x) = None)"

lemma lseg_upd_outside [simp]: "x \<notin> set xs \<Longrightarrow> lseg (nd(x := v)) p xs = lseg nd p xs"
  by (induction xs arbitrary: p) auto

lemma lseg_same_next: "wt_next v = wt_next (nd x) \<Longrightarrow> lseg (nd(x := v)) p xs = lseg nd p xs"
  by (induction xs arbitrary: p) auto

lemma lseg_snoc:
  "lseg nd p xs \<Longrightarrow> xs \<noteq> [] \<Longrightarrow> distinct xs \<Longrightarrow> i \<notin> set xs \<Longrightarrow> wt_next (nd i) = None \<Longrightarrow>
   lseg (nd(last xs := (nd (last xs))\<lparr>wt_next := Some i\<rparr>)) p (xs @ [i])"
proof (induction xs arbitrary: p)
  case Nil
  then show ?case by simp
next
  case (Cons x xs)
  show ?case
  proof (cases "xs = []")
    case True
    with Cons show ?thesis by auto
  next
    case False
    then have "last xs \<in> set xs" by simp
    with Cons False have "last xs \<noteq> x" by auto
    with Cons False show ?thesis by auto
  qed
qed

lemma wq_abs_empty: "wq_abs wq_empty []"
  by (simp add: wq_abs_def wq_empty_def)

lemma wq_enqueue_abs:
  assumes "wq_abs q xs" "i \<notin> set xs"
  shows "wq_abs (wq_enqueue i cv q) (xs @ [i])"
proof (cases "xs = []")
  case True
  with assms show ?thesis by (simp add: wq_abs_def wq_enqueue_def)
next
  case False
  let ?nd = "(wq_nodes q)(i := \<lparr>wt_next = None, wt_buf = None, wt_done = False, wt_cv = cv\<rparr>)"
  have "last xs \<in> set xs" using False by simp
  with assms(2) have neq: "last xs \<noteq> i" by auto
  have "lseg ?nd (wq_head q) xs" using assms by (simp add: wq_abs_def)
  then have "lseg (?nd(last xs := (?nd (last xs))\<lparr>wt_next := Some i\<rparr>)) (wq_head q) (xs @ [i])"
    by (rule lseg_snoc) (use assms False in \<open>simp_all add: wq_abs_def\<close>)
  with assms False neq show ?thesis
    by (auto simp: wq_abs_def wq_enqueue_def Let_def)
qed

lemma wq_enqueue_node:
  assumes "wq_abs q xs" "i \<notin> set xs"
  shows "wq_nodes (wq_enqueue i cv q) i = \<lparr>wt_next = None, wt_buf = None, wt_done = False, wt_cv = cv\<rparr>"
    and "j \<noteq> i \<Longrightarrow> wt_buf (wq_nodes (wq_enqueue i cv q) j) = wt_buf (wq_nodes q j)"
    and "j \<noteq> i \<Longrightarrow> wt_done (wq_nodes (wq_enqueue i cv q) j) = wt_done (wq_nodes q j)"
    and "j \<noteq> i \<Longrightarrow> wt_cv (wq_nodes (wq_enqueue i cv q) j) = wt_cv (wq_nodes q j)"
proof -
  have "xs \<noteq> [] \<Longrightarrow> last xs \<noteq> i" using assms(2) last_in_set by metis
  then have tail: "wq_tail q = Some t \<Longrightarrow> t \<noteq> i" for t
    using assms(1) by (auto simp: wq_abs_def split: if_splits)
  show "wq_nodes (wq_enqueue i cv q) i = \<lparr>wt_next = None, wt_buf = None, wt_done = False, wt_cv = cv\<rparr>"
    using tail by (auto simp: wq_enqueue_def Let_def split: option.splits)
qed (auto simp: wq_enqueue_def Let_def split: option.splits)

lemma wq_handoff_nil: "wq_abs q [] \<Longrightarrow> wq_handoff b q = (None, q)"
  by (simp add: wq_abs_def wq_handoff_def)

lemma wq_handoff_cons:
  assumes "wq_abs q (x # xs)"
  obtains q' where "wq_handoff b q = (Some (wt_cv (wq_nodes q x)), q')" "wq_abs q' xs"
    "wq_nodes q' = (wq_nodes q)(x := (wq_nodes q x)\<lparr>wt_buf := Some b, wt_done := True\<rparr>)"
proof
  let ?nd = "(wq_nodes q)(x := (wq_nodes q x)\<lparr>wt_buf := Some b, wt_done := True\<rparr>)"
  let ?q = "q\<lparr>wq_nodes := ?nd, wq_head := wt_next (wq_nodes q x),
             wq_tail := (if wt_next (wq_nodes q x) = None then None else wq_tail q),
             wq_count := wq_count q - 1\<rparr>"
  have seg: "lseg (wq_nodes q) (wt_next (wq_nodes q x)) xs" and hd: "wq_head q = Some x"
    and cnt: "wq_count q = Suc (length xs)" and x: "x \<notin> set xs"
    using assms by (auto simp: wq_abs_def)
  show "wq_handoff b q = (Some (wt_cv (wq_nodes q x)), ?q)"
    using hd cnt by (simp add: wq_handoff_def Let_def)
  have "wt_next (wq_nodes q x) = None \<longleftrightarrow> xs = []"
    using seg by (cases xs) auto
  then show "wq_abs ?q xs"
    using assms seg x by (auto simp: wq_abs_def lseg_same_next)
  show "wq_nodes ?q = ?nd" by simp
qed

text \<open>On a linked list of distinct nodes the drain loop returns, having served each node.\<close>

lemma wq_drain_loop_returns:
  "lseg nd p xs \<Longrightarrow> distinct xs \<Longrightarrow>
   wq_drain_loop nd p = Some (\<lambda>j. if j \<in> set xs then (nd j)\<lparr>wt_buf := None, wt_done := True\<rparr> else nd j)"
proof (induction xs arbitrary: nd p)
  case Nil
  then show ?case by (simp add: wq_drain_loop.simps)
next
  case (Cons x xs)
  let ?nd = "nd(x := (nd x)\<lparr>wt_buf := None, wt_done := True\<rparr>)"
  have "wq_drain_loop ?nd (wt_next (nd x)) =
      Some (\<lambda>j. if j \<in> set xs then (?nd j)\<lparr>wt_buf := None, wt_done := True\<rparr> else ?nd j)"
  proof (rule Cons.IH)
    show "lseg ?nd (wt_next (nd x)) xs" using Cons.prems by simp
    show "distinct xs" using Cons.prems by simp
  qed
  with Cons.prems show ?case
    by (subst wq_drain_loop.simps) (auto simp: fun_eq_iff)
qed

lemma wq_drain_abs:
  assumes "wq_abs q xs"
  obtains q' where "wq_drain q = Some q'" "wq_abs q' []"
    "\<And>j. wq_nodes q' j = (if j \<in> set xs then (wq_nodes q j)\<lparr>wt_buf := None, wt_done := True\<rparr> else wq_nodes q j)"
  using assms wq_drain_loop_returns [of "wq_nodes q" "wq_head q" xs]
  by (auto simp: wq_abs_def wq_drain_def)

section \<open>First in, first out\<close>

text \<open>
  The contract the pool relies on, over any representation with an abstraction relation to
  the list of waiting threads: threads join at the back, a hand-off serves the front, and
  draining serves everybody.
\<close>

locale fifo_waiters =
  fixes join :: "nat \<Rightarrow> nat \<Rightarrow> 'q \<Rightarrow> 'q"
    and serve :: "addr \<Rightarrow> 'q \<Rightarrow> nat option \<times> 'q"
    and abs :: "'q \<Rightarrow> nat list \<Rightarrow> bool"
    and given :: "'q \<Rightarrow> nat \<Rightarrow> ptr"
  assumes join_abs: "abs q xs \<Longrightarrow> i \<notin> set xs \<Longrightarrow> abs (join i cv q) (xs @ [i])"
    and join_given: "abs q xs \<Longrightarrow> i \<notin> set xs \<Longrightarrow> j \<noteq> i \<Longrightarrow> given (join i cv q) j = given q j"
    and serve_nil: "abs q [] \<Longrightarrow> serve b q = (None, q)"
    and serve_cons: "abs q (x # xs) \<Longrightarrow>
          \<exists>cv q'. serve b q = (Some cv, q') \<and> abs q' xs \<and> given q' x = Some b \<and>
                  (\<forall>j. j \<noteq> x \<longrightarrow> given q' j = given q j)"
begin

text \<open>Offer the buffers one after another; the result is the buffers nobody took.\<close>

primrec serve_all :: "addr list \<Rightarrow> 'q \<Rightarrow> addr list \<times> 'q" where
  "serve_all [] q = ([], q)"
| "serve_all (b # bs) q =
     (case serve b q of
        (None, q') \<Rightarrow> (let (rest, q'') = serve_all bs q' in (b # rest, q''))
      | (Some _, q') \<Rightarrow> serve_all bs q')"

lemma serve_all_abs:
  "abs q xs \<Longrightarrow> distinct xs \<Longrightarrow>
   \<exists>q'. serve_all bs q = (drop (length xs) bs, q') \<and> abs q' (drop (length bs) xs) \<and>
        (\<forall>k < min (length xs) (length bs). given q' (xs ! k) = Some (bs ! k)) \<and>
        (\<forall>j. j \<notin> set (take (length bs) xs) \<longrightarrow> given q' j = given q j)"
proof (induction bs arbitrary: q xs)
  case Nil
  then show ?case by auto
next
  case (Cons b bs)
  show ?case
  proof (cases xs)
    case Nil
    with Cons.prems have "serve b q = (None, q)" using serve_nil by blast
    with Cons.IH [OF Cons.prems] Nil show ?thesis by auto
  next
    case (Cons x ys)
    with Cons.prems obtain cv q1 where s: "serve b q = (Some cv, q1)" "abs q1 ys"
      "given q1 x = Some b" "\<forall>j. j \<noteq> x \<longrightarrow> given q1 j = given q j"
      using serve_cons by metis
    have "distinct ys" "x \<notin> set ys" using Cons Cons.prems by auto
    with Cons.IH [OF s(2)] obtain q2 where q2: "serve_all bs q1 = (drop (length ys) bs, q2)"
      "abs q2 (drop (length bs) ys)"
      "\<forall>k < min (length ys) (length bs). given q2 (ys ! k) = Some (bs ! k)"
      "\<forall>j. j \<notin> set (take (length bs) ys) \<longrightarrow> given q2 j = given q1 j" by auto
    have "x \<notin> set (take (length bs) ys)" using \<open>x \<notin> set ys\<close> in_set_takeD by metis
    then have "given q2 x = Some b" using q2(4) s(3) by simp
    then have "\<forall>k < min (length xs) (length (b # bs)). given q2 (xs ! k) = Some ((b # bs) ! k)"
      using q2(3) Cons by (auto simp: nth_Cons split: nat.split)
    with s q2 Cons show ?thesis by auto
  qed
qed

end

interpretation wq: fifo_waiters wq_enqueue wq_handoff wq_abs "\<lambda>q i. wt_buf (wq_nodes q i)"
proof (unfold_locales, goal_cases)
  case (1 q xs i cv)
  then show ?case by (rule wq_enqueue_abs)
next
  case (2 q xs i j cv)
  then show ?case using wq_enqueue_node(2) by simp
next
  case (3 q b)
  then show ?case by (rule wq_handoff_nil)
next
  case (4 q x xs b)
  then show ?case using wq_handoff_cons [OF 4, of b] by (metis fun_upd_other fun_upd_same waiter.select_convs(2) waiter.update_convs(2,3) waiter.surjective)
qed

end
