(* ===== verification/BufPool.thy ===== *)
theory BufPool
  imports MemBudget WaitQueue
begin

text \<open>
  \<^verbatim>\<open>cp8_buffer_pool\<close> (\<^verbatim>\<open>engine/p8_buffer_pool.cpp\<close>): fixed-size buffers, grown on demand
  from the budget, with a strict-FIFO queue of blocked acquirers. Each critical section
  under \<^verbatim>\<open>mo_mutex\<close> is one function; a function that notifies condition variables returns
  the list of shards it notified. The lists \<^verbatim>\<open>mo_free\<close> and \<^verbatim>\<open>mo_all\<close> are \<^verbatim>\<open>kit::c_lst\<close>
  containers and are represented by the sequence of their elements. \<open>pl_news\<close> holds the
  answers \<^verbatim>\<open>new(std::nothrow)\<close> will give, so that every allocation outcome is covered.
\<close>

section \<open>State\<close>

record pool =
  pl_bufsz :: nat
  pl_budget :: "budget option"
  pl_free :: "addr list"
  pl_all :: "addr list"
  pl_waitq :: wqueue
  pl_stopping :: bool
  pl_cv_next :: u32
  pl_inflight :: nat
  pl_news :: "ptr list"

definition mz_wait_cv_count :: nat where "mz_wait_cv_count = 64"

definition pool_new :: "nat \<Rightarrow> budget option \<Rightarrow> ptr list \<Rightarrow> pool" where
  "pool_new sz bud news =
     \<lparr>pl_bufsz = sz, pl_budget = bud, pl_free = [], pl_all = [], pl_waitq = wq_empty,
      pl_stopping = False, pl_cv_next = 0, pl_inflight = 0, pl_news = news\<rparr>"

section \<open>Growing, acquiring, recycling\<close>

definition pool_alloc :: "pool \<Rightarrow> ptr \<times> pool" where
  "pool_alloc p = (case pl_news p of [] \<Rightarrow> (None, p) | r # rs \<Rightarrow> (r, p\<lparr>pl_news := rs\<rparr>))"

definition pool_add :: "addr \<Rightarrow> pool \<Rightarrow> pool" where
  "pool_add a p = p\<lparr>pl_all := pl_all p @ [a], pl_free := pl_free p @ [a]\<rparr>"

text \<open>Reserve, allocate, and undo the reservation when the allocation fails.\<close>

definition pool_grow :: "pool \<Rightarrow> bool \<times> pool" where
  "pool_grow p =
     (case pl_budget p of
        None \<Rightarrow> (case pool_alloc p of (None, p1) \<Rightarrow> (False, p1) | (Some a, p1) \<Rightarrow> (True, pool_add a p1))
      | Some b \<Rightarrow>
          (case try_reserve (of_nat (pl_bufsz p)) b of
             (False, b1) \<Rightarrow> (False, p\<lparr>pl_budget := Some b1\<rparr>)
           | (True, b1) \<Rightarrow>
               (case pool_alloc (p\<lparr>pl_budget := Some b1\<rparr>) of
                  (None, p1) \<Rightarrow> (False, p1\<lparr>pl_budget := Some (release (of_nat (pl_bufsz p)) b1)\<rparr>)
                | (Some a, p1) \<Rightarrow> (True, pool_add a p1))))"

primrec pool_init :: "nat \<Rightarrow> pool \<Rightarrow> nat \<times> pool" where
  "pool_init 0 p = (0, p)"
| "pool_init (Suc n) p =
     (case pool_grow p of
        (False, p1) \<Rightarrow> (0, p1)
      | (True, p1) \<Rightarrow> (case pool_init n p1 of (k, p2) \<Rightarrow> (Suc k, p2)))"

definition pull_first :: "pool \<Rightarrow> ptr \<times> pool" where
  "pull_first p = (case pl_free p of [] \<Rightarrow> (None, p) | a # as \<Rightarrow> (Some a, p\<lparr>pl_free := as\<rparr>))"

definition acquire_no_lock :: "pool \<Rightarrow> ptr \<times> pool" where
  "acquire_no_lock p =
     (if length (pl_free p) = 0 then
        (case pool_grow p of (False, p1) \<Rightarrow> (None, p1) | (True, p1) \<Rightarrow> pull_first p1)
      else pull_first p)"

record pool_stat =
  st_buffer_size :: nat
  st_free_size :: nat
  st_max_size :: nat

definition pool_get_stat :: "pool \<Rightarrow> pool_stat" where
  "pool_get_stat p =
     (let out = (length (pl_all p) - length (pl_free p)) * pl_bufsz p;
          mx = (case pl_budget p of Some b \<Rightarrow> unat (bd_max b) | None \<Rightarrow> length (pl_all p) * pl_bufsz p)
      in \<lparr>st_buffer_size = pl_bufsz p, st_free_size = (if out < mx then mx - out else 0), st_max_size = mx\<rparr>)"

definition recycle :: "ptr \<Rightarrow> pool \<Rightarrow> pool \<times> nat list" where
  "recycle ip p =
     (case ip of
        None \<Rightarrow> (p, [])
      | Some b \<Rightarrow>
          (case wq_handoff b (pl_waitq p) of
             (Some cv, q) \<Rightarrow> (p\<lparr>pl_waitq := q\<rparr>, [cv])
           | (None, q) \<Rightarrow> (p\<lparr>pl_waitq := q, pl_free := pl_free p @ [b]\<rparr>, [])))"

text \<open>The batch variant: the same per element, under one lock acquisition.\<close>

primrec recycle_batch :: "ptr list \<Rightarrow> pool \<Rightarrow> pool \<times> nat list" where
  "recycle_batch [] p = (p, [])"
| "recycle_batch (b # bs) p =
     (case recycle b p of (p1, cs) \<Rightarrow> (case recycle_batch bs p1 of (p2, ds) \<Rightarrow> (p2, cs @ ds)))"

section \<open>Blocking\<close>

datatype wait_entry = Got addr | Refused | Parked

text \<open>\<open>acquire_wait\<close> up to the point where the thread returns or parks.\<close>

definition acquire_wait_enter :: "nat \<Rightarrow> pool \<Rightarrow> wait_entry \<times> pool" where
  "acquire_wait_enter i p =
     (case acquire_no_lock p of
        (Some b, p1) \<Rightarrow> (Got b, p1)
      | (None, p1) \<Rightarrow>
          if pl_stopping p1 then (Refused, p1)
          else (Parked,
                p1\<lparr>pl_waitq := wq_enqueue i (unat (pl_cv_next p1) mod mz_wait_cv_count) (pl_waitq p1),
                   pl_cv_next := pl_cv_next p1 + 1, pl_inflight := Suc (pl_inflight p1)\<rparr>))"

text \<open>What the woken thread reads under the lock: its own node.\<close>

definition wait_pred :: "nat \<Rightarrow> pool \<Rightarrow> bool" where
  "wait_pred i p \<longleftrightarrow> wt_done (wq_nodes (pl_waitq p) i)"

definition wait_result :: "nat \<Rightarrow> pool \<Rightarrow> ptr" where
  "wait_result i p = wt_buf (wq_nodes (pl_waitq p) i)"

text \<open>The last access of a returning waiter, after it has unlocked.\<close>

definition wait_leave :: "pool \<Rightarrow> pool" where
  "wait_leave p = p\<lparr>pl_inflight := pl_inflight p - 1\<rparr>"

definition stop_waiters :: "pool \<Rightarrow> (pool \<times> nat list) option" where
  "stop_waiters p =
     (let woke = wq_head (pl_waitq p) \<noteq> None
      in map_option (\<lambda>q. (p\<lparr>pl_stopping := True, pl_waitq := q\<rparr>, if woke then [0..<mz_wait_cv_count] else []))
           (wq_drain (pl_waitq p)))"

text \<open>The destructor after its barrier: free every buffer, return the bytes to the budget.\<close>

definition pool_destroy :: "pool \<Rightarrow> pool" where
  "pool_destroy p =
     (let reserved = length (pl_all p) * pl_bufsz p
      in p\<lparr>pl_all := [], pl_free := [],
           pl_budget := (case pl_budget p of
               Some b \<Rightarrow> Some (if 0 < reserved then release (of_nat reserved) b else b)
             | None \<Rightarrow> None)\<rparr>)"

section \<open>Pool invariant\<close>

text \<open>
  Buffers are pairwise different, the free list holds some of them once each, the
  allocator will not hand out an address twice, and the budget accounts for exactly the
  buffers that exist.
\<close>

definition news_ok :: "pool \<Rightarrow> bool" where
  "news_ok p \<longleftrightarrow> distinct (List.map_filter id (pl_news p)) \<and>
     set (List.map_filter id (pl_news p)) \<inter> set (pl_all p) = {}"

definition budget_exact :: "pool \<Rightarrow> bool" where
  "budget_exact p \<longleftrightarrow> 0 < pl_bufsz p \<and> pl_bufsz p < 2 ^ 64 \<and>
     (case pl_budget p of None \<Rightarrow> True
      | Some b \<Rightarrow> budget_ok b \<and> unat (bd_used b) = length (pl_all p) * pl_bufsz p)"

definition pool_ok :: "pool \<Rightarrow> bool" where
  "pool_ok p \<longleftrightarrow> distinct (pl_all p) \<and> distinct (pl_free p) \<and> set (pl_free p) \<subseteq> set (pl_all p) \<and>
     news_ok p \<and> budget_exact p"

lemma pool_ok_new:
  assumes "0 < sz" "sz < 2 ^ 64" "distinct (List.map_filter id news)"
    and "case bud of None \<Rightarrow> True | Some b \<Rightarrow> bd_used b = 0"
  shows "pool_ok (pool_new sz bud news)"
  using assms by (auto simp: pool_ok_def pool_new_def news_ok_def budget_exact_def budget_ok_def
      split: option.splits)

text \<open>What \<open>pool_grow\<close> leaves alone.\<close>

lemma pool_grow_frame [frame_simps]:
  assumes "pool_grow p = (ok, p')"
  shows "pl_waitq p' = pl_waitq p" "pl_stopping p' = pl_stopping p" "pl_bufsz p' = pl_bufsz p"
    "pl_cv_next p' = pl_cv_next p" "pl_inflight p' = pl_inflight p"
  using assms
  by (auto simp: pool_grow_def pool_alloc_def pool_add_def split: option.splits prod.splits bool.splits list.splits)

lemma pool_alloc_cases:
  obtains "pool_alloc p = (None, p)" "pl_news p = []"
  | r rs where "pl_news p = r # rs" "pool_alloc p = (r, p\<lparr>pl_news := rs\<rparr>)"
  by (cases "pl_news p") (auto simp: pool_alloc_def)

lemma pool_ok_alloc_None:
  "pool_ok p \<Longrightarrow> pool_alloc p = (None, p') \<Longrightarrow>
   pool_ok p' \<and> pl_all p' = pl_all p \<and> pl_free p' = pl_free p \<and> pl_budget p' = pl_budget p"
  by (auto simp: pool_alloc_def pool_ok_def news_ok_def budget_exact_def List.map_filter_simps
      split: list.splits option.splits)

lemma pool_ok_add:
  assumes "pool_alloc p = (Some a, p')" "news_ok p" "distinct (pl_all p)" "distinct (pl_free p)"
    "set (pl_free p) \<subseteq> set (pl_all p)"
  shows "a \<notin> set (pl_all p)" "pl_all p' = pl_all p" "pl_free p' = pl_free p" "pl_bufsz p' = pl_bufsz p"
    "pl_budget p' = pl_budget p" "news_ok (pool_add a p')" "distinct (pl_all (pool_add a p'))"
    "distinct (pl_free (pool_add a p'))" "set (pl_free (pool_add a p')) \<subseteq> set (pl_all (pool_add a p'))"
proof -
  obtain rs where rs: "pl_news p = Some a # rs" "p' = p\<lparr>pl_news := rs\<rparr>"
    using assms(1) by (auto simp: pool_alloc_def split: list.splits)
  with assms(2) have a: "a \<notin> set (pl_all p)" "a \<notin> set (List.map_filter id rs)"
    "distinct (List.map_filter id rs)" "set (List.map_filter id rs) \<inter> set (pl_all p) = {}"
    by (auto simp: news_ok_def List.map_filter_simps)
  then show "a \<notin> set (pl_all p)" by simp
  show "pl_all p' = pl_all p" "pl_free p' = pl_free p" "pl_bufsz p' = pl_bufsz p" "pl_budget p' = pl_budget p"
    using rs by simp_all
  show "news_ok (pool_add a p')" using a rs by (auto simp: news_ok_def pool_add_def)
  show "distinct (pl_all (pool_add a p'))" "distinct (pl_free (pool_add a p'))"
    "set (pl_free (pool_add a p')) \<subseteq> set (pl_all (pool_add a p'))"
    using a rs assms(3-5) by (auto simp: pool_add_def)
qed

text \<open>One growth step: a fresh buffer and its bytes, or no change but the allocator's answer.\<close>

definition grow_post :: "pool \<Rightarrow> bool \<Rightarrow> pool \<Rightarrow> bool" where
  "grow_post p r p' \<longleftrightarrow> pool_ok p' \<and>
     (if r then \<exists>a. a \<notin> set (pl_all p) \<and> pl_all p' = pl_all p @ [a] \<and> pl_free p' = pl_free p @ [a]
      else pl_all p' = pl_all p \<and> pl_free p' = pl_free p)"

lemma pool_okD:
  assumes "pool_ok p"
  shows "news_ok p" "distinct (pl_all p)" "distinct (pl_free p)" "set (pl_free p) \<subseteq> set (pl_all p)"
    "unat (of_nat (pl_bufsz p) :: u64) = pl_bufsz p" "0 < pl_bufsz p" "budget_exact p"
  using assms by (simp_all add: pool_ok_def budget_exact_def unat_of_nat)

lemma pool_grow_unlimited:
  assumes ok: "pool_ok p" and grow: "pool_grow p = (r, p')" and nb: "pl_budget p = None"
  shows "grow_post p r p'"
proof (cases "pool_alloc p")
  case (Pair x p1)
  show ?thesis
  proof (cases x)
    case None
    then show ?thesis
      using pool_ok_alloc_None [OF ok, of p1] grow nb Pair by (auto simp: pool_grow_def grow_post_def)
  next
    case (Some a)
    note add = pool_ok_add [OF Pair [unfolded Some] pool_okD(1-4) [OF ok]]
    have "budget_exact (pool_add a p1)"
      using ok nb add(4,5) by (auto simp: pool_ok_def budget_exact_def pool_add_def)
    then show ?thesis
      using add grow nb Pair Some
      by (auto simp: pool_grow_def pool_ok_def grow_post_def) (auto simp: pool_add_def)
  qed
qed

lemma pool_grow_granted:
  assumes ok: "pool_ok p" and grow: "pool_grow p = (r, p')" and b: "pl_budget p = Some b"
    and res: "try_reserve (of_nat (pl_bufsz p)) b = (True, b1)"
  shows "grow_post p r p'"
proof -
  note basic = pool_okD [OF ok]
  have bok: "budget_ok b" and used: "unat (bd_used b) = length (pl_all p) * pl_bufsz p"
    using basic(7) b by (simp_all add: budget_exact_def)
  let ?p = "p\<lparr>pl_budget := Some b1\<rparr>"
  have b1: "budget_ok b1" "unat (bd_used b1) = length (pl_all p) * pl_bufsz p + pl_bufsz p"
    using bud.reserve_grant [OF bok res] used basic(5) by auto
  obtain x p1 where al: "pool_alloc ?p = (x, p1)" by fastforce
  show ?thesis
  proof (cases x)
    case None
    have p1: "pl_all p1 = pl_all p" "pl_free p1 = pl_free p" "pl_bufsz p1 = pl_bufsz p" "news_ok p1"
      using al None basic(1)
      by (auto simp: pool_alloc_def news_ok_def List.map_filter_simps split: list.splits)
    have give: "budget_ok (release (of_nat (pl_bufsz p)) b1)"
      "unat (bd_used (release (of_nat (pl_bufsz p)) b1)) = length (pl_all p) * pl_bufsz p"
      using bud.reserve_give_back [OF bok res] used by auto
    have "p' = p1\<lparr>pl_budget := Some (release (of_nat (pl_bufsz p)) b1)\<rparr> \<and> \<not> r"
      using grow b res al None by (simp add: pool_grow_def)
    then show ?thesis
      using p1 give ok basic by (simp add: grow_post_def pool_ok_def budget_exact_def news_ok_def)
  next
    case (Some a)
    have "news_ok ?p" using basic(1) by (simp add: news_ok_def)
    note add = pool_ok_add [OF al [unfolded Some] this, simplified, OF basic(2-4)]
    have "budget_exact (pool_add a p1)"
      using add(2,4,5) b1 basic by (simp add: budget_exact_def pool_add_def)
    moreover have "p' = pool_add a p1 \<and> r"
      using grow b res al Some by (simp add: pool_grow_def)
    ultimately show ?thesis
      using add by (auto simp: pool_ok_def grow_post_def) (auto simp: pool_add_def)
  qed
qed

lemma pool_grow_post:
  assumes ok: "pool_ok p" and grow: "pool_grow p = (r, p')"
  shows "grow_post p r p'"
proof (cases "pl_budget p")
  case None
  then show ?thesis by (rule pool_grow_unlimited [OF assms])
next
  case (Some b)
  obtain g b1 where res: "try_reserve (of_nat (pl_bufsz p)) b = (g, b1)" by fastforce
  show ?thesis
  proof (cases g)
    case True
    then show ?thesis using pool_grow_granted [OF assms Some] res by simp
  next
    case False
    then have "b1 = b" using bud.reserve_deny [of _ b b1] res by simp
    then have "p' = p \<and> \<not> r" using grow Some res False by (auto simp: pool_grow_def)
    then show ?thesis using ok by (simp add: grow_post_def)
  qed
qed

lemma pool_grow_ok:
  assumes "pool_ok p" "pool_grow p = (r, p')"
  shows "pool_ok p'"
    and "r \<Longrightarrow> \<exists>a. a \<notin> set (pl_all p) \<and> pl_all p' = pl_all p @ [a] \<and> pl_free p' = pl_free p @ [a]"
    and "\<not> r \<Longrightarrow> pl_all p' = pl_all p \<and> pl_free p' = pl_free p"
  using pool_grow_post [OF assms] by (simp_all add: grow_post_def)

text \<open>Growth fails only for want of budget or because the allocator refused.\<close>

lemma pool_grow_denied:
  assumes "pool_ok p" "pool_grow p = (False, p')" "pl_budget p = Some b"
  shows "unat (bd_max b) < (length (pl_all p) + 1) * pl_bufsz p \<or> pl_news p = [] \<or> hd (pl_news p) = None"
proof (cases "try_reserve (of_nat (pl_bufsz p)) b")
  case (Pair g b1)
  have sz: "unat (of_nat (pl_bufsz p) :: u64) = pl_bufsz p"
    and used: "budget_ok b" "unat (bd_used b) = length (pl_all p) * pl_bufsz p"
    using assms by (simp_all add: pool_ok_def budget_exact_def unat_of_nat)
  show ?thesis
  proof (cases g)
    case False
    then show ?thesis using bud.reserve_denied [OF used(1), of "of_nat (pl_bufsz p)" b1] Pair used sz by (simp add: algebra_simps)
  next
    case True
    then show ?thesis
      using assms Pair
      by (auto simp: pool_grow_def pool_alloc_def split: list.splits option.splits)
  qed
qed

section \<open>Acquiring and recycling keep the invariant\<close>

lemma pull_first_frame [frame_simps]:
  assumes "pull_first p = (x, p')"
  shows "pl_waitq p' = pl_waitq p" "pl_stopping p' = pl_stopping p" "pl_bufsz p' = pl_bufsz p"
    "pl_cv_next p' = pl_cv_next p" "pl_inflight p' = pl_inflight p"
  using assms by (auto simp: pull_first_def split: list.splits)

lemma acquire_no_lock_via:
  assumes "acquire_no_lock p = (x, p')"
  obtains "pull_first p = (x, p')"
  | p1 where "pool_grow p = (True, p1)" "pull_first p1 = (x, p')"
  | "pool_grow p = (False, p')"
proof (cases "pl_free p")
  case Nil
  obtain g p1 where g: "pool_grow p = (g, p1)" by fastforce
  show thesis
  proof (cases g)
    case True
    with assms Nil g that(2) show thesis by (simp add: acquire_no_lock_def)
  next
    case False
    with assms Nil g that(3) show thesis by (simp add: acquire_no_lock_def)
  qed
next
  case Cons
  with assms that(1) show thesis by (simp add: acquire_no_lock_def)
qed

lemma acquire_no_lock_frame [frame_simps]:
  assumes "acquire_no_lock p = (x, p')"
  shows "pl_waitq p' = pl_waitq p" "pl_stopping p' = pl_stopping p" "pl_bufsz p' = pl_bufsz p"
    "pl_cv_next p' = pl_cv_next p" "pl_inflight p' = pl_inflight p"
  by (rule acquire_no_lock_via [OF assms]; simp add: pull_first_frame pool_grow_frame)+

text \<open>
  One acquisition: a free buffer, the head of the free list if there is one and a fresh one
  otherwise, or nothing, and then the free list is empty.
\<close>

lemma acquire_no_lock_Some:
  assumes ok: "pool_ok p" and acq: "acquire_no_lock p = (Some b, p')"
  shows "pool_ok p'" "b \<notin> set (pl_free p')" "b \<in> set (pl_all p')" "set (pl_all p) \<subseteq> set (pl_all p')"
    "pl_free p \<noteq> [] \<Longrightarrow> pl_free p = b # pl_free p' \<and> pl_all p' = pl_all p"
    "pl_free p = [] \<Longrightarrow> pl_free p' = [] \<and> pl_all p' = pl_all p @ [b] \<and> b \<notin> set (pl_all p)"
proof -
  have "pool_ok p' \<and> b \<notin> set (pl_free p') \<and> b \<in> set (pl_all p') \<and> set (pl_all p) \<subseteq> set (pl_all p') \<and>
    (pl_free p \<noteq> [] \<longrightarrow> pl_free p = b # pl_free p' \<and> pl_all p' = pl_all p) \<and>
    (pl_free p = [] \<longrightarrow> pl_free p' = [] \<and> pl_all p' = pl_all p @ [b] \<and> b \<notin> set (pl_all p))"
  proof (cases "pl_free p")
    case Nil
    then obtain p1 where g: "pool_grow p = (True, p1)" and pf: "pull_first p1 = (Some b, p')"
      using acq by (auto simp: acquire_no_lock_def split: prod.splits bool.splits)
    from pool_grow_ok [OF ok g] Nil obtain a where a: "pool_ok p1" "a \<notin> set (pl_all p)"
      "pl_all p1 = pl_all p @ [a]" "pl_free p1 = [a]" by auto
    with pf Nil show ?thesis
      by (auto simp: pull_first_def pool_ok_def news_ok_def budget_exact_def split: option.splits)
  next
    case (Cons a as)
    with acq ok show ?thesis
      by (auto simp: acquire_no_lock_def pull_first_def pool_ok_def news_ok_def budget_exact_def split: option.splits)
  qed
  then show "pool_ok p'" "b \<notin> set (pl_free p')" "b \<in> set (pl_all p')" "set (pl_all p) \<subseteq> set (pl_all p')"
    "pl_free p \<noteq> [] \<Longrightarrow> pl_free p = b # pl_free p' \<and> pl_all p' = pl_all p"
    "pl_free p = [] \<Longrightarrow> pl_free p' = [] \<and> pl_all p' = pl_all p @ [b] \<and> b \<notin> set (pl_all p)"
    by blast+
qed

lemma acquire_no_lock_None:
  assumes ok: "pool_ok p" and acq: "acquire_no_lock p = (None, p')"
  shows "pool_ok p'" "pl_all p' = pl_all p" "pl_free p' = []" "pl_free p = []"
proof -
  have nil: "pl_free p = []"
    using acq by (auto simp: acquire_no_lock_def pull_first_def split: if_splits list.splits)
  obtain g p1 where g: "pool_grow p = (g, p1)" by fastforce
  have "\<not> g"
  proof
    assume "g"
    with pool_grow_ok(2) [OF ok g] nil obtain a where "pl_free p1 = [a]" by auto
    with acq nil g \<open>g\<close> show False by (simp add: acquire_no_lock_def pull_first_def)
  qed
  then have "p' = p1" using acq nil g by (simp add: acquire_no_lock_def)
  with pool_grow_ok [OF ok g] \<open>\<not> g\<close> nil
  show "pool_ok p'" "pl_all p' = pl_all p" "pl_free p' = []" "pl_free p = []" by auto
qed

text \<open>Recycling serves the oldest waiter or else appends to the free list.\<close>

lemma recycle_parked:
  assumes "wq_abs (pl_waitq p) (x # xs)"
  obtains q where "recycle (Some b) p = (p\<lparr>pl_waitq := q\<rparr>, [wt_cv (wq_nodes (pl_waitq p) x)])" "wq_abs q xs"
    "wq_nodes q = (wq_nodes (pl_waitq p))(x := (wq_nodes (pl_waitq p) x)\<lparr>wt_buf := Some b, wt_done := True\<rparr>)"
proof (rule wq_handoff_cons [OF assms, of b])
  fix q
  assume "wq_handoff b (pl_waitq p) = (Some (wt_cv (wq_nodes (pl_waitq p) x)), q)"
  then have "recycle (Some b) p = (p\<lparr>pl_waitq := q\<rparr>, [wt_cv (wq_nodes (pl_waitq p) x)])"
    by (simp add: recycle_def)
  moreover assume "wq_abs q xs"
    "wq_nodes q = (wq_nodes (pl_waitq p))(x := (wq_nodes (pl_waitq p) x)\<lparr>wt_buf := Some b, wt_done := True\<rparr>)"
  ultimately show thesis by (rule that)
qed

lemma recycle_idle:
  "wq_abs (pl_waitq p) [] \<Longrightarrow> recycle (Some b) p = (p\<lparr>pl_free := pl_free p @ [b]\<rparr>, [])"
  by (simp add: recycle_def wq_handoff_nil)

lemma recycle_Nothing: "recycle None p = (p, [])"
  by (simp add: recycle_def)

lemma recycle_batch_serve_all:
  "fst (recycle_batch (map Some bs) p) =
   (case wq.serve_all bs (pl_waitq p) of (rest, q) \<Rightarrow> p\<lparr>pl_waitq := q, pl_free := pl_free p @ rest\<rparr>)"
proof (induction bs arbitrary: p)
  case Nil
  then show ?case by simp
next
  case (Cons b bs)
  obtain r q1 where h: "wq_handoff b (pl_waitq p) = (r, q1)" by fastforce
  show ?case
  proof (cases r)
    case None
    then show ?thesis using h Cons.IH [of "p\<lparr>pl_waitq := q1, pl_free := pl_free p @ [b]\<rparr>"]
      by (simp add: recycle_def Let_def split: prod.splits)
  next
    case (Some cv)
    have "fst (recycle_batch (map Some (b # bs)) p) = fst (recycle_batch (map Some bs) (p\<lparr>pl_waitq := q1\<rparr>))"
      using h Some by (simp add: recycle_def split_beta)
    then show ?thesis using h Some Cons.IH [of "p\<lparr>pl_waitq := q1\<rparr>"] by simp
  qed
qed

lemma recycle_batch_bufsz: "pl_bufsz (fst (recycle_batch (map Some bs) p)) = pl_bufsz p"
  by (simp add: recycle_batch_serve_all split: prod.split)

lemma recycle_batch_serves:
  assumes "wq_abs (pl_waitq p) xs" and "recycle_batch (map Some bs) p = (p', cvs)"
  shows "pl_free p' = pl_free p @ drop (length xs) bs \<and> wq_abs (pl_waitq p') (drop (length bs) xs) \<and>
    (\<forall>k < min (length xs) (length bs). wait_result (xs ! k) p' = Some (bs ! k)) \<and>
    pl_all p' = pl_all p \<and> pl_budget p' = pl_budget p"
proof -
  have "distinct xs" using assms(1) by (simp add: wq_abs_def)
  from wq.serve_all_abs [OF assms(1) this, of bs]
  obtain q where "wq.serve_all bs (pl_waitq p) = (drop (length xs) bs, q)" "wq_abs q (drop (length bs) xs)"
    "\<forall>k < min (length xs) (length bs). wt_buf (wq_nodes q (xs ! k)) = Some (bs ! k)" by blast
  moreover from this have "p' = p\<lparr>pl_waitq := q, pl_free := pl_free p @ drop (length xs) bs\<rparr>"
    using recycle_batch_serve_all [of bs p] assms(2) by simp
  ultimately show ?thesis by (simp add: wait_result_def)
qed

text \<open>
  C25: Returning a batch of buffers is fair and loses nothing: if \<open>n\<close> threads wait, the first
  \<open>n\<close> buffers go one each to the oldest waiters in arrival order, only the buffers left
  over reach the free list, in order, and the waiters not served keep their order.
\<close>

theorem recycle_batch_fifo:
  assumes "wq_abs (pl_waitq p) xs" and "recycle_batch (map Some bs) p = (p', cvs)"
  shows "pl_free p' = pl_free p @ drop (length xs) bs \<and> wq_abs (pl_waitq p') (drop (length bs) xs) \<and>
    (\<forall>k < min (length xs) (length bs). wait_result (xs ! k) p' = Some (bs ! k)) \<and>
    pl_all p' = pl_all p \<and> pl_budget p' = pl_budget p"
  by (rule recycle_batch_serves [OF assms])

definition two_parked :: pool where
  "two_parked = (let p0 = pool_new 64 None [Some 1];
                     p1 = snd (acquire_no_lock p0);
                     p2 = snd (acquire_wait_enter 7 p1)
                 in snd (acquire_wait_enter 4 p2))"

lemmas pool_run_simps = pool_new_def acquire_no_lock_def pool_grow_def pool_alloc_def
  pool_add_def pull_first_def acquire_wait_enter_def wq_enqueue_def wq_empty_def Let_def

lemma recycle_batch_fifo_witness:
  "pl_free (fst (recycle_batch (map Some [1, 2, 3]) two_parked)) = [3] \<and>
   wait_result 4 (fst (recycle_batch (map Some [1, 2, 3]) two_parked)) = Some 2"
proof -
  have abs: "wq_abs (pl_waitq two_parked) [7, 4]" and free: "pl_free two_parked = []"
    by (simp_all add: two_parked_def wq_abs_def pool_run_simps)
  obtain p' cvs where run: "recycle_batch (map Some [1, 2, 3]) two_parked = (p', cvs)" by fastforce
  from recycle_batch_fifo [OF abs run] have "pl_free p' = [3]"
    "\<forall>k < 2. wait_result ([7, 4] ! k) p' = Some ([1, 2, 3] ! k)" by (simp_all add: free)
  from this(2) [rule_format, of 1] this(1) run show ?thesis by simp
qed

end
