(* ===== verification/PoolSystem.thy ===== *)
theory PoolSystem
  imports BufPool
begin

text \<open>
  The buffer pool under concurrency (\<^verbatim>\<open>engine/p8_buffer_pool.cpp\<close>). Every critical section of
  \<^verbatim>\<open>mo_mutex\<close> is one atomic event; what the mutex does not cover (being parked on a
  condition variable, waking up, the last access of a returning waiter) is an event of its
  own, so that every interleaving of any number of threads is a sequence of events.
\<close>

section \<open>Threads, events, system state\<close>

text \<open>
  Where a thread is with respect to \<open>acquire_wait\<close>: outside, blocked in \<^verbatim>\<open>cv.wait\<close>, woken
  (notified or spuriously) but without the mutex, or past the mutex and about to decrement
  \<^verbatim>\<open>mu_inflight\<close> and return the pointer it read.
\<close>

datatype tpc = T_out | T_asleep | T_ready | T_left ptr

record psys =
  ps_pool :: pool
  ps_thr :: "nat \<Rightarrow> tpc"
  ps_held :: "addr set"

datatype pevent =
    E_try
  | E_wait nat
  | E_recycle ptr
  | E_recycle_batch "ptr list"
  | E_spurious nat
  | E_resume nat
  | E_leave nat
  | E_stop

text \<open>\<^verbatim>\<open>notify_all\<close> on each listed shard makes the threads parked there runnable.\<close>

definition wake :: "nat list \<Rightarrow> pool \<Rightarrow> (nat \<Rightarrow> tpc) \<Rightarrow> nat \<Rightarrow> tpc" where
  "wake cvs p thr = (\<lambda>i. if thr i = T_asleep \<and> wt_cv (wq_nodes (pl_waitq p) i) \<in> set cvs then T_ready else thr i)"

definition ps_try :: "psys \<Rightarrow> psys" where
  "ps_try s = (case acquire_no_lock (ps_pool s) of
       (Some b, p) \<Rightarrow> s\<lparr>ps_pool := p, ps_held := insert b (ps_held s)\<rparr>
     | (None, p) \<Rightarrow> s\<lparr>ps_pool := p\<rparr>)"

definition ps_wait :: "nat \<Rightarrow> psys \<Rightarrow> psys" where
  "ps_wait i s = (case acquire_wait_enter i (ps_pool s) of
       (Got b, p) \<Rightarrow> s\<lparr>ps_pool := p, ps_held := insert b (ps_held s)\<rparr>
     | (Refused, p) \<Rightarrow> s\<lparr>ps_pool := p\<rparr>
     | (Parked, p) \<Rightarrow> s\<lparr>ps_pool := p, ps_thr := (ps_thr s)(i := T_asleep)\<rparr>)"

definition ps_recycle :: "ptr \<Rightarrow> psys \<Rightarrow> psys" where
  "ps_recycle ip s = (case recycle ip (ps_pool s) of
       (p, cvs) \<Rightarrow> s\<lparr>ps_pool := p, ps_thr := wake cvs p (ps_thr s), ps_held := ps_held s - set_option ip\<rparr>)"

definition ps_recycle_batch :: "ptr list \<Rightarrow> psys \<Rightarrow> psys" where
  "ps_recycle_batch ips s = (case recycle_batch ips (ps_pool s) of
       (p, cvs) \<Rightarrow> s\<lparr>ps_pool := p, ps_thr := wake cvs p (ps_thr s),
                     ps_held := ps_held s - set (List.map_filter id ips)\<rparr>)"

text \<open>A runnable waiter takes the mutex and evaluates the predicate of \<^verbatim>\<open>cv.wait\<close>.\<close>

definition ps_resume :: "nat \<Rightarrow> psys \<Rightarrow> psys" where
  "ps_resume i s = s\<lparr>ps_thr := (ps_thr s)(i := if wait_pred i (ps_pool s) then T_left (wait_result i (ps_pool s)) else T_asleep)\<rparr>"

definition ps_leave :: "nat \<Rightarrow> ptr \<Rightarrow> psys \<Rightarrow> psys" where
  "ps_leave i r s = s\<lparr>ps_pool := wait_leave (ps_pool s), ps_thr := (ps_thr s)(i := T_out), ps_held := ps_held s \<union> set_option r\<rparr>"

definition ps_stop :: "psys \<Rightarrow> psys option" where
  "ps_stop s = map_option (\<lambda>(p, cvs). s\<lparr>ps_pool := p, ps_thr := wake cvs p (ps_thr s)\<rparr>) (stop_waiters (ps_pool s))"

text \<open>
  The effect of an event, or \<open>None\<close> when it is not enabled: a thread enters from outside, and a
  buffer is only given back by a caller that holds it.
\<close>

fun ps_exec :: "pevent \<Rightarrow> psys \<Rightarrow> psys option" where
  "ps_exec E_try s = Some (ps_try s)"
| "ps_exec (E_wait i) s = (if ps_thr s i = T_out then Some (ps_wait i s) else None)"
| "ps_exec (E_recycle ip) s = (if set_option ip \<subseteq> ps_held s then Some (ps_recycle ip s) else None)"
| "ps_exec (E_recycle_batch ips) s =
     (if distinct (List.map_filter id ips) \<and> set (List.map_filter id ips) \<subseteq> ps_held s
      then Some (ps_recycle_batch ips s) else None)"
| "ps_exec (E_spurious i) s = (if ps_thr s i = T_asleep then Some (s\<lparr>ps_thr := (ps_thr s)(i := T_ready)\<rparr>) else None)"
| "ps_exec (E_resume i) s = (if ps_thr s i = T_ready then Some (ps_resume i s) else None)"
| "ps_exec (E_leave i) s = (case ps_thr s i of T_left r \<Rightarrow> Some (ps_leave i r s) | _ \<Rightarrow> None)"
| "ps_exec E_stop s = ps_stop s"

definition ps_start :: "nat \<Rightarrow> budget option \<Rightarrow> ptr list \<Rightarrow> nat \<Rightarrow> psys" where
  "ps_start sz bud news n = \<lparr>ps_pool = snd (pool_init n (pool_new sz bud news)), ps_thr = (\<lambda>_. T_out), ps_held = {}\<rparr>"

text \<open>What the construction must guarantee: a size that fits, a fresh budget, an allocator that never hands out live memory.\<close>

definition start_ok :: "nat \<Rightarrow> budget option \<Rightarrow> ptr list \<Rightarrow> bool" where
  "start_ok sz bud news \<longleftrightarrow> 0 < sz \<and> sz < 2 ^ 64 \<and> distinct (List.map_filter id news) \<and>
     (case bud of None \<Rightarrow> True | Some b \<Rightarrow> bd_used b = 0)"

inductive ps_reach :: "psys \<Rightarrow> bool" where
  start: "start_ok sz bud news \<Longrightarrow> ps_reach (ps_start sz bud news n)"
| step: "ps_reach s \<Longrightarrow> ps_exec e s = Some s' \<Longrightarrow> ps_reach s'"

section \<open>Invariant\<close>

abbreviation node :: "psys \<Rightarrow> nat \<Rightarrow> waiter" where
  "node s i \<equiv> wq_nodes (pl_waitq (ps_pool s)) i"

definition in_wait :: "psys \<Rightarrow> nat \<Rightarrow> bool" where
  "in_wait s i \<longleftrightarrow> ps_thr s i = T_asleep \<or> ps_thr s i = T_ready"

text \<open>A buffer handed over to a waiter that has not returned yet.\<close>

definition owns :: "psys \<Rightarrow> nat \<Rightarrow> addr \<Rightarrow> bool" where
  "owns s i b \<longleftrightarrow> in_wait s i \<and> wt_done (node s i) \<and> wt_buf (node s i) = Some b \<or> ps_thr s i = T_left (Some b)"

definition busy :: "psys \<Rightarrow> nat set" where
  "busy s = {i. ps_thr s i \<noteq> T_out}"

definition sync_inv :: "psys \<Rightarrow> nat list \<Rightarrow> bool" where
  "sync_inv s xs \<longleftrightarrow>
     wq_abs (pl_waitq (ps_pool s)) xs \<and>
     finite (busy s) \<and> pl_inflight (ps_pool s) = card (busy s) \<and>
     (\<forall>i. i \<in> set xs \<longleftrightarrow> in_wait s i \<and> \<not> wt_done (node s i)) \<and>
     (\<forall>i. ps_thr s i = T_asleep \<longrightarrow> \<not> wt_done (node s i)) \<and>
     (\<forall>i. in_wait s i \<longrightarrow> wt_cv (node s i) < mz_wait_cv_count) \<and>
     (xs \<noteq> [] \<longrightarrow> pl_free (ps_pool s) = []) \<and>
     (pl_stopping (ps_pool s) \<longrightarrow> xs = [])"

definition own_inv :: "psys \<Rightarrow> bool" where
  "own_inv s \<longleftrightarrow>
     pool_ok (ps_pool s) \<and>
     set (pl_all (ps_pool s)) = ps_held s \<union> set (pl_free (ps_pool s)) \<union> {b. \<exists>i. owns s i b} \<and>
     ps_held s \<inter> set (pl_free (ps_pool s)) = {} \<and>
     (\<forall>i b. owns s i b \<longrightarrow> b \<notin> ps_held s \<and> b \<notin> set (pl_free (ps_pool s))) \<and>
     (\<forall>i j b. owns s i b \<longrightarrow> owns s j b \<longrightarrow> i = j)"

definition ps_inv :: "psys \<Rightarrow> bool" where
  "ps_inv s \<longleftrightarrow> (\<exists>xs. sync_inv s xs) \<and> own_inv s"

lemma ps_invI: "sync_inv s xs \<Longrightarrow> own_inv s \<Longrightarrow> ps_inv s"
  by (auto simp: ps_inv_def)

subsection \<open>Start\<close>

lemma pool_init_ok:
  assumes "pool_ok p" "pool_init n p = (k, p')"
  shows "pool_ok p' \<and> pl_waitq p' = pl_waitq p \<and> pl_stopping p' = pl_stopping p \<and> pl_inflight p' = pl_inflight p \<and>
    (set (pl_free p) = set (pl_all p) \<longrightarrow> set (pl_free p') = set (pl_all p')) \<and>
    length (pl_all p') = length (pl_all p) + k \<and> k \<le> n"
  using assms
proof (induction n arbitrary: p k p')
  case 0
  then show ?case by simp
next
  case (Suc n)
  obtain g p1 where g: "pool_grow p = (g, p1)" by fastforce
  note grow = pool_grow_ok [OF Suc.prems(1) g] pool_grow_frame [OF g]
  show ?case
  proof (cases g)
    case False
    with Suc.prems(2) g have "p' = p1" "k = 0" by auto
    with grow False show ?thesis by simp
  next
    case True
    obtain m p2 where m: "pool_init n p1 = (m, p2)" by fastforce
    with True g Suc.prems(2) have "k = Suc m" "p' = p2" by auto
    moreover obtain a where "pl_all p1 = pl_all p @ [a]" "pl_free p1 = pl_free p @ [a]"
      using grow(2) True by auto
    ultimately show ?thesis using Suc.IH [OF grow(1) m] grow by auto
  qed
qed

lemma ps_inv_start:
  assumes "start_ok sz bud news"
  shows "ps_inv (ps_start sz bud news n)"
proof -
  let ?p = "pool_new sz bud news"
  obtain k p' where i: "pool_init n ?p = (k, p')" by fastforce
  have "pool_ok ?p" using assms by (auto simp: start_ok_def intro: pool_ok_new)
  from pool_init_ok [OF this i] have p': "pool_ok p'" "pl_waitq p' = wq_empty" "\<not> pl_stopping p'" "pl_inflight p' = 0"
    "set (pl_free p') = set (pl_all p')" by (auto simp: pool_new_def)
  have "sync_inv (ps_start sz bud news n) []"
    using p' i wq_abs_empty by (simp add: sync_inv_def ps_start_def in_wait_def busy_def)
  moreover have "own_inv (ps_start sz bud news n)"
    using p' i by (simp add: own_inv_def ps_start_def owns_def in_wait_def)
  ultimately show ?thesis by (rule ps_invI)
qed

subsection \<open>Acquiring\<close>

lemma sync_frame:
  assumes "sync_inv s xs" "pl_waitq (ps_pool s') = pl_waitq (ps_pool s)" "ps_thr s' = ps_thr s"
    "pl_inflight (ps_pool s') = pl_inflight (ps_pool s)" "pl_stopping (ps_pool s') = pl_stopping (ps_pool s)"
    "pl_free (ps_pool s) = [] \<Longrightarrow> pl_free (ps_pool s') = []"
  shows "sync_inv s' xs"
  using assms by (auto simp: sync_inv_def in_wait_def busy_def)

lemma owns_frame:
  assumes "pl_waitq (ps_pool s') = pl_waitq (ps_pool s)" "ps_thr s' = ps_thr s"
  shows "owns s' = owns s"
  using assms by (auto simp: owns_def in_wait_def fun_eq_iff)

lemma own_inv_acquire:
  assumes inv: "own_inv s" and acq: "acquire_no_lock (ps_pool s) = (Some b, p')"
    and ow: "owns s' = owns s" and s': "ps_pool s' = p'" "ps_held s' = insert b (ps_held s)"
  shows "own_inv s'"
proof -
  have ok: "pool_ok (ps_pool s)" using inv by (simp add: own_inv_def)
  note acq' = acquire_no_lock_Some [OF ok acq]
  show ?thesis
  proof (cases "pl_free (ps_pool s)")
    case Nil
    then have all: "pl_free p' = []" "pl_all p' = pl_all (ps_pool s) @ [b]" "b \<notin> set (pl_all (ps_pool s))"
      using acq'(6) by auto
    have "owns s i b \<Longrightarrow> b \<in> set (pl_all (ps_pool s))" for i using inv by (auto simp: own_inv_def)
    then show ?thesis using inv all acq'(1) s' Nil unfolding own_inv_def ow by auto
  next
    case Cons
    then have all: "pl_free (ps_pool s) = b # pl_free p'" "pl_all p' = pl_all (ps_pool s)"
      using acq'(5) by auto
    then show ?thesis using inv acq'(1,2) s' unfolding own_inv_def ow by auto
  qed
qed

lemma own_inv_noacquire:
  assumes "own_inv s" "acquire_no_lock (ps_pool s) = (None, p')" "owns s' = owns s"
    "pl_all (ps_pool s') = pl_all p'" "pl_free (ps_pool s') = pl_free p'" "pool_ok (ps_pool s')" "ps_held s' = ps_held s"
  shows "own_inv s'"
proof -
  have "pool_ok (ps_pool s)" using assms(1) by (simp add: own_inv_def)
  note acq = acquire_no_lock_None [OF this assms(2)]
  from acq assms show ?thesis unfolding own_inv_def by simp
qed

lemma acquire_no_lock_free_nil:
  assumes "pool_ok p" "acquire_no_lock p = (x, p')" "pl_free p = []"
  shows "pl_free p' = []"
  using assms acquire_no_lock_Some(6) [of p _ p'] acquire_no_lock_None(3) [of p p'] by (cases x) auto

lemma ps_inv_try:
  assumes "ps_inv s"
  shows "ps_inv (ps_try s)"
proof -
  from assms obtain xs where xs: "sync_inv s xs" and own: "own_inv s" by (auto simp: ps_inv_def)
  have ok: "pool_ok (ps_pool s)" using own by (simp add: own_inv_def)
  obtain x p' where acq: "acquire_no_lock (ps_pool s) = (x, p')" by fastforce
  note fr = acquire_no_lock_frame [OF acq]
  have pool: "ps_pool (ps_try s) = p'" and thr: "ps_thr (ps_try s) = ps_thr s"
    using acq by (auto simp: ps_try_def split: option.splits)
  have sync: "sync_inv (ps_try s) xs"
    by (rule sync_frame [OF xs]) (use fr pool thr acquire_no_lock_free_nil [OF ok acq] in simp_all)
  have ow: "owns (ps_try s) = owns s" by (rule owns_frame) (use fr pool thr in simp_all)
  show ?thesis
  proof (cases x)
    case None
    have "own_inv (ps_try s)"
      by (rule own_inv_noacquire [OF own acq [unfolded None] ow])
        (use acq None acquire_no_lock_None(1) [OF ok] in \<open>simp_all add: ps_try_def\<close>)
    with sync show ?thesis by (rule ps_invI)
  next
    case (Some b)
    have "own_inv (ps_try s)"
      by (rule own_inv_acquire [OF own acq [unfolded Some] ow]) (use acq Some in \<open>simp_all add: ps_try_def\<close>)
    with sync show ?thesis by (rule ps_invI)
  qed
qed

text \<open>A thread that parks joins the queue with a node of its own, undone.\<close>

lemma sync_inv_park:
  assumes sync: "sync_inv s xs" and out: "ps_thr s i = T_out"
    and p: "pl_waitq p = pl_waitq (ps_pool s)" "pl_inflight p = pl_inflight (ps_pool s)" "pl_free p = []" "\<not> pl_stopping p"
    and cv: "cv < mz_wait_cv_count"
    and s': "ps_pool s' = p\<lparr>pl_waitq := wq_enqueue i cv (pl_waitq p), pl_cv_next := n, pl_inflight := Suc (pl_inflight p)\<rparr>"
      "ps_thr s' = (ps_thr s)(i := T_asleep)"
  shows "sync_inv s' (xs @ [i])" and "owns s' = owns s"
proof -
  have abs: "wq_abs (pl_waitq (ps_pool s)) xs" and i: "i \<notin> set xs" and fin: "finite (busy s)"
    using sync out by (auto simp: sync_inv_def in_wait_def)
  note nd = wq_enqueue_node [OF abs i, where cv = cv]
  have busy: "busy s' = insert i (busy s)" "i \<notin> busy s" using out s' by (auto simp: busy_def)
  have wait: "in_wait s' j \<longleftrightarrow> j = i \<or> in_wait s j" for j using s' out by (auto simp: in_wait_def)
  have node: "node s' i = \<lparr>wt_next = None, wt_buf = None, wt_done = False, wt_cv = cv\<rparr>"
    "\<And>j. j \<noteq> i \<Longrightarrow> wt_done (node s' j) = wt_done (node s j)"
    "\<And>j. j \<noteq> i \<Longrightarrow> wt_buf (node s' j) = wt_buf (node s j)"
    "\<And>j. j \<noteq> i \<Longrightarrow> wt_cv (node s' j) = wt_cv (node s j)"
    using nd s'(1) p(1) by simp_all
  have mem: "j \<in> set (xs @ [i]) \<longleftrightarrow> in_wait s' j \<and> \<not> wt_done (node s' j)" for j
    using sync wait node by (cases "j = i") (simp_all add: sync_inv_def)
  have asleep: "ps_thr s' j = T_asleep \<Longrightarrow> \<not> wt_done (node s' j)" for j
    using sync s'(2) node by (cases "j = i") (simp_all add: sync_inv_def)
  have shard: "in_wait s' j \<Longrightarrow> wt_cv (node s' j) < mz_wait_cv_count" for j
    using sync wait node cv by (cases "j = i") (simp_all add: sync_inv_def)
  have inflight: "finite (busy s')" "pl_inflight (ps_pool s') = card (busy s')"
    using sync busy fin s'(1) p(2) by (simp_all add: sync_inv_def)
  have "wq_abs (pl_waitq (ps_pool s')) (xs @ [i])" using wq_enqueue_abs [OF abs i] s'(1) p(1) by simp
  then show "sync_inv s' (xs @ [i])"
    unfolding sync_inv_def using mem asleep shard inflight s'(1) p(3,4) by simp
  have "owns s' j b = owns s j b" for j b
    using node wait s'(2) out by (cases "j = i") (simp_all add: owns_def in_wait_def)
  then show "owns s' = owns s" by blast
qed

lemma pool_ok_park: "pool_ok p \<Longrightarrow> pool_ok (p\<lparr>pl_waitq := q, pl_cv_next := n, pl_inflight := k\<rparr>)"
  by (simp add: pool_ok_def news_ok_def budget_exact_def split: option.splits)

lemma ps_inv_wait:
  assumes "ps_inv s" and out: "ps_thr s i = T_out"
  shows "ps_inv (ps_wait i s)"
proof -
  from assms obtain xs where xs: "sync_inv s xs" and own: "own_inv s" by (auto simp: ps_inv_def)
  have ok: "pool_ok (ps_pool s)" using own by (simp add: own_inv_def)
  obtain x p where acq: "acquire_no_lock (ps_pool s) = (x, p)" by fastforce
  note fr = acquire_no_lock_frame [OF acq]
  consider (got) b where "x = Some b" | (refused) "x = None" "pl_stopping p" | (parked) "x = None" "\<not> pl_stopping p"
    by blast
  then show ?thesis
  proof cases
    case (got b)
    then have "ps_wait i s = ps_try s" using acq by (simp add: ps_wait_def ps_try_def acquire_wait_enter_def)
    then show ?thesis using ps_inv_try assms(1) by simp
  next
    case refused
    then have "ps_wait i s = ps_try s" using acq by (simp add: ps_wait_def ps_try_def acquire_wait_enter_def)
    then show ?thesis using ps_inv_try assms(1) by simp
  next
    case parked
    note none = acquire_no_lock_None [OF ok acq [unfolded parked(1)]]
    have "unat (pl_cv_next p) mod mz_wait_cv_count < mz_wait_cv_count" by (simp add: mz_wait_cv_count_def)
    note park = sync_inv_park [OF xs out fr(1) fr(5) none(3) parked(2) this, of "ps_wait i s" "pl_cv_next p + 1"]
    have s': "ps_pool (ps_wait i s) = p\<lparr>pl_waitq := wq_enqueue i (unat (pl_cv_next p) mod mz_wait_cv_count) (pl_waitq p),
        pl_cv_next := pl_cv_next p + 1, pl_inflight := Suc (pl_inflight p)\<rparr>"
      "ps_thr (ps_wait i s) = (ps_thr s)(i := T_asleep)" "ps_held (ps_wait i s) = ps_held s"
      using acq parked by (simp_all add: ps_wait_def acquire_wait_enter_def)
    have "own_inv (ps_wait i s)"
      by (rule own_inv_noacquire [OF own acq [unfolded parked(1)] park(2)])
        (use s' none pool_ok_park in simp_all)
    with park(1) s' show ?thesis by (intro ps_invI) auto
  qed
qed

subsection \<open>Recycling\<close>

lemma wake_Nil [simp]: "wake [] p thr = thr"
  by (simp add: wake_def)

lemma wake_classes [simp]:
  "wake cvs p thr i = T_out \<longleftrightarrow> thr i = T_out"
  "wake cvs p thr i = T_left r \<longleftrightarrow> thr i = T_left r"
  "(wake cvs p thr i = T_asleep \<or> wake cvs p thr i = T_ready) \<longleftrightarrow> (thr i = T_asleep \<or> thr i = T_ready)"
  by (auto simp: wake_def)

lemma recycle_shards:
  assumes "recycle ip p = (p', cvs)"
  shows "wt_cv (wq_nodes (pl_waitq p') i) = wt_cv (wq_nodes (pl_waitq p) i)"
  using assms by (auto simp: recycle_def wq_handoff_def Let_def split: option.splits if_splits prod.splits)

lemma recycle_batch_shards:
  "recycle_batch ips p = (p', cvs) \<Longrightarrow> wt_cv (wq_nodes (pl_waitq p') i) = wt_cv (wq_nodes (pl_waitq p) i)"
proof (induction ips arbitrary: p p' cvs)
  case (Cons ip ips)
  obtain p1 cs where 1: "recycle ip p = (p1, cs)" by fastforce
  obtain p2 ds where 2: "recycle_batch ips p1 = (p2, ds)" by fastforce
  from Cons 1 2 recycle_shards [OF 1, of i] show ?case by auto
qed simp

text \<open>A batch is the same as its elements one after another.\<close>

lemma ps_recycle_batch_Cons: "ps_recycle_batch (ip # ips) s = ps_recycle_batch ips (ps_recycle ip s)"
proof -
  obtain p1 cs where 1: "recycle ip (ps_pool s) = (p1, cs)" by fastforce
  obtain p2 ds where 2: "recycle_batch ips p1 = (p2, ds)" by fastforce
  have "wake (cs @ ds) p2 (ps_thr s) = wake ds p2 (wake cs p1 (ps_thr s))"
    using recycle_batch_shards [OF 2] by (auto simp: wake_def fun_eq_iff)
  moreover have "ps_held s - set (List.map_filter id (ip # ips)) =
      ps_held s - set_option ip - set (List.map_filter id ips)"
    by (cases ip) (auto simp: List.map_filter_simps)
  ultimately show ?thesis using 1 2 by (simp add: ps_recycle_batch_def ps_recycle_def)
qed

lemma ps_recycle_batch_Nil: "ps_recycle_batch [] s = s"
  by (simp add: ps_recycle_batch_def List.map_filter_simps)

lemma pool_ok_waitq: "pool_ok p \<Longrightarrow> pool_ok (p\<lparr>pl_waitq := q\<rparr>)"
  by (simp add: pool_ok_def news_ok_def budget_exact_def split: option.splits)

lemma pool_ok_push_free: "pool_ok p \<Longrightarrow> b \<in> set (pl_all p) \<Longrightarrow> b \<notin> set (pl_free p) \<Longrightarrow> pool_ok (p\<lparr>pl_free := pl_free p @ [b]\<rparr>)"
  by (simp add: pool_ok_def news_ok_def budget_exact_def split: option.splits)

lemma ps_inv_recycle_served:
  assumes sync: "sync_inv s (x # xs)" and own: "own_inv s" and b: "b \<in> ps_held s"
  shows "sync_inv (ps_recycle (Some b) s) xs" and "own_inv (ps_recycle (Some b) s)"
proof -
  let ?s = "ps_recycle (Some b) s" and ?nd = "wq_nodes (pl_waitq (ps_pool s))"
  have abs: "wq_abs (pl_waitq (ps_pool s)) (x # xs)" using sync by (simp add: sync_inv_def)
  have x: "in_wait s x" "\<not> wt_done (node s x)" "x \<notin> set xs"
    using sync abs by (auto simp: sync_inv_def wq_abs_def)
  obtain q where q: "recycle (Some b) (ps_pool s) = ((ps_pool s)\<lparr>pl_waitq := q\<rparr>, [wt_cv (?nd x)])" "wq_abs q xs"
    "wq_nodes q = ?nd(x := (?nd x)\<lparr>wt_buf := Some b, wt_done := True\<rparr>)"
    by (rule recycle_parked [OF abs])
  have s': "ps_pool ?s = (ps_pool s)\<lparr>pl_waitq := q\<rparr>" "ps_held ?s = ps_held s - {b}"
    "ps_thr ?s = wake [wt_cv (?nd x)] (ps_pool ?s) (ps_thr s)"
    using q(1) by (simp_all add: ps_recycle_def)
  have wait: "in_wait ?s i \<longleftrightarrow> in_wait s i" for i by (simp add: in_wait_def s'(3))
  have busy: "busy ?s = busy s" by (simp add: busy_def s'(3))
  have woken: "ps_thr ?s x \<noteq> T_asleep" using q(3) s'(1) by (simp add: s'(3) wake_def)
  have asleep: "ps_thr ?s i = T_asleep \<Longrightarrow> ps_thr s i = T_asleep" for i
    by (auto simp: s'(3) wake_def split: if_splits)
  have fin: "wt_done (node ?s i) \<longleftrightarrow> i = x \<or> wt_done (node s i)" for i using q(3) s'(1) by simp
  have cv: "wt_cv (node ?s i) = wt_cv (node s i)" for i using q(3) s'(1) by simp
  show "sync_inv ?s xs"
    using sync q(2) s'(1) x wait busy woken asleep fin cv unfolding sync_inv_def by auto
  have left: "ps_thr s x \<noteq> T_left r" for r using x(1) by (auto simp: in_wait_def)
  have ow: "owns ?s i c \<longleftrightarrow> owns s i c \<or> i = x \<and> c = b" for i c
    using q(3) s'(1) wait x left by (auto simp: owns_def s'(3))
  have nox: "\<not> owns s x c" for c using x left by (simp add: owns_def)
  have pool: "pool_ok (ps_pool ?s)" "pl_all (ps_pool ?s) = pl_all (ps_pool s)" "pl_free (ps_pool ?s) = pl_free (ps_pool s)"
    using own s'(1) by (simp_all add: own_inv_def pool_ok_waitq)
  show "own_inv ?s"
    using own b nox unfolding own_inv_def ow pool s'(2) using pool(1) by auto
qed

lemma ps_inv_recycle_free:
  assumes sync: "sync_inv s []" and own: "own_inv s" and b: "b \<in> ps_held s"
  shows "sync_inv (ps_recycle (Some b) s) []" and "own_inv (ps_recycle (Some b) s)"
proof -
  let ?s = "ps_recycle (Some b) s"
  have abs: "wq_abs (pl_waitq (ps_pool s)) []" using sync by (simp add: sync_inv_def)
  have s': "ps_pool ?s = (ps_pool s)\<lparr>pl_free := pl_free (ps_pool s) @ [b]\<rparr>" "ps_held ?s = ps_held s - {b}"
    "ps_thr ?s = ps_thr s"
    using recycle_idle [OF abs, of b] by (simp_all add: ps_recycle_def)
  show "sync_inv ?s []" using sync s' by (auto simp: sync_inv_def in_wait_def busy_def)
  have ow: "owns ?s = owns s" by (rule owns_frame) (simp_all add: s')
  have "b \<in> set (pl_all (ps_pool s))" "b \<notin> set (pl_free (ps_pool s))"
    using own b by (auto simp: own_inv_def)
  then have "pool_ok (ps_pool ?s)" using own s'(1) pool_ok_push_free by (simp add: own_inv_def)
  then show "own_inv ?s" using own b s'(1,2) unfolding own_inv_def ow by auto
qed

lemma ps_inv_recycle:
  assumes "ps_inv s" and "set_option ip \<subseteq> ps_held s"
  shows "ps_inv (ps_recycle ip s)"
proof (cases ip)
  case None
  then show ?thesis using assms by (simp add: ps_recycle_def recycle_Nothing)
next
  case (Some b)
  obtain xs where xs: "sync_inv s xs" "own_inv s" using assms(1) by (auto simp: ps_inv_def)
  moreover have "b \<in> ps_held s" using assms(2) Some by simp
  ultimately have "\<exists>ys. sync_inv (ps_recycle ip s) ys \<and> own_inv (ps_recycle ip s)"
    unfolding Some by (cases xs) (blast intro: ps_inv_recycle_served ps_inv_recycle_free)+
  then show ?thesis by (auto simp: ps_inv_def)
qed

lemma ps_recycle_held: "ps_held (ps_recycle ip s) = ps_held s - set_option ip"
  by (simp add: ps_recycle_def split: prod.splits)

lemma ps_inv_recycle_batch:
  "ps_inv s \<Longrightarrow> distinct (List.map_filter id ips) \<Longrightarrow> set (List.map_filter id ips) \<subseteq> ps_held s \<Longrightarrow>
   ps_inv (ps_recycle_batch ips s)"
proof (induction ips arbitrary: s)
  case Nil
  then show ?case by (simp add: ps_recycle_batch_Nil)
next
  case (Cons ip ips)
  have "set_option ip \<subseteq> ps_held s \<and> set (List.map_filter id ips) \<subseteq> ps_held s - set_option ip \<and>
    distinct (List.map_filter id ips)"
  proof (cases ip)
    case None
    with Cons.prems(2,3) show ?thesis by (simp add: List.map_filter_simps id_def)
  next
    case (Some b)
    with Cons.prems(2,3) show ?thesis by (simp add: List.map_filter_simps subset_Diff_insert id_def)
  qed
  with Cons.prems(1) show ?case
    using Cons.IH [of "ps_recycle ip s"] by (simp add: ps_recycle_batch_Cons ps_inv_recycle ps_recycle_held id_def)
qed

subsection \<open>Waking, returning, stopping\<close>

lemma own_inv_frame:
  assumes "own_inv s" "owns s' = owns s" "ps_pool s' = ps_pool s" "ps_held s' = ps_held s"
  shows "own_inv s'"
  using assms by (simp add: own_inv_def)

lemma sync_inv_wait_states:
  assumes "sync_inv s xs" "ps_pool s' = ps_pool s" "\<And>i. in_wait s' i \<longleftrightarrow> in_wait s i" "busy s' = busy s"
    "\<And>i. ps_thr s' i = T_asleep \<Longrightarrow> \<not> wt_done (node s i)"
  shows "sync_inv s' xs"
  using assms unfolding sync_inv_def by simp

lemma ps_inv_spurious:
  assumes "ps_inv s" "ps_thr s i = T_asleep"
  shows "ps_inv (s\<lparr>ps_thr := (ps_thr s)(i := T_ready)\<rparr>)"
proof -
  let ?s = "s\<lparr>ps_thr := (ps_thr s)(i := T_ready)\<rparr>"
  obtain xs where xs: "sync_inv s xs" "own_inv s" using assms(1) by (auto simp: ps_inv_def)
  have wait: "in_wait ?s j \<longleftrightarrow> in_wait s j" for j using assms(2) by (auto simp: in_wait_def)
  have busy: "busy ?s = busy s" using assms(2) by (auto simp: busy_def)
  have "sync_inv ?s xs"
    by (rule sync_inv_wait_states [OF xs(1) _ wait busy]) (use xs(1) in \<open>auto simp: sync_inv_def split: if_splits\<close>)
  moreover have "owns ?s = owns s" using wait assms(2) by (auto simp: owns_def fun_eq_iff)
  then have "own_inv ?s" by (rule own_inv_frame [OF xs(2)]) simp_all
  ultimately show ?thesis by (rule ps_invI)
qed

lemma ps_inv_resume:
  assumes "ps_inv s" and ready: "ps_thr s i = T_ready"
  shows "ps_inv (ps_resume i s)"
proof -
  obtain xs where xs: "sync_inv s xs" "own_inv s" using assms(1) by (auto simp: ps_inv_def)
  have busy: "busy (ps_resume i s) = busy s" using ready by (auto simp: busy_def ps_resume_def)
  have wait_i: "in_wait s i" using ready by (simp add: in_wait_def)
  show ?thesis
  proof (cases "wait_pred i (ps_pool s)")
    case False
    then have s': "ps_resume i s = s\<lparr>ps_thr := (ps_thr s)(i := T_asleep)\<rparr>" by (simp add: ps_resume_def)
    have wait: "in_wait (ps_resume i s) j \<longleftrightarrow> in_wait s j" for j using ready by (auto simp: in_wait_def s')
    have "sync_inv (ps_resume i s) xs"
      by (rule sync_inv_wait_states [OF xs(1) _ wait busy])
        (use xs(1) False in \<open>auto simp: sync_inv_def s' wait_pred_def split: if_splits\<close>)
    moreover have "owns (ps_resume i s) j b = owns s j b" for j b
      unfolding owns_def wait using ready by (simp add: s')
    then have "owns (ps_resume i s) = owns s" by blast
    then have "own_inv (ps_resume i s)" by (rule own_inv_frame [OF xs(2)]) (simp_all add: s')
    ultimately show ?thesis by (rule ps_invI)
  next
    case True
    then have s': "ps_resume i s = s\<lparr>ps_thr := (ps_thr s)(i := T_left (wt_buf (node s i)))\<rparr>" and served: "wt_done (node s i)"
      by (simp_all add: ps_resume_def wait_pred_def wait_result_def)
    have wait: "in_wait (ps_resume i s) j \<longleftrightarrow> in_wait s j \<and> j \<noteq> i" for j by (auto simp: in_wait_def s')
    have asleep: "ps_thr (ps_resume i s) j = T_asleep \<Longrightarrow> ps_thr s j = T_asleep" for j
      by (auto simp: s' split: if_splits)
    have pool: "ps_pool (ps_resume i s) = ps_pool s" by (simp add: s')
    have "sync_inv (ps_resume i s) xs"
      using xs(1) wait busy asleep served unfolding sync_inv_def pool by auto
    moreover have "owns (ps_resume i s) j b = owns s j b" for j b
      unfolding owns_def wait using ready served wait_i by (cases "j = i") (auto simp: s')
    then have "owns (ps_resume i s) = owns s" by blast
    then have "own_inv (ps_resume i s)" by (rule own_inv_frame [OF xs(2)]) (simp_all add: s')
    ultimately show ?thesis by (rule ps_invI)
  qed
qed

lemma pool_ok_inflight: "pool_ok p \<Longrightarrow> pool_ok (p\<lparr>pl_inflight := k\<rparr>)"
  by (simp add: pool_ok_def news_ok_def budget_exact_def split: option.splits)

lemma ps_inv_leave:
  assumes "ps_inv s" and left: "ps_thr s i = T_left r"
  shows "ps_inv (ps_leave i r s)"
proof -
  let ?s = "ps_leave i r s"
  obtain xs where xs: "sync_inv s xs" and own: "own_inv s" using assms(1) by (auto simp: ps_inv_def)
  have s': "ps_pool ?s = (ps_pool s)\<lparr>pl_inflight := pl_inflight (ps_pool s) - 1\<rparr>"
    "ps_thr ?s = (ps_thr s)(i := T_out)" "ps_held ?s = ps_held s \<union> set_option r"
    by (simp_all add: ps_leave_def wait_leave_def)
  have wait: "in_wait ?s j \<longleftrightarrow> in_wait s j" for j using left by (auto simp: in_wait_def s'(2))
  have busy: "busy ?s = busy s - {i}" "i \<in> busy s" using left by (auto simp: busy_def s'(2))
  have asleep: "ps_thr ?s j = T_asleep \<Longrightarrow> ps_thr s j = T_asleep" for j by (auto simp: s'(2) split: if_splits)
  have "sync_inv ?s xs"
    using xs wait busy asleep unfolding sync_inv_def by (auto simp: s'(1))
  moreover have ow: "owns ?s j b \<longleftrightarrow> owns s j b \<and> j \<noteq> i" for j b
    using wait left by (auto simp: owns_def s'(1,2) in_wait_def)
  have mine: "owns s i b \<longleftrightarrow> r = Some b" for b using left by (auto simp: owns_def in_wait_def)
  have "pool_ok (ps_pool ?s)" using own s'(1) pool_ok_inflight by (simp add: own_inv_def)
  moreover have "pl_all (ps_pool ?s) = pl_all (ps_pool s)" "pl_free (ps_pool ?s) = pl_free (ps_pool s)"
    by (simp_all add: s'(1))
  moreover have "(\<exists>j. owns s j b) \<longleftrightarrow> b \<in> set_option r \<or> (\<exists>j. owns s j b \<and> j \<noteq> i)" for b
    using mine [of b] by (cases r) auto
  then have "{b. \<exists>j. owns s j b} = set_option r \<union> {b. \<exists>j. owns s j b \<and> j \<noteq> i}" by blast
  moreover have "b \<in> set_option r \<Longrightarrow> owns s i b" for b using mine by simp
  then have "b \<in> set_option r \<Longrightarrow> b \<notin> set (pl_free (ps_pool s)) \<and> (\<forall>j. owns s j b \<longrightarrow> j = i)" for b
    using own unfolding own_inv_def by blast
  ultimately have "own_inv ?s"
    using own unfolding own_inv_def ow s'(3) by (auto simp: Un_ac)
  with \<open>sync_inv ?s xs\<close> show ?thesis by (rule ps_invI)
qed

lemma pool_ok_stopping: "pool_ok p \<Longrightarrow> pool_ok (p\<lparr>pl_stopping := st, pl_waitq := q\<rparr>)"
  by (simp add: pool_ok_def news_ok_def budget_exact_def split: option.splits)

text \<open>\<open>stop_waiters\<close> returns, and every thread that was parked is served with the null sentinel.\<close>

lemma ps_stop_returns:
  assumes "sync_inv s xs"
  obtains q where "stop_waiters (ps_pool s) =
      Some ((ps_pool s)\<lparr>pl_stopping := True, pl_waitq := q\<rparr>, if xs = [] then [] else [0..<mz_wait_cv_count])"
    "wq_abs q []"
    "\<forall>j. wq_nodes q j = (if j \<in> set xs then (node s j)\<lparr>wt_buf := None, wt_done := True\<rparr> else node s j)"
proof -
  have abs: "wq_abs (pl_waitq (ps_pool s)) xs" using assms by (simp add: sync_inv_def)
  then have "wq_head (pl_waitq (ps_pool s)) = None \<longleftrightarrow> xs = []" by (cases xs) (auto simp: wq_abs_def)
  note head = this
  show thesis
  proof (rule wq_drain_abs [OF abs])
    fix q
    assume "wq_drain (pl_waitq (ps_pool s)) = Some q"
    then have "stop_waiters (ps_pool s) =
        Some ((ps_pool s)\<lparr>pl_stopping := True, pl_waitq := q\<rparr>, if xs = [] then [] else [0..<mz_wait_cv_count])"
      using head by (simp add: stop_waiters_def Let_def)
    moreover assume "wq_abs q []"
      "\<And>j. wq_nodes q j = (if j \<in> set xs then (node s j)\<lparr>wt_buf := None, wt_done := True\<rparr> else node s j)"
    ultimately show thesis by (intro that) auto
  qed
qed

lemma ps_inv_stop:
  assumes "ps_inv s"
  obtains s' where "ps_stop s = Some s'" "ps_inv s'"
proof -
  obtain xs where xs: "sync_inv s xs" and own: "own_inv s" using assms(1) by (auto simp: ps_inv_def)
  obtain q where q: "stop_waiters (ps_pool s) =
      Some ((ps_pool s)\<lparr>pl_stopping := True, pl_waitq := q\<rparr>, if xs = [] then [] else [0..<mz_wait_cv_count])"
    "wq_abs q []"
    "\<forall>j. wq_nodes q j = (if j \<in> set xs then (node s j)\<lparr>wt_buf := None, wt_done := True\<rparr> else node s j)"
    by (rule ps_stop_returns [OF xs])
  define p where "p = (ps_pool s)\<lparr>pl_stopping := True, pl_waitq := q\<rparr>"
  define s' where "s' = s\<lparr>ps_pool := p, ps_thr := wake (if xs = [] then [] else [0..<mz_wait_cv_count]) p (ps_thr s)\<rparr>"
  have wait: "in_wait s' j \<longleftrightarrow> in_wait s j" for j by (simp add: in_wait_def s'_def)
  have busy: "busy s' = busy s" by (simp add: busy_def s'_def)
  have node: "node s' j = (if j \<in> set xs then (node s j)\<lparr>wt_buf := None, wt_done := True\<rparr> else node s j)" for j
    using q(3) by (simp add: s'_def p_def)
  have mem: "j \<in> set xs \<longleftrightarrow> in_wait s j \<and> \<not> wt_done (node s j)" for j using xs by (simp add: sync_inv_def)
  have cv: "in_wait s j \<Longrightarrow> wt_cv (node s j) < mz_wait_cv_count" for j using xs by (simp add: sync_inv_def)
  have awake: "ps_thr s' j \<noteq> T_asleep" for j
  proof
    assume *: "ps_thr s' j = T_asleep"
    then have "ps_thr s j = T_asleep" by (auto simp: s'_def wake_def split: if_splits)
    then have "in_wait s j" "j \<in> set xs" using mem xs by (auto simp: in_wait_def sync_inv_def)
    with * cv [of j] node [of j] show False by (auto simp: s'_def p_def wake_def split: if_splits)
  qed
  have all_done: "in_wait s j \<Longrightarrow> wt_done (node s' j)" for j using mem [of j] by (simp add: node)
  have same_cv: "wt_cv (node s' j) = wt_cv (node s j)" for j by (simp add: node)
  have pool: "pl_inflight (ps_pool s') = pl_inflight (ps_pool s)" "wq_abs (pl_waitq (ps_pool s')) []"
    using q(2) by (simp_all add: s'_def p_def)
  have "sync_inv s' []"
    using xs wait busy awake all_done same_cv pool unfolding sync_inv_def by simp
  moreover have "owns s' j b = owns s j b" for j b
  proof (cases "j \<in> set xs")
    case True
    then have "in_wait s j" "\<not> wt_done (node s j)" using mem by auto
    then have "ps_thr s' j \<noteq> T_left r" "ps_thr s j \<noteq> T_left r" for r
      using wait [of j] by (auto simp: in_wait_def)
    then show ?thesis using True \<open>\<not> wt_done (node s j)\<close> node [of j] by (simp add: owns_def)
  next
    case False
    then show ?thesis unfolding owns_def wait node by (simp add: s'_def)
  qed
  then have "owns s' = owns s" by blast
  moreover have "pool_ok p" using own by (simp add: p_def own_inv_def pool_ok_stopping)
  ultimately have "ps_inv s'" using own by (intro ps_invI) (auto simp: own_inv_def s'_def p_def)
  moreover have "ps_stop s = Some s'" using q(1) by (simp add: ps_stop_def s'_def p_def)
  ultimately show thesis using that by blast
qed

lemma ps_inv_exec: "ps_inv s \<Longrightarrow> ps_exec e s = Some s' \<Longrightarrow> ps_inv s'"
  by (cases e) (auto split: if_splits tpc.splits elim: ps_inv_stop
      intro: ps_inv_try ps_inv_wait ps_inv_recycle ps_inv_recycle_batch ps_inv_spurious ps_inv_resume ps_inv_leave)

lemma ps_reach_inv: "ps_reach s \<Longrightarrow> ps_inv s"
  by (induction rule: ps_reach.induct) (auto intro: ps_inv_start ps_inv_exec)

section \<open>What the pool guarantees\<close>

text \<open>
  C1: Under every interleaving of acquisitions, blocking waits, returns, wake-ups and shutdown,
  each buffer the pool has allocated is in exactly one place (with a client, on the free list,
  or handed to one waiter that has not returned yet), and the budget is charged for exactly
  the buffers that exist and never above its maximum.
\<close>

theorem pool_conserves_buffers:
  assumes "ps_reach s"
  shows "distinct (pl_all (ps_pool s)) \<and> distinct (pl_free (ps_pool s)) \<and>
    set (pl_all (ps_pool s)) = ps_held s \<union> set (pl_free (ps_pool s)) \<union> {b. \<exists>i. owns s i b} \<and>
    ps_held s \<inter> set (pl_free (ps_pool s)) = {} \<and>
    {b. \<exists>i. owns s i b} \<inter> (ps_held s \<union> set (pl_free (ps_pool s))) = {} \<and>
    (\<forall>i j b. owns s i b \<longrightarrow> owns s j b \<longrightarrow> i = j) \<and>
    (case pl_budget (ps_pool s) of None \<Rightarrow> True
     | Some b \<Rightarrow> unat (bd_used b) = length (pl_all (ps_pool s)) * pl_bufsz (ps_pool s) \<and> bd_used b \<le> bd_max b)"
  using ps_reach_inv [OF assms]
  by (auto simp: ps_inv_def own_inv_def pool_ok_def budget_exact_def budget_ok_def word_le_nat_alt split: option.splits)

primrec ps_run :: "pevent list \<Rightarrow> psys \<Rightarrow> psys option" where
  "ps_run [] s = Some s"
| "ps_run (e # es) s = (case ps_exec e s of None \<Rightarrow> None | Some s' \<Rightarrow> ps_run es s')"

lemma ps_run_reach: "ps_reach s \<Longrightarrow> ps_run es s = Some s' \<Longrightarrow> ps_reach s'"
  by (induction es arbitrary: s) (auto split: option.splits intro: ps_reach.step)

lemma ps_run_append: "ps_run (es @ fs) s = (case ps_run es s of None \<Rightarrow> None | Some s' \<Rightarrow> ps_run fs s')"
  by (induction es arbitrary: s) (auto split: option.splits)

text \<open>One buffer, two threads that block for it, and a return that serves the first of them.\<close>

definition demo_events :: "pevent list" where
  "demo_events = [E_try, E_wait 3, E_wait 5, E_spurious 5, E_recycle (Some 1), E_resume 3]"

definition demo_start :: psys where
  "demo_start = ps_start 64 (Some (new_budget 100)) [Some 1, Some 2] 4"

definition demo :: psys where
  "demo = the (ps_run demo_events demo_start)"

lemma start_ok_demo: "start_ok 64 (Some (new_budget 100)) [Some 1, Some 2]"
  by (simp add: start_ok_def new_budget_def List.map_filter_simps)

lemma demo_run: "ps_run demo_events demo_start = Some demo"
proof -
  have "ps_run demo_events demo_start \<noteq> None" by code_simp
  then show ?thesis by (auto simp: demo_def)
qed

lemma demo_reach: "ps_reach demo"
  using ps_run_reach [OF ps_reach.start [OF start_ok_demo, of 4] demo_run [unfolded demo_start_def]] .

lemma demo_facts:
  "pl_all (ps_pool demo) = [1]" "pl_free (ps_pool demo) = []" "ps_thr demo 3 = T_left (Some 1)"
  "ps_thr demo 5 = T_ready" "wait_pred 5 (ps_pool demo) = False" "pl_stopping (ps_pool demo) = False"
  by code_simp+

lemma pool_conserves_buffers_witness: "(\<exists>i. owns demo i 1) \<and> 1 \<notin> ps_held demo"
proof -
  have "owns demo 3 1" by (simp add: owns_def demo_facts)
  with pool_conserves_buffers [OF demo_reach] show ?thesis by blast
qed

text \<open>
  C3: No wake-up is lost and no waiter is bypassed: the queue holds exactly the threads that are
  blocked and not served yet, every thread still parked on a condition variable is in it
  (so nobody sleeps on an answered request), a thread is parked only while the free list is
  empty, and the number of threads inside \<^verbatim>\<open>acquire_wait\<close> is what \<^verbatim>\<open>mu_inflight\<close> says.
\<close>

theorem no_lost_wakeup:
  assumes "ps_reach s"
  shows "\<exists>xs. wq_abs (pl_waitq (ps_pool s)) xs \<and> set xs = {i. in_wait s i \<and> \<not> wait_pred i (ps_pool s)} \<and>
    (\<forall>i. ps_thr s i = T_asleep \<longrightarrow> i \<in> set xs) \<and> (xs \<noteq> [] \<longrightarrow> pl_free (ps_pool s) = []) \<and>
    finite (busy s) \<and> pl_inflight (ps_pool s) = card (busy s)"
proof -
  obtain xs where xs: "sync_inv s xs" using ps_reach_inv [OF assms] by (auto simp: ps_inv_def)
  then have "set xs = {i. in_wait s i \<and> \<not> wait_pred i (ps_pool s)}"
    by (auto simp: sync_inv_def wait_pred_def)
  moreover from xs this have "ps_thr s i = T_asleep \<Longrightarrow> i \<in> set xs" for i
    by (auto simp: sync_inv_def in_wait_def)
  ultimately show ?thesis using xs unfolding sync_inv_def by blast
qed

lemma no_lost_wakeup_witness: "\<exists>xs. wq_abs (pl_waitq (ps_pool demo)) xs \<and> 5 \<in> set xs \<and> pl_free (ps_pool demo) = []"
proof -
  have "in_wait demo 5" by (simp add: in_wait_def demo_facts)
  with no_lost_wakeup [OF demo_reach] demo_facts(5) show ?thesis by auto
qed

section \<open>Shutdown\<close>

text \<open>\<^verbatim>\<open>mb_stopping\<close> is never reset, and while it is set nobody is parked.\<close>

lemma recycle_stopping: "recycle ip p = (p', cvs) \<Longrightarrow> pl_stopping p' = pl_stopping p"
  by (auto simp: recycle_def split: option.splits prod.splits)

lemma recycle_batch_stopping: "recycle_batch ips p = (p', cvs) \<Longrightarrow> pl_stopping p' = pl_stopping p"
  by (induction ips arbitrary: p p' cvs) (auto split: prod.splits dest: recycle_stopping)

lemma stopping_exec:
  assumes "ps_exec e s = Some s'" "pl_stopping (ps_pool s)"
  shows "pl_stopping (ps_pool s')"
  using assms acquire_no_lock_frame(2) [of "ps_pool s"]
  by (cases e) (auto simp: ps_try_def ps_wait_def acquire_wait_enter_def ps_recycle_def ps_recycle_batch_def
      ps_resume_def ps_leave_def ps_stop_def stop_waiters_def wait_leave_def Let_def
      split: option.splits if_splits prod.splits tpc.splits dest: recycle_stopping recycle_batch_stopping)

lemma stopping_run:
  assumes "ps_run es s = Some s'" "pl_stopping (ps_pool s)"
  shows "pl_stopping (ps_pool s')"
  using assms by (induction es arbitrary: s) (auto split: option.splits dest: stopping_exec)

lemma stopping_awake:
  assumes "ps_reach s" "pl_stopping (ps_pool s)"
  shows "ps_thr s i \<noteq> T_asleep"
  using ps_reach_inv [OF assms(1)] assms(2) by (fastforce simp: ps_inv_def sync_inv_def in_wait_def)

text \<open>
  C17: Shutting down cannot hang on the queue: \<^verbatim>\<open>stop_waiters\<close> returns, afterwards nobody is parked,
  each thread that was still waiting will read the null sentinel, a thread already served keeps
  its buffer, and whatever happens from then on, calls of \<^verbatim>\<open>acquire_wait\<close> included, the pool stays in the
  stopping state and nobody is ever parked again.
\<close>

theorem stop_releases_all:
  assumes "ps_reach s"
  shows "\<exists>s'. ps_exec E_stop s = Some s' \<and> pl_stopping (ps_pool s') \<and>
    (\<forall>i. ps_thr s' i \<noteq> T_asleep) \<and> (\<forall>i. in_wait s' i \<longleftrightarrow> in_wait s i) \<and>
    (\<forall>i. in_wait s' i \<longrightarrow> wait_pred i (ps_pool s') \<and>
       wait_result i (ps_pool s') = (if wait_pred i (ps_pool s) then wait_result i (ps_pool s) else None)) \<and>
    (\<forall>es s''. ps_run es s' = Some s'' \<longrightarrow> pl_stopping (ps_pool s'') \<and> (\<forall>i. ps_thr s'' i \<noteq> T_asleep))"
proof -
  obtain xs where xs: "sync_inv s xs" using ps_reach_inv [OF assms] by (auto simp: ps_inv_def)
  obtain q where q: "stop_waiters (ps_pool s) =
      Some ((ps_pool s)\<lparr>pl_stopping := True, pl_waitq := q\<rparr>, if xs = [] then [] else [0..<mz_wait_cv_count])"
    "\<forall>j. wq_nodes q j = (if j \<in> set xs then (node s j)\<lparr>wt_buf := None, wt_done := True\<rparr> else node s j)"
    by (rule ps_stop_returns [OF xs])
  then obtain s' where s': "ps_stop s = Some s'" "ps_pool s' = (ps_pool s)\<lparr>pl_stopping := True, pl_waitq := q\<rparr>"
    "\<And>i. in_wait s' i \<longleftrightarrow> in_wait s i"
    by (simp add: ps_stop_def in_wait_def)
  obtain s1 where "ps_stop s = Some s1" "ps_inv s1"
    using ps_reach_inv [OF assms] by (rule ps_inv_stop)
  with s'(1) obtain ys where ys: "sync_inv s' ys" by (auto simp: ps_inv_def)
  then have "ys = []" using s'(2) by (simp add: sync_inv_def)
  with ys have pred: "in_wait s' i \<Longrightarrow> wait_pred i (ps_pool s')" for i
    by (simp add: sync_inv_def wait_pred_def)
  then have awake: "ps_thr s' i \<noteq> T_asleep" for i
    using ys by (auto simp: sync_inv_def in_wait_def wait_pred_def)
  have mem: "i \<in> set xs \<longleftrightarrow> in_wait s i \<and> \<not> wait_pred i (ps_pool s)" for i
    using xs by (simp add: sync_inv_def wait_pred_def)
  have result: "in_wait s' i \<Longrightarrow>
      wait_result i (ps_pool s') = (if wait_pred i (ps_pool s) then wait_result i (ps_pool s) else None)" for i
    using mem [of i] q(2) s'(2,3) by (auto simp: wait_result_def)
  have "ps_reach s'" using ps_reach.step [OF assms, of E_stop s'] s'(1) by simp
  then have "pl_stopping (ps_pool s'') \<and> ps_thr s'' i \<noteq> T_asleep" if "ps_run es s' = Some s''" for es s'' i
    using stopping_run [OF that] stopping_awake [OF ps_run_reach [OF _ that]] s'(2) by simp
  then show ?thesis using s' pred awake result by (intro exI [of _ s']) simp
qed

lemma stop_releases_all_witness:
  "\<exists>s'. ps_exec E_stop demo = Some s' \<and> wait_pred 5 (ps_pool s') \<and> wait_result 5 (ps_pool s') = None \<and>
     (\<forall>s''. ps_run [E_resume 5, E_leave 5, E_wait 8] s' = Some s'' \<longrightarrow> ps_thr s'' 8 \<noteq> T_asleep)"
proof -
  have "in_wait demo 5" by (simp add: in_wait_def demo_facts)
  moreover obtain s' where s': "ps_exec E_stop demo = Some s'" "\<And>i. in_wait s' i = in_wait demo i"
    "\<And>i. in_wait s' i \<Longrightarrow> wait_pred i (ps_pool s') \<and>
       wait_result i (ps_pool s') = (if wait_pred i (ps_pool demo) then wait_result i (ps_pool demo) else None)"
    "\<And>es s'' i. ps_run es s' = Some s'' \<Longrightarrow> ps_thr s'' i \<noteq> T_asleep"
    using stop_releases_all [OF demo_reach] by metis
  ultimately show ?thesis using s'(1) s'(3) [of 5] s'(4) demo_facts(5) by (intro exI [of _ s']) (simp del: ps_run.simps ps_exec.simps)
qed

lemma ps_stop_state:
  assumes "ps_inv s"
  obtains s' where "ps_exec E_stop s = Some s'" "pl_stopping (ps_pool s')"
    "\<And>i r. ps_thr s i = T_left r \<Longrightarrow> ps_thr s' i = T_left r"
proof -
  obtain xs where xs: "sync_inv s xs" using assms by (auto simp: ps_inv_def)
  obtain q where "stop_waiters (ps_pool s) =
      Some ((ps_pool s)\<lparr>pl_stopping := True, pl_waitq := q\<rparr>, if xs = [] then [] else [0..<mz_wait_cv_count])"
    by (rule ps_stop_returns [OF xs])
  then obtain s' where "ps_stop s = Some s'" "pl_stopping (ps_pool s')"
    "\<forall>i r. ps_thr s i = T_left r \<longrightarrow> ps_thr s' i = T_left r"
    by (simp add: ps_stop_def)
  then show thesis using that [of s'] by simp
qed

text \<open>The work left for the threads inside \<^verbatim>\<open>acquire_wait\<close>: wake and leave, or leave.\<close>

definition barrier_load :: "psys \<Rightarrow> nat" where
  "barrier_load s = (\<Sum>i\<in>busy s. case ps_thr s i of T_left _ \<Rightarrow> 1 | _ \<Rightarrow> 2)"

lemma barrier_load_le:
  assumes "sync_inv s xs"
  shows "barrier_load s \<le> 2 * pl_inflight (ps_pool s)"
proof -
  have "barrier_load s \<le> card (busy s) * 2"
    unfolding barrier_load_def
    using sum_bounded_above [of "busy s" "\<lambda>i. case ps_thr s i of T_left _ \<Rightarrow> 1 | _ \<Rightarrow> 2" "2::nat"]
    by (auto split: tpc.splits)
  then show ?thesis using assms by (simp add: sync_inv_def)
qed

lemma stopping_step:
  assumes "ps_inv s" "pl_stopping (ps_pool s)" "pl_inflight (ps_pool s) \<noteq> 0"
  obtains i e s' where "e = E_resume i \<or> e = E_leave i" "ps_exec e s = Some s'" "pl_stopping (ps_pool s')"
    "barrier_load s' < barrier_load s"
proof -
  obtain xs where xs: "sync_inv s xs" using assms(1) by (auto simp: ps_inv_def)
  then have "busy s \<noteq> {}" and fin: "finite (busy s)" using assms(3) by (auto simp: sync_inv_def)
  then obtain i where i: "i \<in> busy s" by blast
  have served: "in_wait s j \<Longrightarrow> wait_pred j (ps_pool s) \<and> ps_thr s j \<noteq> T_asleep" for j
    using xs assms(2) by (auto simp: sync_inv_def wait_pred_def)
  let ?w = "\<lambda>s j. case ps_thr s j of T_left _ \<Rightarrow> 1 | _ \<Rightarrow> (2::nat)"
  show thesis
  proof (cases "ps_thr s i")
    case T_out
    with i show thesis by (simp add: busy_def)
  next
    case T_asleep
    with served [of i] show thesis by (simp add: in_wait_def)
  next
    case T_ready
    let ?s = "ps_resume i s"
    have "wait_pred i (ps_pool s)" using served [of i] T_ready by (simp add: in_wait_def)
    then have s': "ps_thr ?s = (ps_thr s)(i := T_left (wait_result i (ps_pool s)))" "ps_pool ?s = ps_pool s"
      by (simp_all add: ps_resume_def)
    have busy: "busy ?s = busy s" using i by (auto simp: busy_def s')
    moreover have "(\<Sum>j\<in>busy s - {i}. ?w ?s j) = (\<Sum>j\<in>busy s - {i}. ?w s j)"
      by (rule sum.cong) (auto simp: s')
    ultimately have "barrier_load ?s < barrier_load s"
      using sum.remove [OF fin i, of "?w s"] sum.remove [OF fin i, of "?w ?s"] T_ready
      by (simp add: barrier_load_def s')
    with T_ready assms(2) s'(2) show thesis by (intro that [of "E_resume i" i ?s]) simp_all
  next
    case (T_left r)
    let ?s = "ps_leave i r s"
    have "busy ?s = busy s - {i}" by (auto simp: busy_def ps_leave_def)
    moreover have "(\<Sum>j\<in>busy s - {i}. ?w ?s j) = (\<Sum>j\<in>busy s - {i}. ?w s j)"
      by (rule sum.cong) (auto simp: ps_leave_def)
    ultimately have "barrier_load s = Suc (barrier_load ?s)"
      using sum.remove [OF fin i, of "?w s"] T_left by (simp add: barrier_load_def)
    with T_left assms(2) show thesis
      by (intro that [of "E_leave i" i ?s]) (simp_all add: ps_leave_def wait_leave_def)
  qed
qed

lemma barrier_drains:
  assumes "ps_inv s" "pl_stopping (ps_pool s)"
  shows "\<exists>es s'. ps_run es s = Some s' \<and> pl_inflight (ps_pool s') = 0 \<and> length es \<le> barrier_load s \<and>
    (\<forall>e\<in>set es. \<exists>i. e = E_resume i \<or> e = E_leave i)"
  using assms
proof (induction "barrier_load s" arbitrary: s rule: less_induct)
  case less
  show ?case
  proof (cases "pl_inflight (ps_pool s) = 0")
    case True
    then show ?thesis by (intro exI [of _ "[]"] exI [of _ s]) simp
  next
    case False
    then obtain i e s1 where e: "e = E_resume i \<or> e = E_leave i" "ps_exec e s = Some s1"
      "pl_stopping (ps_pool s1)" "barrier_load s1 < barrier_load s"
      by (rule stopping_step [OF less.prems])
    then have "ps_inv s1" using ps_inv_exec less.prems(1) by blast
    from less.hyps [OF e(4) this e(3)] obtain es s' where es: "ps_run es s1 = Some s'"
      "pl_inflight (ps_pool s') = 0" "length es \<le> barrier_load s1" "\<forall>e\<in>set es. \<exists>i. e = E_resume i \<or> e = E_leave i"
      by blast
    with e show ?thesis by (intro exI [of _ "e # es"] exI [of _ s']) auto
  qed
qed

text \<open>
  C18: The teardown barrier of the destructor always opens: after \<^verbatim>\<open>stop_waiters\<close>, the threads still
  inside \<^verbatim>\<open>acquire_wait\<close> need no event but their own wake-ups and exits, at most two each, to
  bring \<^verbatim>\<open>mu_inflight\<close> to zero, and then no thread is inside any more.
\<close>

theorem teardown_barrier_opens:
  assumes "ps_reach s" and "pl_stopping (ps_pool s)"
  shows "\<exists>es s'. ps_run es s = Some s' \<and> pl_inflight (ps_pool s') = 0 \<and> (\<forall>i. ps_thr s' i = T_out) \<and>
    length es \<le> 2 * pl_inflight (ps_pool s) \<and> (\<forall>e\<in>set es. \<exists>i. e = E_resume i \<or> e = E_leave i)"
proof -
  have inv: "ps_inv s" using assms(1) by (rule ps_reach_inv)
  then obtain xs where xs: "sync_inv s xs" by (auto simp: ps_inv_def)
  obtain es s' where es: "ps_run es s = Some s'" "pl_inflight (ps_pool s') = 0" "length es \<le> barrier_load s"
    "\<forall>e\<in>set es. \<exists>i. e = E_resume i \<or> e = E_leave i"
    using barrier_drains [OF inv assms(2)] by blast
  have "ps_inv s'" using ps_reach_inv [OF ps_run_reach [OF assms(1) es(1)]] .
  then have "busy s' = {}" using es(2) by (auto simp: ps_inv_def sync_inv_def)
  then show ?thesis using es barrier_load_le [OF xs] by (fastforce simp: busy_def)
qed

lemma teardown_barrier_opens_witness:
  "\<exists>s es s'. ps_run es s = Some s' \<and> ps_thr s 3 = T_left (Some 1) \<and> ps_thr s' 3 = T_out"
proof -
  obtain s where s: "ps_exec E_stop demo = Some s" "pl_stopping (ps_pool s)" "ps_thr s 3 = T_left (Some 1)"
    using ps_stop_state [OF ps_reach_inv [OF demo_reach]] demo_facts(3) by metis
  with teardown_barrier_opens [OF ps_reach.step [OF demo_reach s(1)] s(2)] show ?thesis by blast
qed

text \<open>
  When the barrier has opened and every client has given its buffers back, destroying the
  pool returns every reserved byte: the budget is exactly as unused as before the pool existed.
\<close>

theorem destroy_returns_budget:
  assumes "ps_reach s" and "pl_budget (ps_pool s) = Some b"
  shows "pl_all (pool_destroy (ps_pool s)) = [] \<and> pl_free (pool_destroy (ps_pool s)) = [] \<and>
    (\<exists>b'. pl_budget (pool_destroy (ps_pool s)) = Some b' \<and> bd_used b' = 0 \<and> bd_max b' = bd_max b)"
proof -
  have "budget_exact (ps_pool s)" using ps_reach_inv [OF assms(1)] by (auto simp: ps_inv_def own_inv_def pool_ok_def)
  then have used: "unat (bd_used b) = length (pl_all (ps_pool s)) * pl_bufsz (ps_pool s)"
    using assms(2) by (simp add: budget_exact_def)
  then have "(of_nat (length (pl_all (ps_pool s)) * pl_bufsz (ps_pool s)) :: u64) = bd_used b"
    by (simp flip: used)
  then show ?thesis
    using assms(2) used by (auto simp: pool_destroy_def release_def Let_def unat_eq_zero)
qed

lemma destroy_returns_budget_witness:
  "\<exists>b'. pl_budget (pool_destroy (ps_pool demo)) = Some b' \<and> bd_used b' = 0"
proof -
  have "pl_budget (ps_pool demo) \<noteq> None" by code_simp
  then obtain b where "pl_budget (ps_pool demo) = Some b" by blast
  from destroy_returns_budget [OF demo_reach this] show ?thesis by blast
qed

section \<open>Start-up and statistics\<close>

lemma pool_grow_supply:
  assumes ok: "pool_ok p" and b: "pl_budget p = Some b" and news: "pl_news p = Some a # rs"
    and grow: "pool_grow p = (g, p')"
  shows "g \<longleftrightarrow> pl_bufsz p \<le> unat (bd_max b) - unat (bd_used b)"
    and "g \<Longrightarrow> pl_news p' = rs \<and> (\<exists>b'. pl_budget p' = Some b' \<and> bd_max b' = bd_max b \<and>
           unat (bd_used b') = unat (bd_used b) + pl_bufsz p)"
proof -
  note basic = pool_okD [OF ok]
  have bok: "budget_ok b" using basic(7) b by (simp add: budget_exact_def)
  obtain r b1 where res: "try_reserve (of_nat (pl_bufsz p)) b = (r, b1)" by fastforce
  have r: "r \<longleftrightarrow> pl_bufsz p \<le> unat (bd_max b) - unat (bd_used b)"
  proof (cases r)
    case True
    then have "budget_ok b1 \<and> unat (bd_used b1) = unat (bd_used b) + pl_bufsz p \<and> unat (bd_max b1) = unat (bd_max b)"
      using bud.reserve_grant [OF bok, of "of_nat (pl_bufsz p)" b1] res basic(5) by simp
    with True show ?thesis using bud.inv_cap [of b1] by simp
  next
    case False
    with bud.reserve_denied [OF bok, of "of_nat (pl_bufsz p)" b1] res basic(5) bud.inv_cap [OF bok]
    show ?thesis by simp
  qed
  have gr: "g = r" using grow b news res by (cases r) (simp_all add: pool_grow_def pool_alloc_def)
  with r show "g \<longleftrightarrow> pl_bufsz p \<le> unat (bd_max b) - unat (bd_used b)" by simp
  assume g
  with gr grow b news res bud.reserve_grant [OF bok, of "of_nat (pl_bufsz p)" b1] basic(5)
  show "pl_news p' = rs \<and> (\<exists>b'. pl_budget p' = Some b' \<and> bd_max b' = bd_max b \<and>
           unat (bd_used b') = unat (bd_used b) + pl_bufsz p)"
    by (auto simp: pool_grow_def pool_alloc_def pool_add_def word_unat_eq_iff)
qed

text \<open>
  \<^verbatim>\<open>init\<close> pre-allocates exactly as many buffers as were asked for, or as many as still fit the
  budget when that is fewer.
\<close>

theorem init_count:
  assumes "pool_ok p" and "pl_budget p = Some b" and "n \<le> length ys" and "pl_news p = map Some ys @ rest"
  shows "fst (pool_init n p) = min n ((unat (bd_max b) - unat (bd_used b)) div pl_bufsz p)"
  using assms
proof (induction n arbitrary: p b ys)
  case 0
  then show ?case by simp
next
  case (Suc n)
  obtain a ys' where ys: "ys = a # ys'" "n \<le> length ys'" using Suc.prems(3) by (cases ys) auto
  have news: "pl_news p = Some a # (map Some ys' @ rest)" using Suc.prems(4) ys by simp
  obtain g p1 where g: "pool_grow p = (g, p1)" by fastforce
  note stock = pool_grow_supply [OF Suc.prems(1,2) news g]
  have pos: "0 < pl_bufsz p" using pool_okD(6) [OF Suc.prems(1)] .
  show ?case
  proof (cases g)
    case False
    then have "\<not> pl_bufsz p \<le> unat (bd_max b) - unat (bd_used b)" using stock(1) by simp
    then show ?thesis using False g by simp
  next
    case True
    then obtain b' where b': "pl_news p1 = map Some ys' @ rest" "pl_budget p1 = Some b'" "bd_max b' = bd_max b"
      "unat (bd_used b') = unat (bd_used b) + pl_bufsz p" using stock(2) by auto
    have sz: "pl_bufsz p1 = pl_bufsz p" using pool_grow_frame [OF g] by simp
    have "fst (pool_init n p1) = min n ((unat (bd_max b) - unat (bd_used b) - pl_bufsz p) div pl_bufsz p)"
      using Suc.IH [OF pool_grow_ok(1) [OF Suc.prems(1) g] b'(2) ys(2) b'(1)] b'(3,4) sz by simp
    moreover have "(unat (bd_max b) - unat (bd_used b)) div pl_bufsz p =
        Suc ((unat (bd_max b) - unat (bd_used b) - pl_bufsz p) div pl_bufsz p)"
      using stock(1) True pos by (simp add: le_div_geq)
    ultimately show ?thesis using True g by (simp add: split_beta)
  qed
qed

lemma init_count_witness:
  "fst (pool_init 5 (pool_new 64 (Some (new_budget 200)) (map Some [1, 2, 3, 4, 5]))) = 3"
proof -
  have "pool_ok (pool_new 64 (Some (new_budget 200)) (map Some [1, 2, 3, 4, 5]))"
    by (rule pool_ok_new) (simp_all add: new_budget_def List.map_filter_simps)
  from init_count [OF this, of "new_budget 200" 5 "[1, 2, 3, 4, 5]" "[]"] show ?thesis
    by (simp add: pool_new_def new_budget_def)
qed

text \<open>
  The free size that \<^verbatim>\<open>stat\<close> reports, the figure the back-pressure policy works on, is the
  budget minus the bytes of the buffers that are really out (with a client or handed to a waiter);
  a buffer on the free list and room the pool has never grown into both count as free.
\<close>

theorem stat_free_size:
  assumes "ps_reach s" and "pl_budget (ps_pool s) = Some b"
  shows "st_max_size (pool_get_stat (ps_pool s)) = unat (bd_max b) \<and>
    st_free_size (pool_get_stat (ps_pool s)) =
      unat (bd_max b) - card (ps_held s \<union> {b. \<exists>i. owns s i b}) * pl_bufsz (ps_pool s)"
proof -
  let ?out = "ps_held s \<union> {b. \<exists>i. owns s i b}"
  have own: "own_inv s" using ps_reach_inv [OF assms(1)] by (simp add: ps_inv_def)
  then have "distinct (pl_all (ps_pool s))" "distinct (pl_free (ps_pool s))"
    and "set (pl_all (ps_pool s)) = ?out \<union> set (pl_free (ps_pool s))" "?out \<inter> set (pl_free (ps_pool s)) = {}"
    by (auto simp: own_inv_def pool_ok_def)
  moreover from this(3) have "finite ?out" by (metis List.finite_set finite_Un)
  ultimately have "length (pl_all (ps_pool s)) = card ?out + length (pl_free (ps_pool s))"
    by (metis List.finite_set card_Un_disjoint distinct_card)
  then show ?thesis using assms(2) by (simp add: pool_get_stat_def Let_def)
qed

lemma stat_free_size_witness: "\<exists>b. pl_budget (ps_pool demo) = Some b \<and>
  st_max_size (pool_get_stat (ps_pool demo)) = unat (bd_max b)"
proof -
  have "pl_budget (ps_pool demo) \<noteq> None" by code_simp
  then obtain b where "pl_budget (ps_pool demo) = Some b" by blast
  with stat_free_size [OF demo_reach this] show ?thesis by blast
qed

end
