(* ===== verification/Protocol.thy ===== *)
theory Protocol
  imports Prelude
begin

text \<open>
  The wire format: the constants and structs of \<^verbatim>\<open>api/p8_protocol.h\<close>, the natural
  alignment rule by which a C compiler lays them out, the layout that
  \<^verbatim>\<open>engine/p8_static_checks.cpp\<close> freezes with \<open>static_assert\<close>, and the byte codec of
  the headers that the writers store into buffers. Hosts are little-endian here; the
  hello header, whose bytes are little-endian on every host, is in theory \<open>Hello\<close>.
\<close>

section \<open>Constants\<close>

definition P8_PACKET_MAIN :: u8 where "P8_PACKET_MAIN = 0"
definition P8_PACKET_LOGS :: u8 where "P8_PACKET_LOGS = 1"
definition P8_PACKET_METRICS :: u8 where "P8_PACKET_METRICS = 3"
definition P8_PACKET_SERVICE :: u8 where "P8_PACKET_SERVICE = 4"
definition P8_SVC_TYPE_LOG_DESC :: u8 where "P8_SVC_TYPE_LOG_DESC = 1"
definition P8_SVC_TYPE_ATTR :: u8 where "P8_SVC_TYPE_ATTR = 2"
definition P8_SVC_TYPE_MTK :: u8 where "P8_SVC_TYPE_MTK = 5"
definition P8_SVC_TYPE_MODULE :: u8 where "P8_SVC_TYPE_MODULE = 6"
definition P8_SVC_STR_MAX_LEN :: nat where "P8_SVC_STR_MAX_LEN = 1024"
definition P8_ATTR_TYPE_STR :: u8 where "P8_ATTR_TYPE_STR = 0"
definition P8_ATTR_TYPE_F64 :: u8 where "P8_ATTR_TYPE_F64 = 1"
definition P8_ATTR_TYPE_I64 :: u8 where "P8_ATTR_TYPE_I64 = 2"
definition P8_ATTR_TYPE_U64 :: u8 where "P8_ATTR_TYPE_U64 = 3"
definition P8_DATA_FLAG_FRAGMENT :: u8 where "P8_DATA_FLAG_FRAGMENT = 1"
definition P8_MTK_FLAG_ON :: u8 where "P8_MTK_FLAG_ON = 1"

section \<open>Struct layout\<close>

text \<open>A field is its name, its size and its alignment; offsets follow natural alignment.\<close>

type_synonym c_field = "string \<times> nat \<times> nat"

definition align_to :: "nat \<Rightarrow> nat \<Rightarrow> nat" where
  "align_to a off = (if off mod a = 0 then off else off + (a - off mod a))"

fun c_offsets :: "nat \<Rightarrow> c_field list \<Rightarrow> (string \<times> nat) list \<times> nat" where
  "c_offsets off [] = ([], off)"
| "c_offsets off ((nm, sz, al) # fs) =
     (let o1 = align_to al off; (rest, last) = c_offsets (o1 + sz) fs in ((nm, o1) # rest, last))"

definition c_alignof :: "c_field list \<Rightarrow> nat" where
  "c_alignof fs = foldr (\<lambda>(_, _, al) m. max al m) fs 1"

definition c_layout :: "c_field list \<Rightarrow> (string \<times> nat) list \<times> nat" where
  "c_layout fs = (let (offs, last) = c_offsets 0 fs in (offs, align_to (c_alignof fs) last))"

definition s_p8_hdr_fields :: "c_field list" where
  "s_p8_hdr_fields =
     [(''mu_packet_type'', 1, 1), (''mu_protocol_version'', 1, 1), (''mu_is_big_endian'', 1, 1),
      (''mu_padding'', 1, 1), (''mi_utc_sec_offset'', 4, 4), (''mu_size'', 4, 4),
      (''mu_process_id'', 4, 4), (''mu_system_time'', 8, 8), (''mu_hires_tick'', 8, 8),
      (''mu_hires_freq_numer'', 8, 8), (''mu_hires_freq_denom'', 8, 8),
      (''mp_process_name'', 256, 1), (''mp_host_name'', 256, 1), (''mu_hash'', 8, 8)]"

definition s_p8_svc_hdr_fields :: "c_field list" where
  "s_p8_svc_hdr_fields = [(''mu_packet_type'', 1, 1), (''mu_svc_type'', 1, 1), (''mu_size'', 2, 2)]"

definition s_p8_attr_svc_fields :: "c_field list" where
  "s_p8_attr_svc_fields = [(''ms_hdr'', 4, 2), (''mi_id'', 4, 4), (''mu_type'', 1, 1)]"

definition s_p8_log_mod_svc_fields :: "c_field list" where
  "s_p8_log_mod_svc_fields = [(''ms_hdr'', 4, 2), (''mu_id'', 2, 2), (''mu_verb'', 1, 1)]"

definition s_p8_log_item_svc_fields :: "c_field list" where
  "s_p8_log_item_svc_fields =
     [(''ms_hdr'', 4, 2), (''mu_line'', 4, 4), (''mu_hash'', 8, 8), (''mu_format_len'', 2, 2),
      (''mu_file_len'', 2, 2), (''mu_function_len'', 2, 2), (''mu_args_count'', 1, 1)]"

definition s_p8_data_buf_hdr_fields :: "c_field list" where
  "s_p8_data_buf_hdr_fields =
     [(''mu_packet_type'', 1, 1), (''mu_flags'', 1, 1), (''mu_size'', 2, 2),
      (''mu_thread_id'', 4, 4), (''mu_start_time'', 8, 8), (''mu_stop_time'', 8, 8)]"

definition s_p8_log_varg_fields :: "c_field list" where
  "s_p8_log_varg_fields = [(''mu_type'', 1, 1), (''mu_size'', 1, 1)]"

definition s_p8_log_item_dat_fields :: "c_field list" where
  "s_p8_log_item_dat_fields =
     [(''mu_hash'', 8, 8), (''mu_timestamp'', 8, 8), (''mu_trace_id'', 8, 8),
      (''mu_thread_id'', 4, 4), (''mu_level'', 1, 1), (''mu_processor'', 1, 1),
      (''mu_args_size'', 2, 2), (''mu_size'', 2, 2), (''mu_mod_id'', 2, 2),
      (''mu_attrs_count'', 1, 1), (''mu_flags'', 1, 1)]"

definition s_p8_mtk_svc_fields :: "c_field list" where
  "s_p8_mtk_svc_fields =
     [(''ms_hdr'', 4, 2), (''mi_id'', 4, 4), (''md_min'', 8, 8), (''md_max'', 8, 8),
      (''mu_flags'', 1, 1), (''mu_attrs_count'', 1, 1), (''mu_name_len'', 2, 2),
      (''mu_desc_len'', 2, 2), (''mu_unit_len'', 2, 2)]"

definition s_p8_mtk_item_dat_fields :: "c_field list" where
  "s_p8_mtk_item_dat_fields =
     [(''mu_timestamp'', 8, 8), (''md_value'', 8, 8), (''mi_id'', 4, 4), (''mu_size'', 2, 2),
      (''mu_flags'', 1, 1), (''mu_attrs_count'', 1, 1)]"

abbreviation sz_buf_hdr :: nat where "sz_buf_hdr \<equiv> 24"
abbreviation sz_log_item :: nat where "sz_log_item \<equiv> 40"
abbreviation sz_mtk_item :: nat where "sz_mtk_item \<equiv> 24"
abbreviation sz_attr_svc :: nat where "sz_attr_svc \<equiv> 12"
abbreviation sz_log_mod_svc :: nat where "sz_log_mod_svc \<equiv> 8"
abbreviation sz_log_item_svc :: nat where "sz_log_item_svc \<equiv> 24"
abbreviation sz_mtk_svc :: nat where "sz_mtk_svc \<equiv> 32"

section \<open>The data buffer header\<close>

record buf_hdr =
  bh_packet_type :: u8
  bh_flags :: u8
  bh_size :: u16
  bh_thread_id :: u32
  bh_start_time :: u64
  bh_stop_time :: u64

definition enc_buf_hdr :: "buf_hdr \<Rightarrow> byte list" where
  "enc_buf_hdr h =
     le_bytes 1 (unat (bh_packet_type h)) @ le_bytes 1 (unat (bh_flags h)) @
     le_bytes 2 (unat (bh_size h)) @ le_bytes 4 (unat (bh_thread_id h)) @
     le_bytes 8 (unat (bh_start_time h)) @ le_bytes 8 (unat (bh_stop_time h))"

definition dec_buf_hdr :: "byte list \<Rightarrow> buf_hdr" where
  "dec_buf_hdr bs =
     \<lparr>bh_packet_type = of_nat (get_le 0 1 bs), bh_flags = of_nat (get_le 1 1 bs),
      bh_size = of_nat (get_le 2 2 bs), bh_thread_id = of_nat (get_le 4 4 bs),
      bh_start_time = of_nat (get_le 8 8 bs), bh_stop_time = of_nat (get_le 16 8 bs)\<rparr>"

lemma length_enc_buf_hdr [simp]: "length (enc_buf_hdr h) = 24"
  by (simp add: enc_buf_hdr_def)

lemma dec_enc_buf_hdr [simp]: "dec_buf_hdr (enc_buf_hdr h @ rest) = h"
  by (simp add: dec_buf_hdr_def enc_buf_hdr_def get_le_def sub_bytes_def del: le_bytes.simps)

text \<open>The fields are stored in place through a \<^verbatim>\<open>reinterpret_cast\<close>; the struct has no padding.\<close>

definition upd_buf_hdr :: "(buf_hdr \<Rightarrow> buf_hdr) \<Rightarrow> byte list \<Rightarrow> byte list" where
  "upd_buf_hdr f bs = put_bytes 0 (enc_buf_hdr (f (dec_buf_hdr bs))) bs"

lemma length_upd_buf_hdr [simp]: "24 \<le> length bs \<Longrightarrow> length (upd_buf_hdr f bs) = length bs"
  by (simp add: upd_buf_hdr_def)

lemma dec_upd_buf_hdr [simp]: "dec_buf_hdr (upd_buf_hdr f bs) = f (dec_buf_hdr bs)"
  by (simp add: upd_buf_hdr_def put_bytes_def)

lemma sub_upd_buf_hdr [codec_simps]:
  "24 \<le> off \<Longrightarrow> 24 \<le> length bs \<Longrightarrow> sub_bytes off n (upd_buf_hdr f bs) = sub_bytes off n bs"
  by (simp add: upd_buf_hdr_def sub_put_above)

lemma dec_buf_hdr_cong:
  assumes "sub_bytes 0 24 bs = sub_bytes 0 24 cs"
  shows "dec_buf_hdr bs = dec_buf_hdr cs"
proof -
  have sub: "sub_bytes k m bs = sub_bytes k m cs" if "k + m \<le> 24" for k m
    using that assms sub_sub_bytes [of k m 24 0 bs] sub_sub_bytes [of k m 24 0 cs] by simp
  show ?thesis by (simp add: dec_buf_hdr_def get_le_def sub)
qed

lemma dec_buf_hdr_put [simp]:
  assumes "24 \<le> off" "24 \<le> length bs"
  shows "dec_buf_hdr (put_bytes off xs bs) = dec_buf_hdr bs"
proof (rule dec_buf_hdr_cong)
  show "sub_bytes 0 24 (put_bytes off xs bs) = sub_bytes 0 24 bs"
    using assms by (auto simp: sub_bytes_def put_bytes_def min_def)
qed

section \<open>The log record header\<close>

record log_item =
  li_hash :: u64
  li_timestamp :: u64
  li_trace_id :: u64
  li_thread_id :: u32
  li_level :: u8
  li_processor :: u8
  li_args_size :: u16
  li_size :: u16
  li_mod_id :: u16
  li_attrs_count :: u8
  li_flags :: u8

text \<open>
  The first 38 bytes of the 40-byte struct; the two trailing padding bytes are never
  written by the code, so the codec leaves them alone too.
\<close>

definition enc_log_item :: "log_item \<Rightarrow> byte list" where
  "enc_log_item h =
     le_bytes 8 (unat (li_hash h)) @ le_bytes 8 (unat (li_timestamp h)) @
     le_bytes 8 (unat (li_trace_id h)) @ le_bytes 4 (unat (li_thread_id h)) @
     le_bytes 1 (unat (li_level h)) @ le_bytes 1 (unat (li_processor h)) @
     le_bytes 2 (unat (li_args_size h)) @ le_bytes 2 (unat (li_size h)) @
     le_bytes 2 (unat (li_mod_id h)) @ le_bytes 1 (unat (li_attrs_count h)) @
     le_bytes 1 (unat (li_flags h))"

definition dec_log_item :: "byte list \<Rightarrow> log_item" where
  "dec_log_item bs =
     \<lparr>li_hash = of_nat (get_le 0 8 bs), li_timestamp = of_nat (get_le 8 8 bs),
      li_trace_id = of_nat (get_le 16 8 bs), li_thread_id = of_nat (get_le 24 4 bs),
      li_level = of_nat (get_le 28 1 bs), li_processor = of_nat (get_le 29 1 bs),
      li_args_size = of_nat (get_le 30 2 bs), li_size = of_nat (get_le 32 2 bs),
      li_mod_id = of_nat (get_le 34 2 bs), li_attrs_count = of_nat (get_le 36 1 bs),
      li_flags = of_nat (get_le 37 1 bs)\<rparr>"

lemma length_enc_log_item [simp]: "length (enc_log_item h) = 38"
  by (simp add: enc_log_item_def)

lemma dec_enc_log_item [simp]: "dec_log_item (enc_log_item h @ rest) = h"
  by (simp add: dec_log_item_def enc_log_item_def get_le_def sub_bytes_def del: le_bytes.simps)

section \<open>The metric sample\<close>

text \<open>A \<^verbatim>\<open>double\<close> is carried as its 64-bit image: the code only copies it.\<close>

record mtk_item =
  mi_timestamp :: u64
  mi_value :: u64
  mi_id :: u32
  mi_size :: u16
  mi_flags :: u8
  mi_attrs_count :: u8

definition enc_mtk_item :: "mtk_item \<Rightarrow> byte list" where
  "enc_mtk_item h =
     le_bytes 8 (unat (mi_timestamp h)) @ le_bytes 8 (unat (mi_value h)) @
     le_bytes 4 (unat (mi_id h)) @ le_bytes 2 (unat (mi_size h)) @
     le_bytes 1 (unat (mi_flags h)) @ le_bytes 1 (unat (mi_attrs_count h))"

definition dec_mtk_item :: "byte list \<Rightarrow> mtk_item" where
  "dec_mtk_item bs =
     \<lparr>mi_timestamp = of_nat (get_le 0 8 bs), mi_value = of_nat (get_le 8 8 bs),
      mi_id = of_nat (get_le 16 4 bs), mi_size = of_nat (get_le 20 2 bs),
      mi_flags = of_nat (get_le 22 1 bs), mi_attrs_count = of_nat (get_le 23 1 bs)\<rparr>"

lemma length_enc_mtk_item [simp]: "length (enc_mtk_item h) = 24"
  by (simp add: enc_mtk_item_def)

lemma dec_enc_mtk_item [simp]: "dec_mtk_item (enc_mtk_item h @ rest) = h"
  by (simp add: dec_mtk_item_def enc_mtk_item_def get_le_def sub_bytes_def del: le_bytes.simps)

section \<open>The layout contract\<close>

text \<open>
  The assertions of \<^verbatim>\<open>engine/p8_static_checks.cpp\<close> on the structs: \<open>packet_type_first\<close> is its macro
  \<^verbatim>\<open>P8_ASSERT_PACKET_TYPE_FIRST\<close>, \<open>frozen\<close> the size and the offsets it lists for a struct. The file
  asserts nothing on the attribute and module entries of the service stream, and not the offset of
  \<^verbatim>\<open>mu_mod_id\<close>.
\<close>

definition packet_type_first :: "c_field list \<Rightarrow> bool" where
  "packet_type_first fs \<longleftrightarrow> map_of (fst (c_layout fs)) ''mu_packet_type'' = Some 0 \<and>
     map_option fst (map_of fs ''mu_packet_type'') = Some 1"

definition c_aligned8 :: "c_field list \<Rightarrow> bool" where
  "c_aligned8 fs \<longleftrightarrow> snd (c_layout fs) mod 8 = 0 \<and> 8 \<le> c_alignof fs"

definition frozen :: "c_field list \<Rightarrow> nat \<Rightarrow> (string \<times> nat) list \<Rightarrow> bool" where
  "frozen fs n offs \<longleftrightarrow> snd (c_layout fs) = n \<and> list_all (\<lambda>(nm, off). map_of (fst (c_layout fs)) nm = Some off) offs"

definition p8_static_checks :: bool where
  "p8_static_checks \<longleftrightarrow>
   list_all packet_type_first [s_p8_hdr_fields, s_p8_svc_hdr_fields, s_p8_data_buf_hdr_fields] \<and>
   list_all c_aligned8 [s_p8_hdr_fields, s_p8_data_buf_hdr_fields, s_p8_log_item_dat_fields,
     s_p8_mtk_svc_fields, s_p8_mtk_item_dat_fields] \<and>
   frozen s_p8_hdr_fields 568 [(''mu_packet_type'', 0), (''mu_protocol_version'', 1), (''mu_is_big_endian'', 2),
    (''mu_padding'', 3), (''mi_utc_sec_offset'', 4), (''mu_size'', 8), (''mu_process_id'', 12),
    (''mu_system_time'', 16), (''mu_hires_tick'', 24), (''mu_hires_freq_numer'', 32),
    (''mu_hires_freq_denom'', 40), (''mp_process_name'', 48), (''mp_host_name'', 304),
    (''mu_hash'', 560)] \<and>
   frozen s_p8_svc_hdr_fields 4 [(''mu_packet_type'', 0), (''mu_svc_type'', 1), (''mu_size'', 2)] \<and>
   frozen s_p8_data_buf_hdr_fields 24 [(''mu_packet_type'', 0), (''mu_flags'', 1), (''mu_size'', 2),
    (''mu_thread_id'', 4), (''mu_start_time'', 8), (''mu_stop_time'', 16)] \<and>
   frozen s_p8_log_varg_fields 2 [(''mu_type'', 0), (''mu_size'', 1)] \<and>
   frozen s_p8_log_item_svc_fields 24 [(''ms_hdr'', 0), (''mu_line'', 4), (''mu_hash'', 8), (''mu_format_len'', 16),
    (''mu_file_len'', 18), (''mu_function_len'', 20), (''mu_args_count'', 22)] \<and>
   frozen s_p8_log_item_dat_fields 40 [(''mu_hash'', 0), (''mu_timestamp'', 8), (''mu_trace_id'', 16), (''mu_thread_id'', 24),
    (''mu_level'', 28), (''mu_processor'', 29), (''mu_args_size'', 30), (''mu_size'', 32),
    (''mu_attrs_count'', 36), (''mu_flags'', 37)] \<and>
   frozen s_p8_mtk_svc_fields 32 [(''ms_hdr'', 0), (''mi_id'', 4), (''md_min'', 8), (''md_max'', 16), (''mu_flags'', 24),
    (''mu_attrs_count'', 25), (''mu_name_len'', 26), (''mu_desc_len'', 28), (''mu_unit_len'', 30)] \<and>
   frozen s_p8_mtk_item_dat_fields 24 [(''mu_timestamp'', 0), (''md_value'', 8), (''mi_id'', 16), (''mu_size'', 20),
    (''mu_flags'', 22), (''mu_attrs_count'', 23)]"

text \<open>The struct declarations of \<^verbatim>\<open>api/p8_protocol.h\<close>, laid out by the natural alignment rule, pass.\<close>

theorem layout_static_asserts: p8_static_checks
  by code_simp

text \<open>The sizes the code takes for the two entries the file leaves out, and the offset it leaves out.\<close>

lemma layout_unchecked:
  "snd (c_layout s_p8_attr_svc_fields) = sz_attr_svc" "snd (c_layout s_p8_log_mod_svc_fields) = sz_log_mod_svc"
  "map_of (fst (c_layout s_p8_log_item_dat_fields)) ''mu_mod_id'' = Some 34"
  by code_simp+

end
