(* ===== verification/CorePool.thy ===== *)
theory CorePool
  imports PoolSystem Protocol
begin

text \<open>
  The part of \<^verbatim>\<open>cp8_core\<close> the data plane calls (\<^verbatim>\<open>engine/p8_core.cpp\<close>): acquiring and
  returning buffers with the back-pressure wake, handing filled buffers over, and the drop
  counters. Buffer contents are part of the state (\<open>c_mem\<close>), and a write outside a buffer
  does not vanish: it sets the sticky flag \<open>c_ub\<close>.
\<close>

section \<open>State\<close>

record core =
  c_initialized :: bool
  c_pool :: pool
  c_mem :: "addr \<Rightarrow> byte list"
  c_ub :: bool
  c_outstanding :: u64
  c_wake_pending :: bool
  c_wakes :: nat
  c_ready :: "addr list"
  c_drop_logs :: u64
  c_drop_metrics :: u64
  c_drop_traces :: u64
  c_drop_svc :: u64

text \<open>Aggregated drop counts, one field per kind.\<close>

record drop_stats =
  mu_logs :: u64
  mu_metrics :: u64
  mu_traces :: u64
  mu_svc :: u64

definition P8_CORE_FREE_MEM_PERCENT :: nat where "P8_CORE_FREE_MEM_PERCENT = 75"

definition mz_data_buffer_size :: nat where "mz_data_buffer_size = 8192"

section \<open>Operations\<close>

text \<open>Store bytes into a buffer, the effect of \<^verbatim>\<open>memcpy\<close> and of the field assignments.\<close>

definition mem_write :: "addr \<Rightarrow> nat \<Rightarrow> byte list \<Rightarrow> 'a core_scheme \<Rightarrow> 'a core_scheme" where
  "mem_write a off bs c =
     (if off + length bs \<le> length (c_mem c a)
      then c\<lparr>c_mem := (c_mem c)(a := put_bytes off bs (c_mem c a))\<rparr>
      else c\<lparr>c_ub := True\<rparr>)"

definition notify :: "'a core_scheme \<Rightarrow> 'a core_scheme" where
  "notify c = c\<lparr>c_wakes := Suc (c_wakes c)\<rparr>"

definition notify_pressure :: "'a core_scheme \<Rightarrow> 'a core_scheme" where
  "notify_pressure c = (if c_wake_pending c then c else notify (c\<lparr>c_wake_pending := True\<rparr>))"

text \<open>The percentage test of \<open>acquire_buffer\<close>, with the 64-bit product it computes.\<close>

definition under_pressure :: "pool_stat \<Rightarrow> bool" where
  "under_pressure st \<longleftrightarrow> 0 < st_max_size st \<and>
     unat (of_nat (st_free_size st) * 100 :: u64) div st_max_size st < P8_CORE_FREE_MEM_PERCENT"

datatype acquire_result = Acquired addr | Exhausted | Must_wait

text \<open>
  \<open>acquire_buffer\<close> up to the call of \<open>acquire_wait\<close>: a blocking caller that finds the pool
  exhausted continues as an \<open>E_wait\<close> event of the pool.
\<close>

definition acquire_buffer :: "bool \<Rightarrow> 'a core_scheme \<Rightarrow> acquire_result \<times> 'a core_scheme" where
  "acquire_buffer wait c =
     (if \<not> c_initialized c then (Exhausted, c)
      else case acquire_no_lock (c_pool c) of
          (Some b, p) \<Rightarrow>
            (let c1 = c\<lparr>c_pool := p\<rparr>
             in (Acquired b, if under_pressure (pool_get_stat p) then notify_pressure c1 else c1))
        | (None, p) \<Rightarrow>
            (let c1 = c\<lparr>c_pool := p\<rparr>
             in if wait then (Must_wait, notify_pressure c1) else (Exhausted, c1)))"

definition release_buffer :: "ptr \<Rightarrow> 'a core_scheme \<Rightarrow> 'a core_scheme" where
  "release_buffer ip c =
     (if ip = None \<or> \<not> c_initialized c then c
      else c\<lparr>c_pool := fst (recycle ip (c_pool c)), c_outstanding := c_outstanding c - 1\<rparr>)"

definition release_buffers :: "addr list \<Rightarrow> 'a core_scheme \<Rightarrow> 'a core_scheme" where
  "release_buffers bs c =
     (if \<not> c_initialized c \<or> bs = [] then c
      else c\<lparr>c_pool := fst (recycle_batch (map Some bs) (c_pool c)),
             c_outstanding := c_outstanding c - of_nat (length bs)\<rparr>)"

definition submit_buffer :: "ptr \<Rightarrow> 'a core_scheme \<Rightarrow> 'a core_scheme" where
  "submit_buffer ip c =
     (case ip of None \<Rightarrow> c
      | Some b \<Rightarrow> if c_initialized c then notify (c\<lparr>c_ready := c_ready c @ [b]\<rparr>) else c)"

text \<open>The chain is emptied into the ready queue; the second component is what stays in it.\<close>

definition submit_chain :: "addr list \<Rightarrow> 'a core_scheme \<Rightarrow> addr list \<times> 'a core_scheme" where
  "submit_chain bs c =
     (if \<not> c_initialized c \<or> bs = [] then (bs, c)
      else ([], notify (c\<lparr>c_ready := c_ready c @ bs\<rparr>)))"

definition accumulate_dropped :: "drop_stats \<Rightarrow> 'a core_scheme \<Rightarrow> 'a core_scheme" where
  "accumulate_dropped d c = c\<lparr>c_drop_logs := c_drop_logs c + mu_logs d,
     c_drop_metrics := c_drop_metrics c + mu_metrics d, c_drop_traces := c_drop_traces c + mu_traces d\<rparr>"

definition get_dropped_stats :: "'a core_scheme \<Rightarrow> drop_stats" where
  "get_dropped_stats c = \<lparr>mu_logs = c_drop_logs c, mu_metrics = c_drop_metrics c,
     mu_traces = c_drop_traces c, mu_svc = c_drop_svc c\<rparr>"

section \<open>A source of buffers\<close>

text \<open>
  What a writer relies on when it asks the core for a buffer without blocking: the buffer was
  nobody's, it is the caller's from now on, contents are left alone, and a refusal changes
  nothing. \<open>owned\<close> are the buffers that are out of the pool.
\<close>

locale buffer_source =
  fixes acquire :: "'c \<Rightarrow> acquire_result \<times> 'c"
    and owned :: "'c \<Rightarrow> addr set"
    and contents :: "'c \<Rightarrow> addr \<Rightarrow> byte list"
    and inv :: "'c \<Rightarrow> bool"
  assumes acquired: "inv c \<Longrightarrow> acquire c = (Acquired b, c') \<Longrightarrow>
        inv c' \<and> b \<notin> owned c \<and> owned c' = insert b (owned c) \<and> contents c' = contents c"
    and refused: "inv c \<Longrightarrow> acquire c = (r, c') \<Longrightarrow> (\<forall>b. r \<noteq> Acquired b) \<Longrightarrow>
        inv c' \<and> owned c' = owned c \<and> contents c' = contents c"
begin

lemma acquire_keeps:
  assumes "inv c" "acquire c = (r, c')"
  shows "inv c' \<and> owned c \<subseteq> owned c' \<and> contents c' = contents c"
proof (cases "\<exists>b. r = Acquired b")
  case True
  then obtain b where "acquire c = (Acquired b, c')" using assms(2) by auto
  from acquired [OF assms(1) this] show ?thesis by blast
next
  case False
  then show ?thesis using refused [OF assms] by blast
qed

text \<open>Asking repeatedly never yields a buffer twice, nor one that was out before.\<close>

primrec acquire_many :: "nat \<Rightarrow> 'c \<Rightarrow> addr list \<times> 'c" where
  "acquire_many 0 c = ([], c)"
| "acquire_many (Suc n) c = (case acquire c of
      (Acquired b, c1) \<Rightarrow> (case acquire_many n c1 of (bs, c2) \<Rightarrow> (b # bs, c2))
    | (_, c1) \<Rightarrow> ([], c1))"

lemma acquire_many_fresh:
  "inv c \<Longrightarrow> acquire_many n c = (bs, c') \<Longrightarrow>
   inv c' \<and> distinct bs \<and> set bs \<inter> owned c = {} \<and> owned c' = owned c \<union> set bs \<and> contents c' = contents c"
proof (induction n arbitrary: c bs c')
  case 0
  then show ?case by simp
next
  case (Suc n)
  obtain r c1 where a: "acquire c = (r, c1)" by fastforce
  show ?case
  proof (cases r)
    case (Acquired b)
    obtain ds c2 where m: "acquire_many n c1 = (ds, c2)" by fastforce
    have "bs = b # ds" "c' = c2" using Suc.prems(2) a m Acquired by simp_all
    then show ?thesis using acquired [OF Suc.prems(1), of b c1] Suc.IH [of c1 ds c2] a m Acquired by auto
  next
    case Exhausted
    then show ?thesis using refused [OF Suc.prems(1) a] Suc.prems(2) a by simp
  next
    case Must_wait
    then show ?thesis using refused [OF Suc.prems(1) a] Suc.prems(2) a by simp
  qed
qed

end

definition core_owned :: "'a core_scheme \<Rightarrow> addr set" where
  "core_owned c = set (pl_all (c_pool c)) - set (pl_free (c_pool c))"

definition core_ok :: "'a core_scheme \<Rightarrow> bool" where
  "core_ok c \<longleftrightarrow> pool_ok (c_pool c) \<and> (\<forall>a. length (c_mem c a) = pl_bufsz (c_pool c))"

lemma notify_pressure_frame [frame_simps]:
  "c_pool (notify_pressure c) = c_pool c" "c_mem (notify_pressure c) = c_mem c" "c_ub (notify_pressure c) = c_ub c"
  "c_initialized (notify_pressure c) = c_initialized c" "c_ready (notify_pressure c) = c_ready c"
  "c_outstanding (notify_pressure c) = c_outstanding c"
  by (simp_all add: notify_pressure_def notify_def)

lemma acquire_buffer_pool:
  assumes "acquire_buffer w c = (r, c')"
  shows "c_mem c' = c_mem c" "c_ub c' = c_ub c" "c_initialized c' = c_initialized c" "c_ready c' = c_ready c"
    "r = Acquired b \<Longrightarrow> acquire_no_lock (c_pool c) = (Some b, c_pool c')"
    "(\<forall>b. r \<noteq> Acquired b) \<Longrightarrow> c_pool c' = c_pool c \<or> acquire_no_lock (c_pool c) = (None, c_pool c')"
  using assms by (auto simp: acquire_buffer_def Let_def frame_simps split: if_splits prod.splits option.splits)

lemma core_acquired:
  assumes "core_ok c" "acquire_buffer w c = (Acquired b, c')"
  shows "core_ok c'" "b \<notin> core_owned c" "core_owned c' = insert b (core_owned c)"
proof -
  have ok: "pool_ok (c_pool c)" and acq: "acquire_no_lock (c_pool c) = (Some b, c_pool c')" and mem: "c_mem c' = c_mem c"
    using assms acquire_buffer_pool [OF assms(2)] by (auto simp: core_ok_def)
  note post = acquire_no_lock_Some [OF ok acq] acquire_no_lock_frame [OF acq]
  then show "core_ok c'" using assms(1) mem by (simp add: core_ok_def)
  show "b \<notin> core_owned c" "core_owned c' = insert b (core_owned c)"
  proof (atomize (full), cases "pl_free (c_pool c)")
    case Nil
    then show "b \<notin> core_owned c \<and> core_owned c' = insert b (core_owned c)"
      using post(6) by (auto simp: core_owned_def)
  next
    case Cons
    then have f: "pl_free (c_pool c) = b # pl_free (c_pool c')" "pl_all (c_pool c') = pl_all (c_pool c)"
      using post(5) by auto
    then show "b \<notin> core_owned c \<and> core_owned c' = insert b (core_owned c)"
      using post(2,3) unfolding core_owned_def f by auto
  qed
qed

lemma core_refused:
  assumes "core_ok c" "acquire_buffer w c = (r, c')" "\<forall>b. r \<noteq> Acquired b"
  shows "core_ok c' \<and> core_owned c' = core_owned c"
proof -
  have mem: "c_mem c' = c_mem c" using acquire_buffer_pool(1) [OF assms(2)] .
  consider "c_pool c' = c_pool c" | (none) "acquire_no_lock (c_pool c) = (None, c_pool c')"
    using acquire_buffer_pool(6) [OF assms(2,3)] by blast
  then show ?thesis
  proof cases
    case none
    have "pool_ok (c_pool c)" using assms(1) by (simp add: core_ok_def)
    from acquire_no_lock_None [OF this none] acquire_no_lock_frame [OF none] mem assms(1)
    show ?thesis by (simp add: core_ok_def core_owned_def)
  qed (use mem assms(1) in \<open>simp add: core_ok_def core_owned_def\<close>)
qed

interpretation source: buffer_source "acquire_buffer False" core_owned c_mem core_ok
proof (unfold_locales, goal_cases)
  case (1 c b c')
  then show ?case using core_acquired [OF 1] acquire_buffer_pool(1) [OF 1(2)] by simp
next
  case (2 c r c')
  then show ?case using core_refused [OF 2] acquire_buffer_pool(1) [OF 2(2)] by simp
qed

section \<open>Back-pressure\<close>

text \<open>
  The wake-up test of \<^verbatim>\<open>acquire_buffer\<close> is exact wherever the 64-bit product cannot wrap: the
  worker is woken if and only if less than 75 percent of the budget is free.
\<close>

theorem under_pressure_exact:
  assumes "0 < st_max_size st" and "st_free_size st * 100 < 2 ^ 64"
  shows "under_pressure st \<longleftrightarrow> st_free_size st * 100 < 75 * st_max_size st"
proof -
  have "unat (of_nat (st_free_size st) * 100 :: u64) = st_free_size st * 100"
    using assms(2) unat_of_nat [where ?'a = 64, of "st_free_size st * 100"] by simp
  then show ?thesis
    using assms(1) by (simp add: under_pressure_def P8_CORE_FREE_MEM_PERCENT_def div_less_iff_less_mult mult.commute)
qed

text \<open>
  With a budget of at least \<open>2 ^ 64 / 75\<close> bytes, the default unlimited one among them, every
  acquisition counts as memory pressure, however much is free.
\<close>

theorem huge_budget_permanent_pressure:
  assumes "2 ^ 64 \<le> 75 * st_max_size st"
  shows "under_pressure st"
proof -
  have "unat (of_nat (st_free_size st) * 100 :: u64) < 2 ^ 64"
    using unsigned_less [of "of_nat (st_free_size st) * 100 :: u64", where ?'a = nat] by simp
  then have "unat (of_nat (st_free_size st) * 100 :: u64) < 75 * st_max_size st" using assms by linarith
  then show ?thesis
    using assms by (simp add: under_pressure_def P8_CORE_FREE_MEM_PERCENT_def div_less_iff_less_mult mult.commute)
qed

lemma under_pressure_exact_witness:
  "\<not> under_pressure \<lparr>st_buffer_size = 8192, st_free_size = 24576, st_max_size = 32768\<rparr>"
  using under_pressure_exact [of "\<lparr>st_buffer_size = 8192, st_free_size = 24576, st_max_size = 32768\<rparr>"] by simp

lemma huge_budget_permanent_pressure_witness:
  "under_pressure \<lparr>st_buffer_size = 8192, st_free_size = 2 ^ 64 - 1, st_max_size = 2 ^ 64 - 1\<rparr>"
  by (rule huge_budget_permanent_pressure) simp

text \<open>
  \<^verbatim>\<open>mu_outstanding_buffers\<close> does not count the buffers that are out: acquiring leaves it
  alone and returning a buffer lowers it, so one acquire and release takes it from zero to
  \<open>2 ^ 64 - 1\<close>, while the pool itself has every buffer back on its free list.
\<close>

theorem outstanding_counter_drifts:
  assumes "core_ok c" and "c_initialized c" and "acquire_buffer w c = (Acquired b, c')"
    and "wq_abs (pl_waitq (c_pool c)) []"
  shows "c_outstanding (release_buffer (Some b) c') = c_outstanding c - 1 \<and>
    core_owned (release_buffer (Some b) c') = core_owned c \<and>
    pl_free (c_pool (release_buffer (Some b) c')) = pl_free (c_pool c') @ [b]"
proof -
  have acq: "acquire_no_lock (c_pool c) = (Some b, c_pool c')" "c_initialized c'"
    using acquire_buffer_pool [OF assms(3)] assms(2) by auto
  have "wq_abs (pl_waitq (c_pool c')) []" using acquire_no_lock_frame [OF acq(1)] assms(4) by simp
  then have rel: "recycle (Some b) (c_pool c') = ((c_pool c')\<lparr>pl_free := pl_free (c_pool c') @ [b]\<rparr>, [])"
    by (rule recycle_idle)
  have out: "c_outstanding c' = c_outstanding c"
    using assms(2,3) by (auto simp: acquire_buffer_def Let_def frame_simps split: if_splits option.splits prod.splits)
  note own = core_acquired [OF assms(1,3)]
  have "core_owned (release_buffer (Some b) c') = core_owned c' - {b}"
    using rel acq(2) by (auto simp: release_buffer_def core_owned_def)
  then show ?thesis using rel out own acq(2) by (auto simp: release_buffer_def)
qed

definition demo_core :: core where
  "demo_core = \<lparr>c_initialized = True, c_pool = pool_new 64 (Some (new_budget 128)) [Some 1, Some 2],
     c_mem = (\<lambda>_. replicate 64 0), c_ub = False, c_outstanding = 0, c_wake_pending = False, c_wakes = 0,
     c_ready = [], c_drop_logs = 0, c_drop_metrics = 0, c_drop_traces = 0, c_drop_svc = 0\<rparr>"

lemma demo_core_ok: "core_ok demo_core"
  by (simp add: core_ok_def demo_core_def pool_ok_new new_budget_def List.map_filter_simps) (simp add: pool_new_def)

lemma outstanding_counter_drifts_witness:
  "c_outstanding (release_buffer (Some 1) (snd (acquire_buffer False demo_core))) = 2 ^ 64 - 1"
proof -
  have "fst (acquire_buffer False demo_core) = Acquired 1" by code_simp
  then have "acquire_buffer False demo_core = (Acquired 1, snd (acquire_buffer False demo_core))"
    by (metis prod.collapse)
  from outstanding_counter_drifts [OF demo_core_ok _ this] show ?thesis
    by (simp add: demo_core_def pool_new_def wq_abs_empty)
qed

end
