(* ===== verification/TlsWriter.thy ===== *)
theory TlsWriter
  imports CorePool
begin

unbundle bit_operations_syntax

text \<open>
  \<^verbatim>\<open>cp8_tls_writer\<close> (\<^verbatim>\<open>engine/p8_tls_writer.cpp\<close>, and the macro \<^verbatim>\<open>P8_ENSURE_SPACE\<close> of its
  header): the per-thread writer that serialises records into pool buffers and splits a record
  over several buffers when it does not fit. The write cursor \<^verbatim>\<open>lp_dst\<close> always points into the
  current buffer, so it is kept as an offset from its start, and \<^verbatim>\<open>lp_buf_end\<close> is the offset
  \<open>w_max\<close>. \<open>rec_stream\<close> is what a reader recovers from the buffers.
\<close>

section \<open>State\<close>

record writer =
  w_buffer :: ptr
  w_used :: nat
  w_max :: nat
  w_frags :: "addr list"
  w_tid :: u32
  w_drop_logs :: u64
  w_drop_metrics :: u64
  w_drop_traces :: u64

text \<open>The constructor: the size of the core's buffers, the thread id, nothing held.\<close>

definition writer_new :: "nat \<Rightarrow> u32 \<Rightarrow> writer" where
  "writer_new mx tid = \<lparr>w_buffer = None, w_used = 0, w_max = mx, w_frags = [], w_tid = tid,
     w_drop_logs = 0, w_drop_metrics = 0, w_drop_traces = 0\<rparr>"

text \<open>
  A piece of serialisation ends at the cursor \<open>off\<close> (\<open>Some off\<close>) or jumps to \<^verbatim>\<open>lbl_discard\<close>
  (\<open>None\<close>); either way writer and core have changed.
\<close>

type_synonym 'c wc = "writer \<times> 'c core_scheme"

section \<open>Splitting a record\<close>

definition data_hdr :: "u8 \<Rightarrow> u32 \<Rightarrow> u64 \<Rightarrow> buf_hdr" where
  "data_hdr ty tid ts = \<lparr>bh_packet_type = ty, bh_flags = 0, bh_size = of_nat sz_buf_hdr, bh_thread_id = tid,
     bh_start_time = ts, bh_stop_time = 0\<rparr>"

text \<open>Mark the current buffer as continued and set its size and stop time.\<close>

definition finalize_fragment :: "nat \<Rightarrow> u64 \<Rightarrow> buf_hdr \<Rightarrow> buf_hdr" where
  "finalize_fragment used ts h = h\<lparr>bh_flags := bh_flags h OR P8_DATA_FLAG_FRAGMENT,
     bh_size := of_nat used, bh_stop_time := ts\<rparr>"

text \<open>\<open>mp_buffer\<close> is dereferenced, so it must not be null: the model flags it otherwise.\<close>

definition rotate_fragment_buffer :: "u64 \<Rightarrow> 'c wc \<Rightarrow> bool \<times> 'c wc" where
  "rotate_fragment_buffer ts wc =
     (case wc of (w, c) \<Rightarrow>
      case w_buffer w of
        None \<Rightarrow> (False, w, c\<lparr>c_ub := True\<rparr>)
      | Some b \<Rightarrow>
          (let ty = bh_packet_type (dec_buf_hdr (c_mem c b));
               c1 = c\<lparr>c_mem := (c_mem c)(b := upd_buf_hdr (finalize_fragment (w_used w) ts) (c_mem c b))\<rparr>;
               w1 = w\<lparr>w_frags := w_frags w @ [b]\<rparr>
           in case acquire_buffer False c1 of
                (Acquired n, c2) \<Rightarrow>
                  (True, w1\<lparr>w_buffer := Some n, w_used := sz_buf_hdr\<rparr>,
                   mem_write n 0 (enc_buf_hdr (data_hdr ty (w_tid w) ts)) c2)
              | (_, c2) \<Rightarrow> (False, w1\<lparr>w_buffer := None\<rparr>, c2)))"

text \<open>\<^verbatim>\<open>P8_ENSURE_SPACE\<close>: a token of \<open>needed\<close> bytes is never split over two buffers.\<close>

definition ensure_space :: "nat \<Rightarrow> u64 \<Rightarrow> nat \<Rightarrow> 'c wc \<Rightarrow> nat option \<times> 'c wc" where
  "ensure_space needed ts off wc =
     (if w_max (fst wc) < off + needed then
        (case rotate_fragment_buffer ts ((fst wc)\<lparr>w_used := off\<rparr>, snd wc) of
           (True, wc1) \<Rightarrow> (Some (w_used (fst wc1)), wc1)
         | (False, wc1) \<Rightarrow> (None, wc1))
      else (Some off, wc))"

text \<open>Write at the cursor of the current buffer.\<close>

definition buf_write :: "nat \<Rightarrow> byte list \<Rightarrow> 'c wc \<Rightarrow> 'c wc" where
  "buf_write off bs wc = (case wc of (w, c) \<Rightarrow>
     case w_buffer w of None \<Rightarrow> (w, c\<lparr>c_ub := True\<rparr>) | Some b \<Rightarrow> (w, mem_write b off bs c))"

text \<open>
  \<open>copy_fragmented\<close>: the loop over the remaining source bytes. \<open>io_buf_end - io_dst\<close> is a
  \<open>size_t\<close> difference, hence \<open>size_sub\<close>. With a buffer that only holds its own header the loop
  would go on as long as the pool has buffers, so it is not a structural recursion.
\<close>

partial_function (option) copy_fragmented ::
    "u64 \<Rightarrow> byte list \<Rightarrow> nat \<Rightarrow> nat \<Rightarrow> 'c wc \<Rightarrow> (nat option \<times> nat \<times> 'c wc) option" where
  "copy_fragmented ts src off written wc =
     (if src = [] then Some (Some off, written, wc)
      else let space = size_sub (w_max (fst wc)) off
           in if space = 0 then
                (let (ok, wc1) = rotate_fragment_buffer ts ((fst wc)\<lparr>w_used := off\<rparr>, snd wc)
                 in if \<not> ok then Some (None, written, wc1)
                    else let off1 = w_used (fst wc1);
                             n = min (length src) (size_sub (w_max (fst wc1)) off1)
                         in copy_fragmented ts (drop n src) (off1 + n) (written + n) (buf_write off1 (take n src) wc1))
              else (let n = min (length src) space
                    in copy_fragmented ts (drop n src) (off + n) (written + n) (buf_write off (take n src) wc)))"

section \<open>Handing buffers over\<close>

text \<open>\<open>core_push\<close>, the destructor's handoff.\<close>

definition core_push :: "'c wc \<Rightarrow> 'c wc" where
  "core_push wc = (case wc of (w, c) \<Rightarrow>
     (let (w1, c1) =
        (if w_frags w \<noteq> [] then
           (let fr = w_frags w @ (case w_buffer w of Some b \<Rightarrow> [b] | None \<Rightarrow> []);
                (rest, c1) = submit_chain fr c
            in (w\<lparr>w_frags := rest, w_buffer := None\<rparr>, c1))
         else (case w_buffer w of
                 Some b \<Rightarrow> (w\<lparr>w_buffer := None\<rparr>, submit_buffer (Some b) c)
               | None \<Rightarrow> (w, c)))
      in (w1\<lparr>w_used := 0\<rparr>, c1)))"

text \<open>\<open>pull\<close>: append everything held, in write order, to the worker's batch.\<close>

definition pull_writer :: "addr list \<Rightarrow> writer \<Rightarrow> addr list \<times> writer" where
  "pull_writer io w =
     (case w_buffer w of
        Some b \<Rightarrow> (io @ w_frags w @ [b], w\<lparr>w_frags := [], w_buffer := None, w_used := 0\<rparr>)
      | None \<Rightarrow> (io @ w_frags w, w\<lparr>w_frags := []\<rparr>))"

definition pull_dropped :: "writer \<Rightarrow> drop_stats \<times> writer" where
  "pull_dropped w =
     (\<lparr>mu_logs = w_drop_logs w, mu_metrics = w_drop_metrics w, mu_traces = w_drop_traces w, mu_svc = 0\<rparr>,
      w\<lparr>w_drop_logs := 0, w_drop_metrics := 0, w_drop_traces := 0\<rparr>)"

text \<open>The destructor, but for leaving the registry: push, flush the drop counts.\<close>

definition writer_close :: "'c wc \<Rightarrow> 'c wc" where
  "writer_close wc = (let (w, c) = core_push wc; (d, w1) = pull_dropped w in (w1, accumulate_dropped d c))"

text \<open>
  \<open>serialize_utf8_string\<close>: a 16-bit length and at most 65535 bytes, or nothing (\<open>None\<close> for the
  result 0) when they do not fit. \<open>None\<close> as the string is the null pointer.
\<close>

definition clamp16 :: "nat \<Rightarrow> nat" where "clamp16 n = (if 65535 < n then 65535 else n)"

definition str_bytes :: "byte list option \<Rightarrow> byte list" where
  "str_bytes s = (case s of None \<Rightarrow> [] | Some bs \<Rightarrow> take (clamp16 (length bs)) bs)"

definition enc_str :: "byte list option \<Rightarrow> byte list" where
  "enc_str s = le_bytes 2 (length (str_bytes s)) @ str_bytes s"

definition serialize_utf8_string :: "nat \<Rightarrow> byte list option \<Rightarrow> byte list option" where
  "serialize_utf8_string avail s = (if avail < length (enc_str s) then None else Some (enc_str s))"

section \<open>What the buffers hold\<close>

definition hdr :: "'c core_scheme \<Rightarrow> addr \<Rightarrow> buf_hdr" where
  "hdr c b = dec_buf_hdr (c_mem c b)"

text \<open>The data part of a finished buffer: what its header's size says, without the header.\<close>

definition payload :: "'c core_scheme \<Rightarrow> addr \<Rightarrow> byte list" where
  "payload c b = sub_bytes sz_buf_hdr (unat (bh_size (hdr c b)) - sz_buf_hdr) (c_mem c b)"

definition payloads :: "'c core_scheme \<Rightarrow> addr list \<Rightarrow> byte list" where
  "payloads c bs = concat (map (payload c) bs)"

text \<open>Everything a writer holds, read in order up to the cursor.\<close>

definition rec_stream :: "'c wc \<Rightarrow> nat \<Rightarrow> byte list" where
  "rec_stream wc off = payloads (snd wc) (w_frags (fst wc)) @
     (case w_buffer (fst wc) of None \<Rightarrow> [] | Some b \<Rightarrow> sub_bytes sz_buf_hdr (off - sz_buf_hdr) (c_mem (snd wc) b))"

definition frag_ok :: "nat \<Rightarrow> buf_hdr \<Rightarrow> bool" where
  "frag_ok mx h \<longleftrightarrow> sz_buf_hdr \<le> unat (bh_size h) \<and> unat (bh_size h) \<le> mx"

text \<open>
  The writer invariant at a cursor: the core is sound, every buffer held is the writer's own
  and held once, the parked ones are complete, and the cursor is inside the current buffer.
\<close>

definition held_bufs :: "writer \<Rightarrow> addr list" where
  "held_bufs w = w_frags w @ (case w_buffer w of None \<Rightarrow> [] | Some b \<Rightarrow> [b])"

definition writer_ok :: "'c wc \<Rightarrow> bool" where
  "writer_ok wc \<longleftrightarrow> core_ok (snd wc) \<and> w_max (fst wc) = pl_bufsz (c_pool (snd wc)) \<and>
     sz_buf_hdr < w_max (fst wc) \<and> w_max (fst wc) < 65536 \<and>
     distinct (held_bufs (fst wc)) \<and> set (held_bufs (fst wc)) \<subseteq> core_owned (snd wc) \<and>
     (\<forall>b\<in>set (w_frags (fst wc)). frag_ok (w_max (fst wc)) (hdr (snd wc) b))"

definition at_cursor :: "'c wc \<Rightarrow> nat \<Rightarrow> bool" where
  "at_cursor wc off \<longleftrightarrow> w_buffer (fst wc) \<noteq> None \<and> sz_buf_hdr \<le> off \<and> off \<le> w_max (fst wc)"

lemma hdr_mem_cong: "c_mem c' b = c_mem c b \<Longrightarrow> hdr c' b = hdr c b"
  by (simp add: hdr_def)

lemma payload_mem_cong: "c_mem c' b = c_mem c b \<Longrightarrow> payload c' b = payload c b"
  by (simp add: payload_def hdr_def)

lemma payloads_mem_cong:
  assumes "\<forall>b\<in>set bs. c_mem c' b = c_mem c b"
  shows "payloads c' bs = payloads c bs"
proof -
  have "map (payload c') bs = map (payload c) bs"
    using assms by (intro map_cong refl payload_mem_cong) simp
  then show ?thesis by (simp only: payloads_def)
qed

lemma payloads_append [simp]: "payloads c (xs @ ys) = payloads c xs @ payloads c ys"
  by (simp add: payloads_def)

lemma payloads_Nil [simp]: "payloads c [] = []"
  by (simp add: payloads_def)

lemma payloads_Cons [simp]: "payloads c (b # bs) = payload c b @ payloads c bs"
  by (simp add: payloads_def)

text \<open>What the rest of a record's serialisation leaves as it was.\<close>

definition same_writer :: "'c wc \<Rightarrow> 'c wc \<Rightarrow> bool" where
  "same_writer wc wc' \<longleftrightarrow> w_max (fst wc') = w_max (fst wc) \<and> w_tid (fst wc') = w_tid (fst wc) \<and>
     w_drop_logs (fst wc') = w_drop_logs (fst wc) \<and> w_drop_metrics (fst wc') = w_drop_metrics (fst wc) \<and>
     w_drop_traces (fst wc') = w_drop_traces (fst wc) \<and> c_ub (snd wc') = c_ub (snd wc) \<and>
     c_initialized (snd wc') = c_initialized (snd wc) \<and> core.more (snd wc') = core.more (snd wc) \<and>
     core_owned (snd wc) \<subseteq> core_owned (snd wc')"

text \<open>How far a held buffer is filled: to the cursor, or to what its header says.\<close>

definition live_end :: "'c wc \<Rightarrow> nat \<Rightarrow> addr \<Rightarrow> nat" where
  "live_end wc off b = (if w_buffer (fst wc) = Some b then off else unat (bh_size (hdr (snd wc) b)))"

text \<open>
  \<open>extends wc off wc' off' bs\<close>: serialisation got from one cursor to the next, the stream grew
  by \<open>bs\<close>, and only buffers behind the old current one were added, each flagged as continued.
\<close>

definition extends :: "'c wc \<Rightarrow> nat \<Rightarrow> 'c wc \<Rightarrow> nat \<Rightarrow> byte list \<Rightarrow> bool" where
  "extends wc off wc' off' bs \<longleftrightarrow> writer_ok wc' \<and> at_cursor wc' off' \<and> same_writer wc wc' \<and>
     rec_stream wc' off' = rec_stream wc off @ bs \<and>
     (\<exists>ys. held_bufs (fst wc') = held_bufs (fst wc) @ ys) \<and>
     (\<forall>b\<in>set (w_frags (fst wc')). b \<in> set (w_frags (fst wc)) \<or> P8_DATA_FLAG_FRAGMENT AND bh_flags (hdr (snd wc') b) = P8_DATA_FLAG_FRAGMENT) \<and>
     (\<forall>b\<in>set (w_frags (fst wc)). c_mem (snd wc') b = c_mem (snd wc) b) \<and>
     (\<forall>b. w_buffer (fst wc) = Some b \<longrightarrow> off \<le> live_end wc' off' b)"

text \<open>\<open>fails wc off wc' bs\<close>: no buffer was to be had; what was written so far is parked.\<close>

definition fails :: "'c wc \<Rightarrow> nat \<Rightarrow> 'c wc \<Rightarrow> byte list \<Rightarrow> bool" where
  "fails wc off wc' bs \<longleftrightarrow> writer_ok wc' \<and> w_buffer (fst wc') = None \<and> same_writer wc wc' \<and>
     rec_stream wc' 0 = rec_stream wc off @ bs \<and>
     (\<exists>ys. held_bufs (fst wc') = held_bufs (fst wc) @ ys) \<and>
     (\<forall>b\<in>set (w_frags (fst wc)). c_mem (snd wc') b = c_mem (snd wc) b)"

lemma same_writer_refl [simp]: "same_writer wc wc"
  by (simp add: same_writer_def)

lemma same_writer_trans: "same_writer a b \<Longrightarrow> same_writer b c \<Longrightarrow> same_writer a c"
  by (auto simp: same_writer_def)

lemma extends_refl: "writer_ok wc \<Longrightarrow> at_cursor wc off \<Longrightarrow> extends wc off wc off []"
  by (simp add: extends_def live_end_def)

lemma frags_in_held:
  assumes "held_bufs w' = held_bufs w @ ys" "w_buffer w \<noteq> None"
  shows "set (w_frags w) \<subseteq> set (w_frags w')"
proof -
  obtain b where b: "w_buffer w = Some b" using assms(2) by auto
  then have h: "held_bufs w' = w_frags w @ b # ys" using assms(1) by (simp add: held_bufs_def)
  show ?thesis
  proof (cases "w_buffer w'")
    case None
    then show ?thesis using h by (auto simp: held_bufs_def)
  next
    case (Some d)
    then have "w_frags w' @ [d] = (w_frags w) @ (b # ys)" using h by (simp add: held_bufs_def)
    then have "w_frags w' = w_frags w @ butlast (b # ys)"
      by (metis butlast_append butlast_snoc list.distinct(1))
    then show ?thesis by auto
  qed
qed

section \<open>Each step extends the stream\<close>

lemma sub_bytes_snoc_put:
  assumes "24 \<le> off" "off + length bs \<le> length m"
  shows "sub_bytes 24 (off + length bs - 24) (put_bytes off bs m) = sub_bytes 24 (off - 24) m @ bs"
proof -
  have "sub_bytes 24 (off - 24 + length bs) (put_bytes off bs m) =
      sub_bytes 24 (off - 24) (put_bytes off bs m) @ sub_bytes (24 + (off - 24)) (length bs) (put_bytes off bs m)"
    by (rule sub_bytes_split)
  then show ?thesis using assms by (simp add: sub_put_below sub_put_same)
qed

lemma core_ok_mem:
  assumes "core_ok c" "length m = length (c_mem c b)"
  shows "core_ok (c\<lparr>c_mem := (c_mem c)(b := m)\<rparr>)"
  using assms by (simp add: core_ok_def)

lemma core_owned_mem [simp]: "core_owned (c\<lparr>c_mem := m\<rparr>) = core_owned c"
  by (simp add: core_owned_def)

text \<open>Writing at the cursor when the bytes fit.\<close>

lemma buf_write_extends:
  assumes ok: "writer_ok (w, c)" and cur: "at_cursor (w, c) off" and fit: "off + length bs \<le> w_max w"
  shows "extends (w, c) off (buf_write off bs (w, c)) (off + length bs) bs"
proof -
  obtain b where b: "w_buffer w = Some b" and off: "24 \<le> off" using cur by (auto simp: at_cursor_def)
  have len: "length (c_mem c b) = w_max w" using ok by (simp add: writer_ok_def core_ok_def)
  let ?c = "c\<lparr>c_mem := (c_mem c)(b := put_bytes off bs (c_mem c b))\<rparr>"
  have w: "buf_write off bs (w, c) = (w, ?c)" using b fit len by (simp add: buf_write_def mem_write_def)
  have notin: "b \<notin> set (w_frags w)" using ok b by (simp add: writer_ok_def held_bufs_def)
  then have frags: "\<forall>f\<in>set (w_frags w). c_mem ?c f = c_mem c f" by auto
  have "core_ok ?c" using ok fit len by (intro core_ok_mem) (simp_all add: writer_ok_def)
  moreover have "\<forall>f\<in>set (w_frags w). hdr ?c f = hdr c f" using frags hdr_mem_cong by blast
  ultimately have "writer_ok (w, ?c)" using ok unfolding writer_ok_def by auto
  moreover have "rec_stream (w, ?c) (off + length bs) = rec_stream (w, c) off @ bs"
    using b payloads_mem_cong [OF frags] sub_bytes_snoc_put [OF off, of bs "c_mem c b"] fit len
    by (simp add: rec_stream_def)
  ultimately show ?thesis
    unfolding w using cur fit frags by (auto simp: extends_def same_writer_def at_cursor_def live_end_def)
qed

text \<open>Parking the current buffer, the common part of both outcomes of a rotation.\<close>

definition parked :: "nat \<Rightarrow> u64 \<Rightarrow> addr \<Rightarrow> 'c core_scheme \<Rightarrow> 'c core_scheme" where
  "parked off ts b c = c\<lparr>c_mem := (c_mem c)(b := upd_buf_hdr (finalize_fragment off ts) (c_mem c b))\<rparr>"

lemma parked_state:
  assumes ok: "writer_ok (w, c)" and cur: "at_cursor (w, c) off" and b: "w_buffer w = Some b"
  shows "core_ok (parked off ts b c)" "core_owned (parked off ts b c) = core_owned c"
    "payload (parked off ts b c) b = sub_bytes 24 (off - 24) (c_mem c b)"
    "frag_ok (w_max w) (hdr (parked off ts b c) b)"
    "P8_DATA_FLAG_FRAGMENT AND bh_flags (hdr (parked off ts b c) b) = P8_DATA_FLAG_FRAGMENT"
    "\<forall>f\<in>set (w_frags w). c_mem (parked off ts b c) f = c_mem c f"
    "unat (bh_size (hdr (parked off ts b c) b)) = off"
proof -
  have len: "length (c_mem c b) = w_max w" and mx: "24 < w_max w" "w_max w < 65536"
    using ok by (simp_all add: writer_ok_def core_ok_def)
  have off: "24 \<le> off" "off \<le> w_max w" using cur by (simp_all add: at_cursor_def)
  have sz: "unat (of_nat off :: u16) = off" using off mx by (intro unat_of_nat_u16) simp
  show "core_ok (parked off ts b c)"
    using ok len mx unfolding parked_def by (intro core_ok_mem) (simp_all add: writer_ok_def)
  show "core_owned (parked off ts b c) = core_owned c" by (simp add: parked_def)
  have h: "hdr (parked off ts b c) b = finalize_fragment off ts (hdr c b)" by (simp add: hdr_def parked_def)
  show "payload (parked off ts b c) b = sub_bytes 24 (off - 24) (c_mem c b)"
    using sz len mx unfolding payload_def h
    by (simp add: finalize_fragment_def parked_def sub_upd_buf_hdr)
  show "frag_ok (w_max w) (hdr (parked off ts b c) b)" unfolding h using sz off by (simp add: finalize_fragment_def frag_ok_def)
  show "P8_DATA_FLAG_FRAGMENT AND bh_flags (hdr (parked off ts b c) b) = P8_DATA_FLAG_FRAGMENT"
    unfolding h by (simp add: finalize_fragment_def bit.conj_disj_distrib word_bw_assocs)
  show "unat (bh_size (hdr (parked off ts b c) b)) = off" unfolding h using sz by (simp add: finalize_fragment_def)
  have "b \<notin> set (w_frags w)" using ok b by (simp add: writer_ok_def held_bufs_def)
  then show "\<forall>f\<in>set (w_frags w). c_mem (parked off ts b c) f = c_mem c f" by (auto simp: parked_def)
qed

lemma acquire_buffer_more: "acquire_buffer w c = (r, c') \<Longrightarrow> core.more c' = core.more c"
  by (auto simp: acquire_buffer_def Let_def notify_pressure_def notify_def split: if_splits prod.splits option.splits)

lemma acquired_writer:
  assumes "core_ok c" "acquire_buffer False c = (Acquired n, c')" "set bs \<subseteq> core_owned c"
  shows "core_ok c'" "n \<notin> set bs" "core_owned c' = insert n (core_owned c)" "c_mem c' = c_mem c"
    "c_ub c' = c_ub c" "c_initialized c' = c_initialized c" "pl_bufsz (c_pool c') = pl_bufsz (c_pool c)"
    "core.more c' = core.more c"
proof -
  have acq: "acquire_no_lock (c_pool c) = (Some n, c_pool c')" using acquire_buffer_pool(5) [OF assms(2)] by simp
  then show "pl_bufsz (c_pool c') = pl_bufsz (c_pool c)" by (rule acquire_no_lock_frame)
qed (use source.acquired [OF assms(1,2)] acquire_buffer_pool(2,3) [OF assms(2)] acquire_buffer_more [OF assms(2)] assms(3) in auto)

lemma refused_writer:
  assumes "core_ok c" "acquire_buffer False c = (r, c')" "\<forall>n. r \<noteq> Acquired n"
  shows "core_ok c'" "core_owned c' = core_owned c" "c_mem c' = c_mem c"
    "c_ub c' = c_ub c" "c_initialized c' = c_initialized c" "pl_bufsz (c_pool c') = pl_bufsz (c_pool c)"
    "core.more c' = core.more c"
proof -
  show "pl_bufsz (c_pool c') = pl_bufsz (c_pool c)"
    using acquire_buffer_pool(6) [OF assms(2,3)] acquire_no_lock_frame(3) by auto
qed (use source.refused [OF assms] acquire_buffer_pool(2,3) [OF assms(2)] acquire_buffer_more [OF assms(2)] in auto)

text \<open>Rotation succeeds: the stream is unchanged, the cursor is behind the new header.\<close>

lemma rotate_ok:
  assumes ok: "writer_ok (w, c)" and cur: "at_cursor (w, c) off"
    and rot: "rotate_fragment_buffer ts (w\<lparr>w_used := off\<rparr>, c) = (True, wc')"
  shows "extends (w, c) off wc' 24 []" and "w_used (fst wc') = 24"
    and "\<exists>b. w_buffer w = Some b \<and> w_frags (fst wc') = w_frags w @ [b]"
proof -
  obtain b where b: "w_buffer w = Some b" using cur by (auto simp: at_cursor_def)
  note park = parked_state [OF ok cur b, of ts]
  let ?c1 = "parked off ts b c" and ?ty = "bh_packet_type (dec_buf_hdr (c_mem c b))"
  obtain n c2 where acq: "acquire_buffer False ?c1 = (Acquired n, c2)"
    and wc': "wc' = (w\<lparr>w_used := 24, w_frags := w_frags w @ [b], w_buffer := Some n\<rparr>,
      mem_write n 0 (enc_buf_hdr (data_hdr ?ty (w_tid w) ts)) c2)"
    using rot b by (auto simp: rotate_fragment_buffer_def Let_def parked_def split: prod.splits acquire_result.splits)
  have own: "set (w_frags w @ [b]) \<subseteq> core_owned ?c1" and dist: "distinct (w_frags w @ [b])"
    using ok b park(2) by (simp_all add: writer_ok_def held_bufs_def)
  note new = acquired_writer [OF park(1) acq own]
  have mx: "w_max w = pl_bufsz (c_pool c)" "24 < w_max w" "w_max w < 65536" using ok by (simp_all add: writer_ok_def)
  have sz: "pl_bufsz (c_pool c2) = w_max w" using new(7) mx by (simp add: parked_def)
  let ?c3 = "c2\<lparr>c_mem := (c_mem c2)(n := put_bytes 0 (enc_buf_hdr (data_hdr ?ty (w_tid w) ts)) (c_mem c2 n))\<rparr>"
  have len: "length (c_mem c2 n) = w_max w" using new(1) sz by (simp add: core_ok_def)
  have c3: "snd wc' = ?c3" using wc' len mx by (simp add: mem_write_def)
  have mem: "\<forall>f\<in>set (w_frags w @ [b]). c_mem ?c3 f = c_mem ?c1 f" using new(2,4) by auto
  have ok3: "core_ok ?c3" using new(1) len mx by (intro core_ok_mem) simp_all
  have frag: "\<forall>f\<in>set (w_frags w @ [b]). frag_ok (w_max w) (hdr ?c3 f)"
  proof
    fix f
    assume f: "f \<in> set (w_frags w @ [b])"
    show "frag_ok (w_max w) (hdr ?c3 f)"
    proof (cases "f = b")
      case True
      then show ?thesis using mem park(4) f hdr_mem_cong [of ?c3 b ?c1] by auto
    next
      case False
      then have "c_mem ?c3 f = c_mem c f" using f mem park(6) by auto
      then have "hdr ?c3 f = hdr c f" by (rule hdr_mem_cong)
      moreover have "frag_ok (w_max w) (hdr c f)" using ok f False unfolding writer_ok_def by auto
      ultimately show ?thesis by simp
    qed
  qed
  have held: "held_bufs (fst wc') = w_frags w @ [b] @ [n]" using wc' by (simp add: held_bufs_def)
  have "writer_ok wc'"
    unfolding writer_ok_def held c3 using ok3 sz mx frag own dist new(2,3) wc' by auto
  moreover have "rec_stream wc' 24 = rec_stream (w, c) off @ []"
  proof -
    have "payloads ?c3 (w_frags w @ [b]) = payloads ?c1 (w_frags w @ [b])" by (rule payloads_mem_cong [OF mem])
    moreover have "payloads ?c1 (w_frags w) = payloads c (w_frags w)" by (rule payloads_mem_cong [OF park(6)])
    ultimately show ?thesis using wc' c3 b park(3) by (simp add: rec_stream_def)
  qed
  moreover have "same_writer (w, c) wc'"
    unfolding same_writer_def c3 using wc' new park(2) by (auto simp: parked_def)
  moreover have "\<forall>f\<in>set (w_frags (fst wc')). f \<in> set (w_frags w) \<or>
      P8_DATA_FLAG_FRAGMENT AND bh_flags (hdr (snd wc') f) = P8_DATA_FLAG_FRAGMENT"
    using wc' c3 mem park(5) hdr_mem_cong [of ?c3 b ?c1] by auto
  moreover have "\<forall>f\<in>set (w_frags w). c_mem (snd wc') f = c_mem c f"
    using c3 mem park(6) by auto
  moreover have "off \<le> live_end wc' 24 b"
  proof -
    have "hdr (snd wc') b = hdr ?c1 b" using c3 mem by (intro hdr_mem_cong) simp
    then have "unat (bh_size (hdr (snd wc') b)) = off" using park(7) by simp
    then show ?thesis using wc' new(2) by (auto simp: live_end_def)
  qed
  ultimately show "extends (w, c) off wc' 24 []"
    using held wc' mx b by (auto simp: extends_def at_cursor_def held_bufs_def)
  show "w_used (fst wc') = 24" "\<exists>b. w_buffer w = Some b \<and> w_frags (fst wc') = w_frags w @ [b]"
    using wc' b by simp_all
qed

text \<open>Rotation fails: what was written is parked and there is no current buffer.\<close>

lemma rotate_fails:
  assumes ok: "writer_ok (w, c)" and cur: "at_cursor (w, c) off"
    and rot: "rotate_fragment_buffer ts (w\<lparr>w_used := off\<rparr>, c) = (False, wc')"
  shows "fails (w, c) off wc' []"
proof -
  obtain b where b: "w_buffer w = Some b" using cur by (auto simp: at_cursor_def)
  note park = parked_state [OF ok cur b, of ts]
  let ?c1 = "parked off ts b c"
  obtain r c2 where acq: "acquire_buffer False ?c1 = (r, c2)" "\<forall>n. r \<noteq> Acquired n"
    and wc': "wc' = (w\<lparr>w_used := off, w_frags := w_frags w @ [b], w_buffer := None\<rparr>, c2)"
    using rot b by (auto simp: rotate_fragment_buffer_def Let_def parked_def split: prod.splits acquire_result.splits)
  note new = refused_writer [OF park(1) acq]
  have mx: "w_max w = pl_bufsz (c_pool c)" "24 < w_max w" "w_max w < 65536" using ok by (simp_all add: writer_ok_def)
  have held: "held_bufs (fst wc') = held_bufs w" using wc' b by (simp add: held_bufs_def)
  have frag: "\<forall>f\<in>set (w_frags w @ [b]). frag_ok (w_max w) (hdr c2 f)"
  proof
    fix f
    assume f: "f \<in> set (w_frags w @ [b])"
    show "frag_ok (w_max w) (hdr c2 f)"
    proof (cases "f = b")
      case True
      then show ?thesis using new(3) park(4) by (simp add: hdr_def)
    next
      case False
      then have "c_mem c2 f = c_mem c f" using f new(3) park(6) by auto
      then have "hdr c2 f = hdr c f" by (rule hdr_mem_cong)
      moreover have "frag_ok (w_max w) (hdr c f)" using ok f False unfolding writer_ok_def by auto
      ultimately show ?thesis by simp
    qed
  qed
  have "writer_ok wc'"
    unfolding writer_ok_def held using ok frag wc' new park(2) mx
    by (auto simp: writer_ok_def parked_def)
  moreover have "rec_stream wc' 0 = rec_stream (w, c) off @ []"
  proof -
    have "payloads c2 (w_frags w @ [b]) = payloads ?c1 (w_frags w @ [b])"
      by (rule payloads_mem_cong) (simp add: new(3))
    moreover have "payloads ?c1 (w_frags w) = payloads c (w_frags w)" by (rule payloads_mem_cong [OF park(6)])
    ultimately show ?thesis using wc' b park(3) by (simp add: rec_stream_def)
  qed
  moreover have "same_writer (w, c) wc'"
    unfolding same_writer_def using wc' new park(2) by (auto simp: parked_def)
  moreover have "\<forall>f\<in>set (w_frags w). c_mem (snd wc') f = c_mem c f"
    using wc' new(3) park(6) by simp
  ultimately show ?thesis using held wc' by (auto simp: fails_def)
qed

lemma extends_live_end:
  assumes 1: "extends wc off wc1 off1 xs" and 2: "extends wc1 off1 wc2 off2 ys" and b: "w_buffer (fst wc) = Some b"
  shows "off \<le> live_end wc2 off2 b"
proof -
  have l1: "off \<le> live_end wc1 off1 b" using 1 b by (simp add: extends_def)
  show ?thesis
  proof (cases "w_buffer (fst wc1) = Some b")
    case True
    have "off1 \<le> live_end wc2 off2 b" using 2 True by (simp add: extends_def)
    then show ?thesis using l1 True by (simp add: live_end_def)
  next
    case False
    have "b \<in> set (held_bufs (fst wc))" using b by (simp add: held_bufs_def)
    then have "b \<in> set (held_bufs (fst wc1))" using 1 by (auto simp: extends_def)
    then have in1: "b \<in> set (w_frags (fst wc1))" using False by (auto simp: held_bufs_def split: option.splits)
    obtain zs where zs: "held_bufs (fst wc2) = held_bufs (fst wc1) @ zs" using 2 by (auto simp: extends_def)
    have cur1: "w_buffer (fst wc1) \<noteq> None" using 1 by (simp add: extends_def at_cursor_def)
    have "b \<in> set (w_frags (fst wc2))" using frags_in_held [OF zs cur1] in1 by blast
    moreover have "distinct (held_bufs (fst wc2))" using 2 by (simp add: extends_def writer_ok_def)
    ultimately have nb: "w_buffer (fst wc2) \<noteq> Some b" by (auto simp: held_bufs_def)
    have "c_mem (snd wc2) b = c_mem (snd wc1) b" using 2 in1 by (simp add: extends_def)
    then have "hdr (snd wc2) b = hdr (snd wc1) b" by (rule hdr_mem_cong)
    then show ?thesis using l1 nb False by (simp add: live_end_def)
  qed
qed

lemma extends_trans:
  "extends wc off wc1 off1 xs \<Longrightarrow> extends wc1 off1 wc2 off2 ys \<Longrightarrow> at_cursor wc off \<Longrightarrow> extends wc off wc2 off2 (xs @ ys)"
proof -
  assume 1: "extends wc off wc1 off1 xs" and 2: "extends wc1 off1 wc2 off2 ys" and cur: "at_cursor wc off"
  have sub: "set (w_frags (fst wc)) \<subseteq> set (w_frags (fst wc1))"
    using 1 cur frags_in_held by (fastforce simp: extends_def at_cursor_def)
  have "\<forall>b\<in>set (w_frags (fst wc2)). b \<in> set (w_frags (fst wc)) \<or>
      P8_DATA_FLAG_FRAGMENT AND bh_flags (hdr (snd wc2) b) = P8_DATA_FLAG_FRAGMENT"
  proof
    fix b
    assume b: "b \<in> set (w_frags (fst wc2))"
    show "b \<in> set (w_frags (fst wc)) \<or> P8_DATA_FLAG_FRAGMENT AND bh_flags (hdr (snd wc2) b) = P8_DATA_FLAG_FRAGMENT"
    proof (cases "b \<in> set (w_frags (fst wc1))")
      case True
      then have "c_mem (snd wc2) b = c_mem (snd wc1) b" using 2 by (auto simp: extends_def)
      then have "hdr (snd wc2) b = hdr (snd wc1) b" by (rule hdr_mem_cong)
      then show ?thesis using 1 True by (auto simp: extends_def)
    next
      case False
      then show ?thesis using 2 b by (auto simp: extends_def)
    qed
  qed
  moreover have "\<forall>b\<in>set (w_frags (fst wc)). c_mem (snd wc2) b = c_mem (snd wc) b"
    using 1 2 sub by (auto simp: extends_def)
  moreover have "\<forall>b. w_buffer (fst wc) = Some b \<longrightarrow> off \<le> live_end wc2 off2 b"
    using extends_live_end [OF 1 2] by blast
  moreover have "same_writer wc wc2" using 1 2 same_writer_trans unfolding extends_def by blast
  moreover have "\<exists>zs. held_bufs (fst wc2) = held_bufs (fst wc) @ zs" using 1 2 by (auto simp: extends_def)
  moreover have "rec_stream wc2 off2 = rec_stream wc off @ xs @ ys" using 1 2 by (simp add: extends_def)
  moreover have "writer_ok wc2" "at_cursor wc2 off2" using 2 by (simp_all add: extends_def)
  ultimately show ?thesis unfolding extends_def by blast
qed

lemma extends_fails:
  assumes 1: "extends wc off wc1 off1 xs" and 2: "fails wc1 off1 wc2 ys" and cur: "at_cursor wc off"
  shows "fails wc off wc2 (xs @ ys)"
proof -
  have "set (w_frags (fst wc)) \<subseteq> set (w_frags (fst wc1))"
    using 1 cur frags_in_held by (fastforce simp: extends_def at_cursor_def)
  then have "\<forall>b\<in>set (w_frags (fst wc)). c_mem (snd wc2) b = c_mem (snd wc) b"
    using 1 2 by (auto simp: extends_def fails_def)
  then show ?thesis
    using 1 2 unfolding extends_def fails_def by (auto intro: same_writer_trans)
qed

lemma extendsD:
  assumes "extends wc off wc' off' bs"
  shows "writer_ok wc'" "at_cursor wc' off'" "w_max (fst wc') = w_max (fst wc)"
  using assms by (auto simp: extends_def same_writer_def)

lemma ensure_space_spec:
  assumes ok: "writer_ok wc" and cur: "at_cursor wc off" and fit: "n + 24 \<le> w_max (fst wc)"
    and run: "ensure_space n ts off wc = (r, wc')"
  shows "case r of Some off' \<Rightarrow> extends wc off wc' off' [] \<and> off' + n \<le> w_max (fst wc') | None \<Rightarrow> fails wc off wc' []"
proof (cases "w_max (fst wc) < off + n")
  case False
  then have "r = Some off" "wc' = wc" using run by (simp_all add: ensure_space_def)
  then show ?thesis using False ok cur extends_refl by simp
next
  case True
  obtain w c where wc: "wc = (w, c)" by fastforce
  obtain g wc1 where rot: "rotate_fragment_buffer ts (w\<lparr>w_used := off\<rparr>, c) = (g, wc1)" by (meson surj_pair)
  show ?thesis
  proof (cases g)
    case False
    then have "r = None" "wc' = wc1" using run True rot wc by (simp_all add: ensure_space_def)
    then show ?thesis using rotate_fails [of w c off ts wc1] ok cur rot False wc by simp
  next
    case True
    then have rotT: "rotate_fragment_buffer ts (w\<lparr>w_used := off\<rparr>, c) = (True, wc1)" using rot by simp
    note g = rotate_ok [OF ok [unfolded wc] cur [unfolded wc] rotT]
    have "r = Some 24" "wc' = wc1" using run \<open>w_max (fst wc) < off + n\<close> rot wc True g(2) by (simp_all add: ensure_space_def)
    then show ?thesis using g(1) fit extendsD(3) [OF g(1)] wc by simp
  qed
qed

text \<open>
  \<open>copy_fragmented\<close> returns: either every source byte is in the stream, or a prefix of them and
  the writer has no buffer. It counts in \<open>oz_written\<close> exactly the bytes it copied.
\<close>

definition copy_post :: "byte list \<Rightarrow> nat \<Rightarrow> 'c wc \<Rightarrow> nat \<Rightarrow> nat option \<times> nat \<times> 'c wc \<Rightarrow> bool" where
  "copy_post src off wc written res = (case res of (r, written', wc') \<Rightarrow>
     (case r of
        Some off' \<Rightarrow> extends wc off wc' off' src \<and> written' = written + length src
      | None \<Rightarrow> \<exists>k < length src. fails wc off wc' (take k src) \<and> written' = written + k))"

lemma copy_post_step:
  assumes ext: "extends wc off wc1 off1 (take n src)" and cur: "at_cursor wc off" and n: "n \<le> length src"
    and post: "copy_post (drop n src) off1 wc1 (written + n) res"
  shows "copy_post src off wc written res"
proof -
  obtain r written' wc' where res: "res = (r, written', wc')" by (cases res)
  show ?thesis
  proof (cases r)
    case (Some off')
    then have "extends wc1 off1 wc' off' (drop n src)" "written' = written + length src"
      using post n by (simp_all add: copy_post_def res)
    then show ?thesis using extends_trans [OF ext _ cur, of wc' off' "drop n src"] res Some
      by (simp add: copy_post_def)
  next
    case None
    then obtain k where k: "k < length src - n" "fails wc1 off1 wc' (take k (drop n src))" "written' = written + n + k"
      using post by (auto simp: copy_post_def res)
    then have "fails wc off wc' (take n src @ take k (drop n src))" using extends_fails [OF ext _ cur] by blast
    then have "fails wc off wc' (take (n + k) src)" by (simp add: take_add)
    then show ?thesis using k res None by (auto simp: copy_post_def intro!: exI [of _ "n + k"])
  qed
qed

lemma size_sub_cursor: "at_cursor wc off \<Longrightarrow> writer_ok wc \<Longrightarrow> size_sub (w_max (fst wc)) off = w_max (fst wc) - off"
  by (auto simp: at_cursor_def writer_ok_def size_sub_def)

lemma less_drop: "0 < n \<Longrightarrow> n \<le> length xs \<Longrightarrow> length (drop n xs) < length xs"
  by simp

lemma copy_fragmented_spec:
  assumes "writer_ok wc" and "at_cursor wc off"
  shows "\<exists>res. copy_fragmented ts src off written wc = Some res \<and> copy_post src off wc written res"
  using assms
proof (induction "length src" arbitrary: src off written wc rule: less_induct)
  case less
  show ?case
  proof (cases "src = []")
    case True
    then show ?thesis using less.prems extends_refl
      by (subst copy_fragmented.simps) (simp add: copy_post_def)
  next
    case src: False
    note sub = size_sub_cursor [OF less.prems(2,1)]
    obtain w c where wc: "wc = (w, c)" by fastforce
    have mx: "24 < w_max w" using less.prems(1) wc by (simp add: writer_ok_def)
    show ?thesis
    proof (cases "w_max w - off = 0")
      case False
      let ?n = "min (length src) (w_max w - off)"
      have n: "0 < ?n" "?n \<le> length src" using src False by auto
      have ext: "extends (w, c) off (buf_write off (take ?n src) (w, c)) (off + ?n) (take ?n src)"
        using buf_write_extends [of w c off "take ?n src"] less.prems wc False by (simp add: at_cursor_def)
      obtain res where res: "copy_fragmented ts (drop ?n src) (off + ?n) (written + ?n) (buf_write off (take ?n src) (w, c)) = Some res"
        "copy_post (drop ?n src) (off + ?n) (buf_write off (take ?n src) (w, c)) (written + ?n) res"
        using less.hyps [OF less_drop [OF n] extendsD(1,2) [OF ext]] by blast
      have "copy_fragmented ts src off written wc = Some res"
        using res(1) src sub wc False by (subst copy_fragmented.simps) (simp add: Let_def)
      then show ?thesis using copy_post_step [OF ext _ n(2) res(2)] less.prems(2) wc by auto
    next
      case full: True
      obtain g wc1 where rot: "rotate_fragment_buffer ts (w\<lparr>w_used := off\<rparr>, c) = (g, wc1)" by (meson surj_pair)
      show ?thesis
      proof (cases g)
        case False
        have "copy_fragmented ts src off written wc = Some (None, written, wc1)"
          using src sub wc full rot False by (subst copy_fragmented.simps) simp
        moreover have "fails wc off wc1 []"
          using rotate_fails [of w c off ts wc1] less.prems wc rot False by simp
        ultimately show ?thesis using src by (auto simp: copy_post_def)
      next
        case True
        then have rotT: "rotate_fragment_buffer ts (w\<lparr>w_used := off\<rparr>, c) = (True, wc1)" using rot by simp
        note g = rotate_ok [OF less.prems [unfolded wc] rotT]
        obtain w1 c1 where wc1: "wc1 = (w1, c1)" by fastforce
        have w1: "w_used w1 = 24" "w_max w1 = w_max w" using g(2) extendsD(3) [OF g(1)] wc1 by simp_all
        let ?n = "min (length src) (w_max w - 24)"
        have n: "0 < ?n" "?n \<le> length src" using src mx by auto
        have "extends (w1, c1) 24 (buf_write 24 (take ?n src) (w1, c1)) (24 + ?n) (take ?n src)"
          using buf_write_extends [of w1 c1 24 "take ?n src"] extendsD(1,2) [OF g(1)] wc1 w1 mx by simp
        with g(1) have ext: "extends wc off (buf_write 24 (take ?n src) wc1) (24 + ?n) (take ?n src)"
          using extends_trans [of "(w, c)" off wc1 24 "[]"] less.prems(2) wc wc1 by simp
        obtain res where res: "copy_fragmented ts (drop ?n src) (24 + ?n) (written + ?n) (buf_write 24 (take ?n src) wc1) = Some res"
          "copy_post (drop ?n src) (24 + ?n) (buf_write 24 (take ?n src) wc1) (written + ?n) res"
          using less.hyps [OF less_drop [OF n] extendsD(1,2) [OF ext]] by blast
        have "size_sub (w_max w) 24 = w_max w - 24"
          using size_sub_cursor [of wc1 24] extendsD(1,2) [OF g(1)] wc1 w1 by simp
        then have "copy_fragmented ts src off written wc = Some res"
          using res(1) src sub wc full rot True wc1 w1 by (subst copy_fragmented.simps) (simp add: Let_def)
        then show ?thesis using copy_post_step [OF ext _ n(2) res(2)] less.prems(2) by auto
      qed
    qed
  qed
qed

section \<open>Properties of the writer\<close>

text \<open>
  C7: Splitting a byte string over pool buffers always ends: either the stream a reader recovers
  from the writer's buffers (the data part of each, in order) has grown by exactly that string
  and every buffer added on the way is flagged as continued, or the pool ran dry, a proper
  prefix was written, and the writer holds no current buffer. No byte is written outside a
  buffer, and the written-bytes counter is exact.
\<close>

theorem copy_fragmented_complete:
  assumes "writer_ok wc" and "at_cursor wc off"
  shows "\<exists>r written' wc'. copy_fragmented ts src off written wc = Some (r, written', wc') \<and>
    writer_ok wc' \<and> c_ub (snd wc') = c_ub (snd wc) \<and>
    (case r of
       Some off' \<Rightarrow> at_cursor wc' off' \<and> rec_stream wc' off' = rec_stream wc off @ src \<and>
         written' = written + length src \<and>
         (\<forall>b\<in>set (w_frags (fst wc')) - set (w_frags (fst wc)).
            P8_DATA_FLAG_FRAGMENT AND bh_flags (hdr (snd wc') b) = P8_DATA_FLAG_FRAGMENT)
     | None \<Rightarrow> w_buffer (fst wc') = None \<and> (\<exists>k < length src.
         rec_stream wc' 0 = rec_stream wc off @ take k src \<and> written' = written + k))"
proof -
  obtain r written' wc' where res: "copy_fragmented ts src off written wc = Some (r, written', wc')"
    "copy_post src off wc written (r, written', wc')"
    using copy_fragmented_spec [OF assms, of ts src written] by (metis prod_cases3)
  then show ?thesis
    by (cases r) (auto simp: copy_post_def extends_def fails_def same_writer_def)
qed

text \<open>A writer with one buffer of 32 bytes, eight of them for data, and a pool of two such buffers.\<close>

definition tiny_core :: core where
  "tiny_core = snd (acquire_buffer False
     \<lparr>c_initialized = True, c_pool = pool_new 32 (Some (new_budget 64)) [Some 1, Some 2],
      c_mem = (\<lambda>_. replicate 32 0), c_ub = False, c_outstanding = 0, c_wake_pending = False, c_wakes = 0,
      c_ready = [], c_drop_logs = 0, c_drop_metrics = 0, c_drop_traces = 0, c_drop_svc = 0\<rparr>)"

definition tiny_writer :: writer where
  "tiny_writer = (writer_new 32 7)\<lparr>w_buffer := Some 1, w_used := 24\<rparr>"

lemma tiny_core_eq: "tiny_core = \<lparr>c_initialized = True,
   c_pool = \<lparr>pl_bufsz = 32, pl_budget = Some \<lparr>bd_used = 32, bd_max = 64\<rparr>, pl_free = [], pl_all = [1],
     pl_waitq = wq_empty, pl_stopping = False, pl_cv_next = 0, pl_inflight = 0, pl_news = [Some 2]\<rparr>,
   c_mem = (\<lambda>_. replicate 32 0), c_ub = False, c_outstanding = 0, c_wake_pending = True, c_wakes = 1,
   c_ready = [], c_drop_logs = 0, c_drop_metrics = 0, c_drop_traces = 0, c_drop_svc = 0\<rparr>"
  by (simp add: tiny_core_def acquire_buffer_def pool_run_simps try_reserve_def no_headroom_def new_budget_def
      under_pressure_def pool_get_stat_def notify_pressure_def notify_def P8_CORE_FREE_MEM_PERCENT_def)

lemma tiny_ok: "writer_ok (tiny_writer, tiny_core)" "at_cursor (tiny_writer, tiny_core) 24"
  by (simp_all add: writer_ok_def core_ok_def core_owned_def tiny_core_eq tiny_writer_def writer_new_def held_bufs_def
      pool_ok_def news_ok_def budget_exact_def budget_ok_def at_cursor_def List.map_filter_simps)

lemma copy_fragmented_complete_witness:
  "\<exists>r n wc'. copy_fragmented 5 [1, 2, 3, 4, 5, 6, 7, 8, 9, 10] 24 0 (tiny_writer, tiny_core) = Some (r, n, wc') \<and>
     c_ub (snd wc') = False"
  using copy_fragmented_complete [OF tiny_ok, of 5 "[1, 2, 3, 4, 5, 6, 7, 8, 9, 10]" 0]
  by (auto simp: tiny_core_eq)

text \<open>
  C32: A closing writer loses nothing: all buffers it holds go to the core's ready queue in write
  order, none stays behind, and its drop counts move into the core's totals.
\<close>

theorem writer_close_hands_over:
  assumes "c_initialized c"
  shows "\<exists>w' c'. writer_close (w, c) = (w', c') \<and> c_ready c' = c_ready c @ held_bufs w \<and> held_bufs w' = [] \<and>
    w_used w' = 0 \<and> w_drop_logs w' = 0 \<and> c_drop_logs c' = c_drop_logs c + w_drop_logs w \<and>
    c_drop_metrics c' = c_drop_metrics c + w_drop_metrics w \<and> c_drop_traces c' = c_drop_traces c + w_drop_traces w"
  using assms
  by (cases "w_frags w"; cases "w_buffer w")
    (simp_all add: writer_close_def core_push_def submit_chain_def submit_buffer_def pull_dropped_def
      accumulate_dropped_def notify_def held_bufs_def)

lemma writer_close_hands_over_witness: "c_ready (snd (writer_close (tiny_writer, tiny_core))) = [1]"
  using writer_close_hands_over [of tiny_core tiny_writer]
  by (auto simp: tiny_core_eq tiny_writer_def writer_new_def held_bufs_def)

text \<open>\<open>pull\<close> empties the writer into the batch, in write order.\<close>

lemma pull_writer_held:
  "fst (pull_writer io w) = io @ held_bufs w" "held_bufs (snd (pull_writer io w)) = []"
  "w_drop_logs (snd (pull_writer io w)) = w_drop_logs w"
  by (auto simp: pull_writer_def held_bufs_def split: option.splits)

lemma serialize_utf8_string_fits:
  assumes "serialize_utf8_string avail s = Some bs"
  shows "length bs \<le> avail" "length bs = 2 + length (str_bytes s)" "length (str_bytes s) \<le> 65535"
  using assms by (auto simp: serialize_utf8_string_def enc_str_def str_bytes_def clamp16_def
      split: if_splits option.splits)

end
