(* ===== verification/WriterRegistry.thy ===== *)
theory WriterRegistry
  imports TlsWriter
begin

text \<open>
  The core's registry of live writers (\<^verbatim>\<open>engine/p8_core.cpp\<close>): an intrusive doubly-linked list
  through \<^verbatim>\<open>mp_next_writer\<close> and \<^verbatim>\<open>mp_prev_writer\<close> under \<^verbatim>\<open>mo_writers_lock\<close>, walked by the worker
  to drain buffers and to collect drop counts. A writer is named by its address.
\<close>

section \<open>State and operations\<close>

record writers =
  ws_head :: "nat option"
  ws_next :: "nat \<Rightarrow> nat option"
  ws_prev :: "nat \<Rightarrow> nat option"
  ws_count :: nat
  ws_obj :: "nat \<Rightarrow> writer"

definition no_writers :: "(nat \<Rightarrow> writer) \<Rightarrow> writers" where
  "no_writers obj = \<lparr>ws_head = None, ws_next = (\<lambda>_. None), ws_prev = (\<lambda>_. None), ws_count = 0, ws_obj = obj\<rparr>"

definition register_writer :: "nat \<Rightarrow> writers \<Rightarrow> writers" where
  "register_writer i s =
     (let pv = (ws_prev s)(i := None);
          nx = (ws_next s)(i := ws_head s);
          pv' = (case ws_head s of Some h \<Rightarrow> pv(h := Some i) | None \<Rightarrow> pv)
      in s\<lparr>ws_prev := pv', ws_next := nx, ws_head := Some i, ws_count := Suc (ws_count s)\<rparr>)"

definition unregister_writer :: "nat \<Rightarrow> writers \<Rightarrow> writers" where
  "unregister_writer i s =
     (let p = ws_prev s i; n = ws_next s i;
          nx = (case p of Some q \<Rightarrow> (ws_next s)(q := n) | None \<Rightarrow> ws_next s);
          hd' = (case p of Some q \<Rightarrow> ws_head s | None \<Rightarrow> n);
          pv = (case n of Some m \<Rightarrow> (ws_prev s)(m := p) | None \<Rightarrow> ws_prev s)
      in s\<lparr>ws_next := nx(i := None), ws_prev := pv(i := None), ws_head := hd', ws_count := ws_count s - 1\<rparr>)"

text \<open>The walks follow next pointers; on a cyclic list they would not return.\<close>

partial_function (option) drain_walk ::
    "(nat \<Rightarrow> nat option) \<Rightarrow> nat option \<Rightarrow> addr list \<Rightarrow> (nat \<Rightarrow> writer) \<Rightarrow> (addr list \<times> (nat \<Rightarrow> writer)) option" where
  "drain_walk nx p io obj =
     (case p of None \<Rightarrow> Some (io, obj)
      | Some i \<Rightarrow> (let (io1, w) = pull_writer io (obj i) in drain_walk nx (nx i) io1 (obj(i := w))))"

definition drain_writers :: "bool \<Rightarrow> addr list \<Rightarrow> writers \<Rightarrow> (addr list \<times> writers) option" where
  "drain_writers initialized io s =
     (if \<not> initialized then Some (io, s)
      else map_option (\<lambda>(io1, obj). (io1, s\<lparr>ws_obj := obj\<rparr>)) (drain_walk (ws_next s) (ws_head s) io (ws_obj s)))"

definition add_stats :: "drop_stats \<Rightarrow> drop_stats \<Rightarrow> drop_stats" where
  "add_stats a b = a\<lparr>mu_logs := mu_logs a + mu_logs b, mu_metrics := mu_metrics a + mu_metrics b,
     mu_traces := mu_traces a + mu_traces b\<rparr>"

partial_function (option) poll_walk ::
    "(nat \<Rightarrow> nat option) \<Rightarrow> nat option \<Rightarrow> drop_stats \<Rightarrow> (nat \<Rightarrow> writer) \<Rightarrow> (drop_stats \<times> (nat \<Rightarrow> writer)) option" where
  "poll_walk nx p acc obj =
     (case p of None \<Rightarrow> Some (acc, obj)
      | Some i \<Rightarrow> (let (d, w) = pull_dropped (obj i) in poll_walk nx (nx i) (add_stats acc d) (obj(i := w))))"

definition zero_stats :: drop_stats where
  "zero_stats = \<lparr>mu_logs = 0, mu_metrics = 0, mu_traces = 0, mu_svc = 0\<rparr>"

definition poll_dropped_stats :: "writers \<Rightarrow> 'c core_scheme \<Rightarrow> (writers \<times> 'c core_scheme) option" where
  "poll_dropped_stats s c =
     map_option (\<lambda>(d, obj). (s\<lparr>ws_obj := obj\<rparr>, accumulate_dropped d c))
       (poll_walk (ws_next s) (ws_head s) zero_stats (ws_obj s))"

section \<open>The list behind the pointers\<close>

fun dlseg :: "(nat \<Rightarrow> nat option) \<Rightarrow> (nat \<Rightarrow> nat option) \<Rightarrow> nat option \<Rightarrow> nat option \<Rightarrow> nat list \<Rightarrow> bool" where
  "dlseg nx pv prev p [] \<longleftrightarrow> p = None"
| "dlseg nx pv prev p (x # xs) \<longleftrightarrow> p = Some x \<and> pv x = prev \<and> dlseg nx pv (Some x) (nx x) xs"

definition ws_abs :: "writers \<Rightarrow> nat list \<Rightarrow> bool" where
  "ws_abs s xs \<longleftrightarrow> dlseg (ws_next s) (ws_prev s) None (ws_head s) xs \<and> distinct xs \<and> ws_count s = length xs"

lemma dlseg_upd_outside [simp]:
  "x \<notin> set xs \<Longrightarrow> dlseg (nx(x := v)) pv prev p xs = dlseg nx pv prev p xs"
  "x \<notin> set xs \<Longrightarrow> dlseg nx (pv(x := v)) prev p xs = dlseg nx pv prev p xs"
  by (induction xs arbitrary: prev p) auto

lemma ws_abs_empty: "ws_abs (no_writers obj) []"
  by (simp add: ws_abs_def no_writers_def)

lemma register_writer_abs:
  assumes "ws_abs s xs" "i \<notin> set xs"
  shows "ws_abs (register_writer i s) (i # xs)"
proof (cases xs)
  case Nil
  with assms show ?thesis by (simp add: ws_abs_def register_writer_def)
next
  case (Cons h ys)
  with assms show ?thesis by (auto simp: ws_abs_def register_writer_def Let_def)
qed

lemma dlseg_neighbours:
  "dlseg nx pv prev p (ys @ x # zs) \<Longrightarrow>
   pv x = (if ys = [] then prev else Some (last ys)) \<and> nx x = (case zs of [] \<Rightarrow> None | z # _ \<Rightarrow> Some z) \<and>
   (ys = [] \<longrightarrow> p = Some x) \<and> (ys \<noteq> [] \<longrightarrow> p = Some (hd ys))"
proof (induction ys arbitrary: prev p)
  case Nil
  then show ?case by (cases zs) auto
next
  case (Cons y ys)
  from Cons.prems have "dlseg nx pv (Some y) (nx y) (ys @ x # zs)" by simp
  from Cons.IH [OF this] Cons.prems show ?case by auto
qed

text \<open>Unlinking an element: its neighbours are joined, the rest of the list is as before.\<close>

lemma dlseg_unlink:
  assumes "dlseg nx pv prev p (ys @ x # zs)" "distinct (ys @ x # zs)" "\<forall>q. prev = Some q \<longrightarrow> q \<notin> set (ys @ x # zs)"
  shows "dlseg (case pv x of Some q \<Rightarrow> nx(q := nx x) | None \<Rightarrow> nx) (case nx x of Some m \<Rightarrow> pv(m := pv x) | None \<Rightarrow> pv)
     prev (if ys = [] then nx x else p) (ys @ zs)"
  using assms
proof (induction ys arbitrary: prev p)
  case Nil
  then have "pv x = prev" "dlseg nx pv (Some x) (nx x) zs" by simp_all
  with Nil show ?case by (cases zs) (auto split: option.splits simp del: fun_upd_apply, simp_all)
next
  case (Cons y ys)
  have tl: "dlseg nx pv (Some y) (nx y) (ys @ x # zs)" using Cons.prems(1) by simp
  note nb = dlseg_neighbours [OF tl]
  have IH: "dlseg (case pv x of Some q \<Rightarrow> nx(q := nx x) | None \<Rightarrow> nx) (case nx x of Some m \<Rightarrow> pv(m := pv x) | None \<Rightarrow> pv)
     (Some y) (if ys = [] then nx x else nx y) (ys @ zs)"
    by (rule Cons.IH [OF tl]) (use Cons.prems(2) in auto)
  have "ys \<noteq> [] \<Longrightarrow> last ys \<in> set ys" by simp
  then have last: "ys \<noteq> [] \<Longrightarrow> last ys \<noteq> y" using Cons.prems(2) by auto
  have "(case pv x of Some q \<Rightarrow> nx(q := nx x) | None \<Rightarrow> nx) y = (if ys = [] then nx x else nx y)"
    using nb last by auto
  moreover have "(case nx x of Some m \<Rightarrow> pv(m := pv x) | None \<Rightarrow> pv) y = prev"
    using nb Cons.prems(1,2) by (auto split: list.splits)
  ultimately show ?case using IH Cons.prems(1) by simp
qed

lemma unregister_writer_abs:
  assumes abs: "ws_abs s xs" and i: "i \<in> set xs"
  shows "ws_abs (unregister_writer i s) (remove1 i xs)"
proof -
  obtain ys zs where xs: "xs = ys @ i # zs" "i \<notin> set ys" using i by (meson split_list_first)
  have dl: "dlseg (ws_next s) (ws_prev s) None (ws_head s) (ys @ i # zs)" and dist: "distinct (ys @ i # zs)"
    using abs xs by (simp_all add: ws_abs_def)
  note nb = dlseg_neighbours [OF dl]
  let ?nx = "case ws_prev s i of Some q \<Rightarrow> (ws_next s)(q := ws_next s i) | None \<Rightarrow> ws_next s"
  let ?pv = "case ws_next s i of Some m \<Rightarrow> (ws_prev s)(m := ws_prev s i) | None \<Rightarrow> ws_prev s"
  have "dlseg ?nx ?pv None (if ys = [] then ws_next s i else ws_head s) (ys @ zs)"
    by (rule dlseg_unlink [OF dl dist]) simp
  then have "dlseg (?nx(i := None)) (?pv(i := None)) None (if ys = [] then ws_next s i else ws_head s) (ys @ zs)"
    using dist by simp
  moreover have "remove1 i xs = ys @ zs" using xs by (simp add: remove1_append)
  moreover have "(case ws_prev s i of Some q \<Rightarrow> ws_head s | None \<Rightarrow> ws_next s i) = (if ys = [] then ws_next s i else ws_head s)"
    using nb by simp
  ultimately show ?thesis using abs xs by (auto simp: ws_abs_def unregister_writer_def Let_def)
qed

section \<open>Walking the list\<close>

lemma drain_walk_all:
  "dlseg nx pv prev p xs \<Longrightarrow> distinct xs \<Longrightarrow>
   drain_walk nx p io obj = Some (io @ concat (map (\<lambda>i. held_bufs (obj i)) xs),
     \<lambda>i. if i \<in> set xs then snd (pull_writer [] (obj i)) else obj i)"
proof (induction xs arbitrary: prev p io obj)
  case Nil
  then show ?case by (subst drain_walk.simps) simp
next
  case (Cons x xs)
  let ?w = "snd (pull_writer io (obj x))"
  have w: "?w = snd (pull_writer [] (obj x))" by (simp add: pull_writer_def split: option.splits)
  have "drain_walk nx (nx x) (io @ held_bufs (obj x)) (obj(x := ?w)) =
      Some ((io @ held_bufs (obj x)) @ concat (map (\<lambda>i. held_bufs ((obj(x := ?w)) i)) xs),
        \<lambda>i. if i \<in> set xs then snd (pull_writer [] ((obj(x := ?w)) i)) else (obj(x := ?w)) i)"
    using Cons.prems by (intro Cons.IH [of "Some x"]) auto
  moreover have "map (\<lambda>i. held_bufs ((obj(x := ?w)) i)) xs = map (\<lambda>i. held_bufs (obj i)) xs"
    using Cons.prems(2) by auto
  moreover have "(\<lambda>i. if i \<in> set xs then snd (pull_writer [] ((obj(x := ?w)) i)) else (obj(x := ?w)) i) =
      (\<lambda>i. if i \<in> set (x # xs) then snd (pull_writer [] (obj i)) else obj i)"
    using Cons.prems(2) w by (auto simp: fun_eq_iff)
  ultimately have "drain_walk nx (nx x) (io @ held_bufs (obj x)) (obj(x := ?w)) =
      Some (io @ concat (map (\<lambda>i. held_bufs (obj i)) (x # xs)),
        \<lambda>i. if i \<in> set (x # xs) then snd (pull_writer [] (obj i)) else obj i)"
    by (simp only: list.map concat.simps append_assoc)
  moreover have "drain_walk nx p io obj = drain_walk nx (nx x) (io @ held_bufs (obj x)) (obj(x := ?w))"
    using Cons.prems(1) pull_writer_held(1) [of io "obj x"]
    by (subst drain_walk.simps) (simp add: case_prod_unfold Let_def)
  ultimately show ?case by simp
qed


lemma pull_dropped_sums: "d = fst (pull_dropped w) \<Longrightarrow> mu_logs d = w_drop_logs w \<and> mu_metrics d = w_drop_metrics w \<and> mu_traces d = w_drop_traces w"
  by (simp add: pull_dropped_def)

lemma poll_walk_all:
  "dlseg nx pv prev p xs \<Longrightarrow> distinct xs \<Longrightarrow>
   \<exists>d. poll_walk nx p acc obj = Some (d, \<lambda>i. if i \<in> set xs then snd (pull_dropped (obj i)) else obj i) \<and>
     mu_logs d = mu_logs acc + sum_list (map (\<lambda>i. w_drop_logs (obj i)) xs) \<and>
     mu_metrics d = mu_metrics acc + sum_list (map (\<lambda>i. w_drop_metrics (obj i)) xs) \<and>
     mu_traces d = mu_traces acc + sum_list (map (\<lambda>i. w_drop_traces (obj i)) xs)"
proof (induction xs arbitrary: prev p acc obj)
  case Nil
  then show ?case by (subst poll_walk.simps) simp
next
  case (Cons x xs)
  let ?obj = "obj(x := snd (pull_dropped (obj x)))" and ?acc = "add_stats acc (fst (pull_dropped (obj x)))"
  have rest: "map (\<lambda>i. f (?obj i)) xs = map (\<lambda>i. f (obj i)) xs" for f :: "writer \<Rightarrow> u64"
    using Cons.prems(2) by auto
  have fin: "(\<lambda>i. if i \<in> set xs then snd (pull_dropped (?obj i)) else ?obj i) =
      (\<lambda>i. if i \<in> set (x # xs) then snd (pull_dropped (obj i)) else obj i)"
    using Cons.prems(2) by (auto simp: fun_eq_iff)
  obtain d where d: "poll_walk nx (nx x) ?acc ?obj = Some (d, \<lambda>i. if i \<in> set xs then snd (pull_dropped (?obj i)) else ?obj i)"
    "mu_logs d = mu_logs ?acc + sum_list (map (\<lambda>i. w_drop_logs (?obj i)) xs)"
    "mu_metrics d = mu_metrics ?acc + sum_list (map (\<lambda>i. w_drop_metrics (?obj i)) xs)"
    "mu_traces d = mu_traces ?acc + sum_list (map (\<lambda>i. w_drop_traces (?obj i)) xs)"
  proof -
    have "dlseg nx pv (Some x) (nx x) xs" "distinct xs" using Cons.prems by simp_all
    from Cons.IH [OF this, of ?acc ?obj] show thesis using that by blast
  qed
  have "poll_walk nx p acc obj = poll_walk nx (nx x) ?acc ?obj"
    using Cons.prems(1) by (subst poll_walk.simps) (simp add: case_prod_unfold Let_def)
  then show ?case using d unfolding rest fin
    by (simp add: add_stats_def pull_dropped_def add.assoc)
qed

section \<open>Properties of the registry\<close>

text \<open>
  C30: The intrusive list is a set of live writers with the newest first: registering a writer puts
  it in front, unregistering any registered writer takes out exactly that one and keeps the
  order of the others, and the counter is the number of registered writers.
\<close>

theorem registry_refines_list:
  assumes "ws_abs s xs"
  shows "(i \<notin> set xs \<longrightarrow> ws_abs (register_writer i s) (i # xs)) \<and>
    (i \<in> set xs \<longrightarrow> ws_abs (unregister_writer i s) (remove1 i xs)) \<and> ws_count s = length xs"
  using assms register_writer_abs unregister_writer_abs by (auto simp: ws_abs_def)

definition three_writers :: writers where
  "three_writers = register_writer 3 (register_writer 2 (register_writer 1 (no_writers (\<lambda>_. writer_new 64 0))))"

lemma three_writers_abs: "ws_abs three_writers [3, 2, 1]"
  unfolding three_writers_def by (intro register_writer_abs ws_abs_empty) simp_all

lemma registry_refines_list_witness: "ws_abs (unregister_writer 2 three_writers) [3, 1]"
  using registry_refines_list [OF three_writers_abs, of 2] by simp

text \<open>
  C29: One drain visits every registered writer and returns: the batch grows by all the buffers
  each of them holds, writer by writer and in write order within a writer, and afterwards none
  of them holds any; writers not registered are left alone.
\<close>

theorem drain_writers_collects_all:
  assumes "ws_abs s xs"
  shows "\<exists>s'. drain_writers True io s = Some (io @ concat (map (\<lambda>i. held_bufs (ws_obj s i)) xs), s') \<and>
    ws_abs s' xs \<and> (\<forall>i\<in>set xs. held_bufs (ws_obj s' i) = []) \<and> (\<forall>i. i \<notin> set xs \<longrightarrow> ws_obj s' i = ws_obj s i)"
proof -
  have "dlseg (ws_next s) (ws_prev s) None (ws_head s) xs" "distinct xs" using assms by (simp_all add: ws_abs_def)
  from drain_walk_all [OF this, of io "ws_obj s"] assms show ?thesis
    by (simp add: drain_writers_def ws_abs_def pull_writer_held)
qed

lemma drain_writers_collects_all_witness:
  "\<exists>s'. drain_writers True [9] (three_writers\<lparr>ws_obj := (\<lambda>i. (writer_new 64 0)\<lparr>w_frags := [10 * i], w_buffer := Some (i + 70)\<rparr>)\<rparr>)
     = Some ([9, 30, 73, 20, 72, 10, 71], s')"
proof -
  let ?s = "three_writers\<lparr>ws_obj := (\<lambda>i. (writer_new 64 0)\<lparr>w_frags := [10 * i], w_buffer := Some (i + 70)\<rparr>)\<rparr>"
  have "ws_abs ?s [3, 2, 1]" using three_writers_abs by (simp add: ws_abs_def)
  from drain_writers_collects_all [OF this, of "[9]"] show ?thesis
    by (auto simp: held_bufs_def writer_new_def)
qed

text \<open>
  C31: Polling moves drop counts without losing or doubling any: the core's totals grow by the sum
  of the registered writers' counters, and every one of those counters is zero afterwards.
\<close>

theorem poll_conserves_drops:
  assumes "ws_abs s xs"
  shows "\<exists>s' c'. poll_dropped_stats s c = Some (s', c') \<and>
    c_drop_logs c' = c_drop_logs c + sum_list (map (\<lambda>i. w_drop_logs (ws_obj s i)) xs) \<and>
    c_drop_metrics c' = c_drop_metrics c + sum_list (map (\<lambda>i. w_drop_metrics (ws_obj s i)) xs) \<and>
    c_drop_traces c' = c_drop_traces c + sum_list (map (\<lambda>i. w_drop_traces (ws_obj s i)) xs) \<and>
    (\<forall>i\<in>set xs. w_drop_logs (ws_obj s' i) = 0 \<and> w_drop_metrics (ws_obj s' i) = 0 \<and> w_drop_traces (ws_obj s' i) = 0)"
proof -
  have "dlseg (ws_next s) (ws_prev s) None (ws_head s) xs" "distinct xs" using assms by (simp_all add: ws_abs_def)
  from poll_walk_all [OF this, of zero_stats "ws_obj s"] show ?thesis
    by (auto simp: poll_dropped_stats_def accumulate_dropped_def zero_stats_def pull_dropped_def)
qed

lemma poll_conserves_drops_witness:
  "\<exists>s' c'. poll_dropped_stats (three_writers\<lparr>ws_obj := (\<lambda>i. (writer_new 64 0)\<lparr>w_drop_logs := of_nat i\<rparr>)\<rparr>) demo_core = Some (s', c') \<and>
     c_drop_logs c' = 6"
proof -
  let ?s = "three_writers\<lparr>ws_obj := (\<lambda>i. (writer_new 64 0)\<lparr>w_drop_logs := of_nat i\<rparr>)\<rparr>"
  have "ws_abs ?s [3, 2, 1]" using three_writers_abs by (simp add: ws_abs_def)
  from poll_conserves_drops [OF this, of demo_core] show ?thesis
    by (auto simp: demo_core_def)
qed

end
