(* ===== verification/LogFormat.thy ===== *)
theory LogFormat
  imports Protocol
begin

text \<open>
  \<^verbatim>\<open>cp8_log::parse_format_string\<close> and its prefix table (\<^verbatim>\<open>engine/p8_log.cpp\<close>): the
  scanner that turns a printf format into the list of variable-argument descriptors.
  The target is 64-bit Linux (\<^verbatim>\<open>GTX64\<close>, not \<^verbatim>\<open>G_OS_WINDOWS\<close>), so every size is rounded
  up to 8 bytes, \<^verbatim>\<open>long double\<close> has 16 bytes and \<^verbatim>\<open>wchar_t\<close> has 4. A format string is the
  list of its bytes before the NUL.
\<close>

section \<open>Argument descriptors\<close>

definition P8_LOG_ARG_TYPE_CHAR :: u8 where "P8_LOG_ARG_TYPE_CHAR = 0x01"
definition P8_LOG_ARG_TYPE_INT8 :: u8 where "P8_LOG_ARG_TYPE_INT8 = 0x01"
definition P8_LOG_ARG_TYPE_INT16 :: u8 where "P8_LOG_ARG_TYPE_INT16 = 0x03"
definition P8_LOG_ARG_TYPE_INT32 :: u8 where "P8_LOG_ARG_TYPE_INT32 = 0x04"
definition P8_LOG_ARG_TYPE_INT64 :: u8 where "P8_LOG_ARG_TYPE_INT64 = 0x05"
definition P8_LOG_ARG_TYPE_DOUBLE :: u8 where "P8_LOG_ARG_TYPE_DOUBLE = 0x06"
definition P8_LOG_ARG_TYPE_PVOID :: u8 where "P8_LOG_ARG_TYPE_PVOID = 0x07"
definition P8_LOG_ARG_TYPE_USTR16 :: u8 where "P8_LOG_ARG_TYPE_USTR16 = 0x08"
definition P8_LOG_ARG_TYPE_STRA :: u8 where "P8_LOG_ARG_TYPE_STRA = 0x09"
definition P8_LOG_ARG_TYPE_USTR8 :: u8 where "P8_LOG_ARG_TYPE_USTR8 = 0x0A"
definition P8_LOG_ARG_TYPE_USTR32 :: u8 where "P8_LOG_ARG_TYPE_USTR32 = 0x0B"
definition P8_LOG_ARG_TYPE_CHAR32 :: u8 where "P8_LOG_ARG_TYPE_CHAR32 = 0x0C"
definition P8_LOG_ARG_TYPE_INTMAX :: u8 where "P8_LOG_ARG_TYPE_INTMAX = 0x0D"
definition P8_LOG_ARG_TYPE_LDOUBLE :: u8 where "P8_LOG_ARG_TYPE_LDOUBLE = 0x0E"

lemmas arg_type_defs =
  P8_LOG_ARG_TYPE_CHAR_def P8_LOG_ARG_TYPE_INT8_def P8_LOG_ARG_TYPE_INT16_def
  P8_LOG_ARG_TYPE_INT32_def P8_LOG_ARG_TYPE_INT64_def P8_LOG_ARG_TYPE_DOUBLE_def
  P8_LOG_ARG_TYPE_PVOID_def P8_LOG_ARG_TYPE_USTR16_def P8_LOG_ARG_TYPE_STRA_def
  P8_LOG_ARG_TYPE_USTR8_def P8_LOG_ARG_TYPE_USTR32_def P8_LOG_ARG_TYPE_CHAR32_def
  P8_LOG_ARG_TYPE_INTMAX_def P8_LOG_ARG_TYPE_LDOUBLE_def

text \<open>\<^verbatim>\<open>P8_LOG_MAX_ARGS\<close> of \<^verbatim>\<open>engine/p8_log.hpp\<close>.\<close>

definition P8_LOG_MAX_ARGS :: nat where "P8_LOG_MAX_ARGS = 32"

record log_varg =
  va_type :: u8
  va_size :: u8

text \<open>\<^verbatim>\<open>P8_SIZE_OF_ARG\<close>: the size rounded up to 8 bytes, as a \<^verbatim>\<open>uint8_t\<close>.\<close>

definition P8_SIZE_OF_ARG :: "nat \<Rightarrow> u8" where
  "P8_SIZE_OF_ARG n = of_nat (align_up_8 n)"

definition varg :: "u8 \<Rightarrow> nat \<Rightarrow> log_varg" where
  "varg t n = \<lparr>va_type = t, va_size = P8_SIZE_OF_ARG n\<rparr>"

definition is_str_type :: "u8 \<Rightarrow> bool" where
  "is_str_type t \<longleftrightarrow> t = P8_LOG_ARG_TYPE_USTR8 \<or> t = P8_LOG_ARG_TYPE_STRA \<or>
     t = P8_LOG_ARG_TYPE_USTR16 \<or> t = P8_LOG_ARG_TYPE_USTR32"

section \<open>The length-modifier table\<close>

datatype prefix_type =
  e_prefix_i64 | e_prefix_i32 | e_prefix_ll | e_prefix_l | e_prefix_hh | e_prefix_h |
  e_prefix_i | e_prefix_w | e_prefix_j | e_prefix_upper_l | e_prefix_unknown

definition gs_prefixes :: "(string \<times> prefix_type) list" where
  "gs_prefixes =
     [(''I64'', e_prefix_i64), (''I32'', e_prefix_i32), (''ll'', e_prefix_ll),
      (''hh'', e_prefix_hh), (''h'', e_prefix_h), (''l'', e_prefix_l),
      (''L'', e_prefix_upper_l), (''I'', e_prefix_i), (''z'', e_prefix_i),
      (''t'', e_prefix_i), (''w'', e_prefix_w), (''j'', e_prefix_j)]"

text \<open>First entry that \<^verbatim>\<open>strncmp\<close> accepts; the result keeps the entry's length and type.\<close>

fun find_prefix_from :: "(string \<times> prefix_type) list \<Rightarrow> string \<Rightarrow> (nat \<times> prefix_type) option" where
  "find_prefix_from [] fmt = None"
| "find_prefix_from ((p, ty) # ps) fmt =
     (if take (length p) fmt = p then Some (length p, ty) else find_prefix_from ps fmt)"

definition find_prefix :: "string \<Rightarrow> (nat \<times> prefix_type) option" where
  "find_prefix fmt = find_prefix_from gs_prefixes fmt"

section \<open>One conversion\<close>

fun int_conv :: "prefix_type \<Rightarrow> log_varg" where
  "int_conv e_prefix_unknown = varg P8_LOG_ARG_TYPE_INT32 4"
| "int_conv e_prefix_ll = varg P8_LOG_ARG_TYPE_INT64 8"
| "int_conv e_prefix_i64 = varg P8_LOG_ARG_TYPE_INT64 8"
| "int_conv e_prefix_h = varg P8_LOG_ARG_TYPE_INT16 2"
| "int_conv e_prefix_hh = varg P8_LOG_ARG_TYPE_INT8 1"
| "int_conv e_prefix_l = varg P8_LOG_ARG_TYPE_INT64 8"
| "int_conv e_prefix_i32 = varg P8_LOG_ARG_TYPE_INT32 4"
| "int_conv e_prefix_i = varg P8_LOG_ARG_TYPE_INT64 8"
| "int_conv e_prefix_j = varg P8_LOG_ARG_TYPE_INTMAX 8"
| "int_conv _ = varg P8_LOG_ARG_TYPE_INT32 4"

definition str_conv :: "prefix_type \<Rightarrow> u8 \<Rightarrow> char \<Rightarrow> log_varg" where
  "str_conv pfx w c =
     (if pfx = e_prefix_h then \<lparr>va_type = P8_LOG_ARG_TYPE_STRA, va_size = w\<rparr>
      else if c = CHR ''S'' then \<lparr>va_type = P8_LOG_ARG_TYPE_USTR32, va_size = w\<rparr>
      else if pfx = e_prefix_l then \<lparr>va_type = P8_LOG_ARG_TYPE_USTR32, va_size = w\<rparr>
      else \<lparr>va_type = P8_LOG_ARG_TYPE_USTR8, va_size = w\<rparr>)"

definition flt_conv :: "prefix_type \<Rightarrow> log_varg" where
  "flt_conv pfx = (if pfx = e_prefix_upper_l then varg P8_LOG_ARG_TYPE_LDOUBLE 16
                   else varg P8_LOG_ARG_TYPE_DOUBLE 8)"

definition chr_conv :: "prefix_type \<Rightarrow> char \<Rightarrow> log_varg" where
  "chr_conv pfx c =
     (if pfx = e_prefix_h then varg P8_LOG_ARG_TYPE_CHAR 1
      else if pfx = e_prefix_l then varg P8_LOG_ARG_TYPE_CHAR32 4
      else if c = CHR ''c'' then varg P8_LOG_ARG_TYPE_CHAR 1
      else varg P8_LOG_ARG_TYPE_CHAR 1)"

text \<open>The \<^verbatim>\<open>switch\<close> on a conversion character: the descriptor it appends, if it is one.\<close>

definition conv_arg :: "prefix_type \<Rightarrow> u8 \<Rightarrow> char \<Rightarrow> log_varg option" where
  "conv_arg pfx w c =
     (if c \<in> set ''dioxXubB'' then Some (int_conv pfx)
      else if c = CHR ''s'' \<or> c = CHR ''S'' then Some (str_conv pfx w c)
      else if c = CHR ''p'' then Some (varg P8_LOG_ARG_TYPE_PVOID 8)
      else if c \<in> set ''eEfFgGaA'' then Some (flt_conv pfx)
      else if c = CHR ''c'' \<or> c = CHR ''C'' then Some (chr_conv pfx c)
      else None)"

definition is_digit :: "char \<Rightarrow> bool" where
  "is_digit c \<longleftrightarrow> c \<in> set ''0123456789''"

definition is_prefix_char :: "char \<Rightarrow> bool" where
  "is_prefix_char c \<longleftrightarrow> c \<in> set ''IlhwzjtL''"

section \<open>The scanner loop\<close>

text \<open>
  The loop state: capacity \<open>iz_args_max\<close>, \<open>lb_percent\<close>, \<open>le_prefix\<close>, \<open>lu_has_width\<close>,
  the descriptors written so far, and the rest of the string from \<open>lp_iter\<close>. The digit
  test after the switch looks at the character \<open>lp_iter\<close> points to then, which for a
  length modifier is the modifier's last character.
\<close>

function parse_loop ::
  "nat \<Rightarrow> bool \<Rightarrow> prefix_type \<Rightarrow> u8 \<Rightarrow> log_varg list \<Rightarrow> string \<Rightarrow> log_varg list" where
  "parse_loop mx pct pfx w args [] = args"
| "parse_loop mx pct pfx w args (c # cs) =
     (if \<not> pct then
        (if c = CHR ''%'' then parse_loop mx True e_prefix_unknown 0 args cs
         else parse_loop mx False pfx w args cs)
      else if c = CHR ''*'' then
        (if mx \<le> length args then args
         else parse_loop mx True pfx 1 (args @ [varg P8_LOG_ARG_TYPE_INT32 4]) cs)
      else if is_prefix_char c then
        (case find_prefix (c # cs) of
           Some (n, ty) \<Rightarrow>
             parse_loop mx True ty (if is_digit ((c # cs) ! (n - 1)) then 1 else w) args
               (drop (n - 1) cs)
         | None \<Rightarrow> parse_loop mx True pfx w args cs)
      else (case conv_arg pfx w c of
          Some a \<Rightarrow> (if mx \<le> length args then args
                     else parse_loop mx False pfx w (args @ [a]) cs)
        | None \<Rightarrow>
            if c = CHR ''%'' then parse_loop mx False pfx w args cs
            else parse_loop mx True pfx (if is_digit c then 1 else w) args cs))"
  by pat_completeness auto
termination
  by (relation "measure (\<lambda>(mx, pct, pfx, w, args, s). length s)") auto

definition parse_format_string :: "nat \<Rightarrow> string option \<Rightarrow> log_varg list" where
  "parse_format_string mx fmt =
     (case fmt of None \<Rightarrow> []
      | Some s \<Rightarrow> if mx = 0 then [] else parse_loop mx False e_prefix_unknown 0 [] s)"

section \<open>The scanner without a capacity\<close>

text \<open>Reference definition: all descriptors of a format, with no accumulator and no limit.\<close>

function scan :: "bool \<Rightarrow> prefix_type \<Rightarrow> u8 \<Rightarrow> string \<Rightarrow> log_varg list" where
  "scan pct pfx w [] = []"
| "scan pct pfx w (c # cs) =
     (if \<not> pct then scan (c = CHR ''%'') (if c = CHR ''%'' then e_prefix_unknown else pfx)
                         (if c = CHR ''%'' then 0 else w) cs
      else if c = CHR ''*'' then varg P8_LOG_ARG_TYPE_INT32 4 # scan True pfx 1 cs
      else if is_prefix_char c then
        (case find_prefix (c # cs) of
           Some (n, ty) \<Rightarrow> scan True ty (if is_digit ((c # cs) ! (n - 1)) then 1 else w) (drop (n - 1) cs)
         | None \<Rightarrow> scan True pfx w cs)
      else (case conv_arg pfx w c of
          Some a \<Rightarrow> a # scan False pfx w cs
        | None \<Rightarrow> scan (c \<noteq> CHR ''%'') pfx (if is_digit c then 1 else w) cs))"
  by pat_completeness auto
termination
  by (relation "measure (\<lambda>(pct, pfx, w, s). length s)") auto

lemma conv_arg_percent [simp]: "conv_arg pfx w CHR ''%'' = None"
  by (simp add: conv_arg_def)

lemma scan_pfx_irrelevant: "scan False pfx w cs = scan False pfx' w' cs"
  by (induction cs arbitrary: pfx w pfx' w') auto

text \<open>The limited loop returns the first \<open>mx\<close> descriptors of the reference.\<close>

declare parse_loop.simps(2) [simp del] scan.simps(2) [simp del]

lemma parse_loop_scan:
  "length args \<le> mx \<Longrightarrow> parse_loop mx pct pfx w args s = take mx (args @ scan pct pfx w s)"
proof (induction mx pct pfx w args s rule: parse_loop.induct)
  case (1 mx pct pfx w args)
  then show ?case by simp
next
  case (2 mx pct pfx w args c cs)
  note unf = parse_loop.simps(2) [of mx pct pfx w args c cs] scan.simps(2) [of pct pfx w c cs]
  consider (lit) "\<not> pct" | (star) "pct" "c = CHR ''*''"
    | (pfx) "pct" "c \<noteq> CHR ''*''" "is_prefix_char c"
    | (conv) a where "pct" "c \<noteq> CHR ''*''" "\<not> is_prefix_char c" "conv_arg pfx w c = Some a"
    | (other) "pct" "c \<noteq> CHR ''*''" "\<not> is_prefix_char c" "conv_arg pfx w c = None"
    by blast
  then show ?case
  proof cases
    case lit
    then show ?thesis
      unfolding unf using "2.IH"(1,2) "2.prems" by (cases "c = CHR ''%''") simp_all
  next
    case star
    then show ?thesis
      unfolding unf using "2.IH"(3) "2.prems" by (cases "mx \<le> length args") simp_all
  next
    case pfx
    show ?thesis
    proof (cases "find_prefix (c # cs)")
      case None
      with pfx show ?thesis unfolding unf using "2.IH"(4) "2.prems" by simp
    next
      case (Some r)
      obtain n ty where r: "r = (n, ty)" by (cases r)
      let ?w = "if is_digit ((c # cs) ! (n - 1)) then 1 else w"
      have "parse_loop mx pct pfx w args (c # cs) = parse_loop mx True ty ?w args (drop (n - 1) cs)"
        unfolding unf Some r using pfx by simp
      also have "\<dots> = take mx (args @ scan True ty ?w (drop (n - 1) cs))"
        using "2.IH"(5) [of r n ty] pfx Some r "2.prems" by blast
      also have "scan True ty ?w (drop (n - 1) cs) = scan pct pfx w (c # cs)"
        unfolding unf Some r using pfx by simp
      finally show ?thesis .
    qed
  next
    case conv
    then show ?thesis
      unfolding unf using "2.IH"(8) [of a] "2.prems" by (cases "mx \<le> length args") simp_all
  next
    case other
    have irr: "scan False pfx (if is_digit c then 1 else w) cs = scan False pfx w cs"
      by (rule scan_pfx_irrelevant)
    show ?thesis
    proof (cases "c = CHR ''%''")
      case True
      with other show ?thesis
        unfolding unf using "2.IH"(6) "2.prems" irr by simp
    next
      case False
      with other show ?thesis
        unfolding unf using "2.IH"(7) "2.prems" by simp
    qed
  qed
qed

section \<open>Rendering a format and reading it back\<close>

text \<open>
  The directives a printf format is made of: literal text, an escaped percent sign, and a
  conversion with its flags, width and precision characters (\<open>mods\<close>, where a star takes
  an argument of its own), a length modifier of the table or none, and the conversion
  character.
\<close>

datatype directive = Literal string | Percent | Conversion (mods: string) (modifier: string) (conv: char)

definition is_mod_char :: "char \<Rightarrow> bool" where
  "is_mod_char c \<longleftrightarrow> c \<in> set ''*-+ #.0123456789''"

definition conv_chars :: string where
  "conv_chars = ''dioxXubB'' @ ''sS'' @ ''p'' @ ''eEfFgGaA'' @ ''cC''"

fun wf_directive :: "directive \<Rightarrow> bool" where
  "wf_directive (Literal s) \<longleftrightarrow> CHR ''%'' \<notin> set s"
| "wf_directive Percent \<longleftrightarrow> True"
| "wf_directive (Conversion ms p c) \<longleftrightarrow>
     list_all is_mod_char ms \<and> (p = [] \<or> p \<in> set (map fst gs_prefixes)) \<and>
     c \<in> set conv_chars"

fun render :: "directive \<Rightarrow> string" where
  "render (Literal s) = s"
| "render Percent = ''%%''"
| "render (Conversion ms p c) = CHR ''%'' # ms @ p @ [c]"

definition modifier_type :: "string \<Rightarrow> prefix_type" where
  "modifier_type p = (case map_of gs_prefixes p of Some ty \<Rightarrow> ty | None \<Rightarrow> e_prefix_unknown)"

definition width_flag :: "string \<Rightarrow> string \<Rightarrow> u8" where
  "width_flag ms p = (if list_ex (\<lambda>c. c = CHR ''*'' \<or> is_digit c) ms \<or> p \<in> set [''I64'', ''I32''] then 1 else 0)"

fun expected :: "directive \<Rightarrow> log_varg list" where
  "expected (Literal s) = []"
| "expected Percent = []"
| "expected (Conversion ms p c) =
     map (\<lambda>_. varg P8_LOG_ARG_TYPE_INT32 4) (filter (\<lambda>c. c = CHR ''*'') ms) @
     [the (conv_arg (modifier_type p) (width_flag ms p) c)]"

lemma scan_literal: "CHR ''%'' \<notin> set s \<Longrightarrow> scan False pfx w (s @ r) = scan False pfx w r"
  by (induction s) (auto simp: scan.simps(2))

lemma conv_arg_Some_iff: "conv_arg pfx w c \<noteq> None \<longleftrightarrow> c \<in> set conv_chars"
  unfolding conv_arg_def conv_chars_def set_append by simp

lemma conv_chars_plain:
  assumes "c \<in> set conv_chars"
  shows "c \<noteq> CHR ''*''" "\<not> is_prefix_char c" "c \<notin> set ''lh63''"
proof -
  have "list_all (\<lambda>c. c \<noteq> CHR ''*'' \<and> \<not> is_prefix_char c \<and> c \<notin> set ''lh63'') conv_chars"
    by code_simp
  with assms show "c \<noteq> CHR ''*''" "\<not> is_prefix_char c" "c \<notin> set ''lh63''"
    unfolding list_all_iff by blast+
qed

lemma mod_chars_plain:
  assumes "is_mod_char c"
  shows "\<not> is_prefix_char c" "conv_arg pfx w c = None" "c \<noteq> CHR ''%''"
proof -
  have "list_all (\<lambda>c. \<not> is_prefix_char c \<and> c \<notin> set conv_chars \<and> c \<noteq> CHR ''%'') ''*-+ #.0123456789''"
    by code_simp
  with assms have "\<not> is_prefix_char c \<and> c \<notin> set conv_chars \<and> c \<noteq> CHR ''%''"
    unfolding list_all_iff is_mod_char_def by blast
  then show "\<not> is_prefix_char c" "conv_arg pfx w c = None" "c \<noteq> CHR ''%''"
    using conv_arg_Some_iff by blast+
qed

lemma scan_mods:
  "list_all is_mod_char ms \<Longrightarrow>
   scan True pfx w (ms @ r) =
     map (\<lambda>_. varg P8_LOG_ARG_TYPE_INT32 4) (filter (\<lambda>c. c = CHR ''*'') ms) @
     scan True pfx (if list_ex (\<lambda>c. c = CHR ''*'' \<or> is_digit c) ms then 1 else w) r"
proof (induction ms arbitrary: w)
  case Nil
  then show ?case by simp
next
  case (Cons c ms)
  then have c: "is_mod_char c" and ms: "list_all is_mod_char ms" by simp_all
  note plain = mod_chars_plain [OF c]
  show ?case
    using Cons.IH [OF ms] by (simp add: scan.simps(2) [of True pfx w c "ms @ r"] plain)
qed

text \<open>After a length modifier no entry of the table matches further than the one written.\<close>

lemma find_prefix_modifier:
  assumes "p \<in> set (map fst gs_prefixes)" "c \<notin> set ''lh63''"
  shows "find_prefix (p @ c # r) = Some (length p, modifier_type p)"
  using assms by (auto simp: gs_prefixes_def find_prefix_def modifier_type_def)

lemma modifier_chars:
  assumes "p \<in> set (map fst gs_prefixes)"
  shows "p \<noteq> []" "is_prefix_char (hd p)" "is_digit (last p) \<longleftrightarrow> p \<in> set [''I64'', ''I32'']"
proof -
  have "list_all (\<lambda>p. p \<noteq> [] \<and> is_prefix_char (hd p) \<and>
      (is_digit (last p) = (p \<in> set [''I64'', ''I32'']))) (map fst gs_prefixes)"
    by code_simp
  with assms show "p \<noteq> []" "is_prefix_char (hd p)" "is_digit (last p) \<longleftrightarrow> p \<in> set [''I64'', ''I32'']"
    unfolding list_all_iff by blast+
qed

lemma scan_modifier:
  assumes "p = [] \<or> p \<in> set (map fst gs_prefixes)" "c \<in> set conv_chars"
  shows "scan True e_prefix_unknown w (p @ c # r) =
         scan True (modifier_type p) (if p \<in> set [''I64'', ''I32''] then 1 else w) (c # r)"
proof (cases "p = []")
  case True
  then show ?thesis by (simp add: modifier_type_def gs_prefixes_def)
next
  case False
  with assms(1) have p: "p \<in> set (map fst gs_prefixes)" by blast
  note mc = modifier_chars [OF p]
  obtain x xs where x: "p = x # xs" using False by (cases p) auto
  have find: "find_prefix (x # xs @ c # r) = Some (length p, modifier_type p)"
    using find_prefix_modifier [OF p conv_chars_plain(3) [OF assms(2)], of r] x by simp
  have star: "x \<noteq> CHR ''*''" using mc(2) x by (auto simp: is_prefix_char_def)
  have last: "(x # xs @ c # r) ! (length p - 1) = last p"
    using x by (simp add: last_conv_nth nth_append nth_Cons')
  have "scan True e_prefix_unknown w (x # xs @ c # r) =
      scan True (modifier_type p) (if is_digit (last p) then 1 else w) (c # r)"
    unfolding scan.simps(2) [of True _ w x "xs @ c # r"] find last [symmetric]
    using mc(2) x star by simp
  with mc(3) x show ?thesis by (simp only: append_Cons)
qed

lemma scan_conv:
  assumes "c \<in> set conv_chars"
  shows "scan True pfx w (c # r) = the (conv_arg pfx w c) # scan False pfx w r"
proof -
  obtain a where "conv_arg pfx w c = Some a"
    using assms conv_arg_Some_iff by blast
  then show ?thesis
    using conv_chars_plain(1,2) [OF assms] by (simp add: scan.simps(2) [of True pfx w c r])
qed

lemma scan_directive:
  assumes "wf_directive d"
  shows "scan False pfx w (render d @ r) = expected d @ scan False pfx w r"
proof (cases d)
  case (Literal s)
  with assms show ?thesis by (simp add: scan_literal)
next
  case Percent
  have "scan False pfx w (CHR ''%'' # CHR ''%'' # r) = scan False e_prefix_unknown 0 r"
    by (simp add: scan.simps(2) is_prefix_char_def is_digit_def)
  also have "\<dots> = scan False pfx w r" by (rule scan_pfx_irrelevant)
  finally show ?thesis using Percent by simp
next
  case (Conversion ms p c)
  with assms have ms: "list_all is_mod_char ms" and p: "p = [] \<or> p \<in> set (map fst gs_prefixes)"
    and c: "c \<in> set conv_chars" by (simp_all only: wf_directive.simps)
  let ?w = "if list_ex (\<lambda>c. c = CHR ''*'' \<or> is_digit c) ms then 1 else (0::u8)"
  have "scan False pfx w (render d @ r) = scan True e_prefix_unknown 0 (ms @ p @ c # r)"
    using Conversion by (simp add: scan.simps(2) [of False])
  also have "\<dots> = map (\<lambda>_. varg P8_LOG_ARG_TYPE_INT32 4) (filter (\<lambda>c. c = CHR ''*'') ms) @
      scan True e_prefix_unknown ?w (p @ c # r)"
    by (rule scan_mods [OF ms])
  also have "scan True e_prefix_unknown ?w (p @ c # r) = scan True (modifier_type p) (width_flag ms p) (c # r)"
    unfolding scan_modifier [OF p c] by (simp add: width_flag_def)
  also have "\<dots> = the (conv_arg (modifier_type p) (width_flag ms p) c) # scan False pfx w r"
    unfolding scan_conv [OF c] using scan_pfx_irrelevant by metis
  finally show ?thesis using Conversion by simp
qed

lemma scan_render:
  "list_all wf_directive ds \<Longrightarrow>
   scan False pfx w (concat (map render ds)) = concat (map expected ds)"
  by (induction ds) (simp_all add: scan_directive)

text \<open>C27: Reading back any printf format built from literal text, escaped percent signs and
  conversions with flags, width, precision, star arguments and length modifiers yields
  exactly the argument descriptors of its conversions, in order, cut at the capacity.\<close>

theorem parse_render:
  assumes "list_all wf_directive ds"
  shows "parse_format_string mx (Some (concat (map render ds))) = take mx (concat (map expected ds))"
  using parse_loop_scan [of "[]" mx False e_prefix_unknown 0] scan_render [OF assms]
  by (simp add: parse_format_string_def)

lemma parse_render_witness:
  "parse_format_string 32 (Some ''x=%-*.3lld, %hs 100%%'') =
     [varg P8_LOG_ARG_TYPE_INT32 4, varg P8_LOG_ARG_TYPE_INT64 8,
      \<lparr>va_type = P8_LOG_ARG_TYPE_STRA, va_size = 0\<rparr>]"
proof -
  let ?ds = "[Literal ''x='', Conversion ''-*.3'' ''ll'' CHR ''d'', Literal '', '',
              Conversion [] ''h'' CHR ''s'', Literal '' 100'', Percent]"
  have "list_all wf_directive ?ds" by code_simp
  from parse_render [OF this, of 32] show ?thesis
    by (simp add: modifier_type_def gs_prefixes_def width_flag_def is_digit_def conv_arg_def
        str_conv_def)
qed

section \<open>Every descriptor is one the serializer handles\<close>

text \<open>
  A string descriptor carries the has-width flag in its size field; a fixed-size one has
  8 bytes, or 16 for \<^verbatim>\<open>long double\<close>. \<^verbatim>\<open>cp8_log::send\<close> relies on this: it copies nothing for
  any other size.
\<close>

definition valid_varg :: "log_varg \<Rightarrow> bool" where
  "valid_varg a \<longleftrightarrow>
     (if is_str_type (va_type a) then va_size a = 0 \<or> va_size a = 1
      else if va_type a = P8_LOG_ARG_TYPE_LDOUBLE then va_size a = 16
      else va_size a = 8)"

section \<open>The codes on the wire\<close>

text \<open>
  What each conversion is to become, by the codes of \<^verbatim>\<open>api/p8_protocol.h\<close> and written without the
  parser: length modifiers, conversion characters, type code and size. The sizes are those of stack slots. The
  last character of \<open>I64\<close> and \<open>I32\<close> counts as a width, so a string behind them carries the flag.
\<close>

definition conversion_table :: "(string list \<times> string \<times> u8 \<times> u8) list" where
  "conversion_table =
     [([[], ''I32'', ''w'', ''L''], ''dioxXubB'', 0x04, 8), ([''hh''], ''dioxXubB'', 0x01, 8), ([''h''], ''dioxXubB'', 0x03, 8),
      ([''l'', ''ll'', ''I64'', ''I'', ''z'', ''t''], ''dioxXubB'', 0x05, 8), ([''j''], ''dioxXubB'', 0x0D, 8),
      ([''h''], ''sS'', 0x09, 0), ([''l''], ''sS'', 0x0B, 0),
      ([[], ''hh'', ''ll'', ''L'', ''I'', ''z'', ''t'', ''w'', ''j''], ''s'', 0x0A, 0), ([''I64'', ''I32''], ''s'', 0x0A, 1),
      ([[], ''hh'', ''ll'', ''L'', ''I'', ''z'', ''t'', ''w'', ''j''], ''S'', 0x0B, 0), ([''I64'', ''I32''], ''S'', 0x0B, 1),
      ([[], ''I64'', ''I32'', ''ll'', ''hh'', ''h'', ''l'', ''L'', ''I'', ''z'', ''t'', ''w'', ''j''], ''p'', 0x07, 8),
      ([[], ''I64'', ''I32'', ''ll'', ''hh'', ''h'', ''l'', ''I'', ''z'', ''t'', ''w'', ''j''], ''eEfFgGaA'', 0x06, 8),
      ([''L''], ''eEfFgGaA'', 0x0E, 16),
      ([[], ''I64'', ''I32'', ''ll'', ''hh'', ''h'', ''L'', ''I'', ''z'', ''t'', ''w'', ''j''], ''cC'', 0x01, 8), ([''l''], ''cC'', 0x0C, 8)]"

definition follows_table :: "(string \<Rightarrow> log_varg list) \<Rightarrow> bool" where
  "follows_table parse \<longleftrightarrow> list_all (\<lambda>(ps, cs, t, z).
     list_all (\<lambda>p. list_all (\<lambda>c. parse (''%'' @ p @ [c]) = [\<lparr>va_type = t, va_size = z\<rparr>]) cs) ps) conversion_table"

text \<open>All pairs of type and size: those of the table, and a string with the width flag.\<close>

definition wire_args :: "(u8 \<times> u8) list" where
  "wire_args = [(0x01, 8), (0x03, 8), (0x04, 8), (0x05, 8), (0x06, 8), (0x07, 8), (0x0C, 8), (0x0D, 8), (0x0E, 16),
     (0x09, 0), (0x09, 1), (0x0A, 0), (0x0A, 1), (0x0B, 0), (0x0B, 1)]"

definition on_wire :: "log_varg \<Rightarrow> bool" where
  "on_wire a \<longleftrightarrow> (va_type a, va_size a) \<in> set wire_args"

lemma table_complete:
  "list_all (\<lambda>p. list_all (\<lambda>c. length (filter (\<lambda>(ps, cs, t, z). p \<in> set ps \<and> c \<in> set cs) conversion_table) = 1) conv_chars)
     ([] # map fst gs_prefixes)"
  by code_simp

lemma on_wire_valid: "on_wire a \<Longrightarrow> valid_varg a"
  by (auto simp: on_wire_def wire_args_def valid_varg_def is_str_type_def arg_type_defs)

lemma on_wire_fixed [simp]:
  "on_wire (varg P8_LOG_ARG_TYPE_INT32 4)" "on_wire (varg P8_LOG_ARG_TYPE_PVOID 8)"
  "on_wire (int_conv pfx)" "on_wire (flt_conv pfx)" "on_wire (chr_conv pfx c)"
  by (cases pfx; simp add: on_wire_def wire_args_def varg_def P8_SIZE_OF_ARG_def align_up_8_def
      arg_type_defs flt_conv_def chr_conv_def)+

lemma on_wire_str [simp]: "w = 0 \<or> w = 1 \<Longrightarrow> on_wire (str_conv pfx w c)"
  by (auto simp: on_wire_def wire_args_def str_conv_def arg_type_defs)

lemma on_wire_conv: "w = 0 \<or> w = 1 \<Longrightarrow> conv_arg pfx w c = Some a \<Longrightarrow> on_wire a"
  unfolding conv_arg_def by (auto split: if_split_asm simp del: set_simps)

lemma scan_on_wire: "w = 0 \<or> w = 1 \<Longrightarrow> list_all on_wire (scan pct pfx w s)"
proof (induction pct pfx w s rule: scan.induct)
  case (1 pct pfx w)
  then show ?case by simp
next
  case (2 pct pfx w c cs)
  show ?case unfolding scan.simps(2)
    using 2 by (auto split: option.split intro: on_wire_conv)
qed

lemma parse_take_scan: "parse_format_string mx (Some s) = take mx (scan False e_prefix_unknown 0 s)"
  using parse_loop_scan [of "[]" mx False e_prefix_unknown 0 s] by (simp add: parse_format_string_def)

lemma scan_follows_table: "follows_table (scan False e_prefix_unknown 0)"
  by code_simp

text \<open>
  C28: The format parser never writes more descriptors than the array holds. Whatever the string, each one is a type
  code and a size of the protocol that belong together: 8 bytes for a scalar, 16 for a long double, the 0/1 width
  flag for a string. And for each of the thirteen length modifiers (none included) with each of the 22 conversion
  characters it writes exactly the type code and the size of the table, if there is room for one descriptor. The
  sizes are the rounded ones; the comment in the protocol header allows 1, 2 and 4 as well.
\<close>

theorem parse_format_string_valid:
  "length (parse_format_string mx fmt) \<le> mx \<and> list_all on_wire (parse_format_string mx fmt) \<and>
   follows_table (\<lambda>s. parse_format_string (Suc n) (Some s))"
proof -
  have "list_all on_wire (parse_format_string mx fmt)"
  proof (cases fmt)
    case (Some s)
    have "list_all on_wire (scan False e_prefix_unknown 0 s)" by (simp add: scan_on_wire)
    then show ?thesis unfolding Some parse_take_scan by (metis append_take_drop_id list_all_append)
  qed (simp add: parse_format_string_def)
  moreover have "length (parse_format_string mx fmt) \<le> mx"
    by (cases fmt) (simp_all add: parse_take_scan, simp add: parse_format_string_def)
  moreover have "follows_table (\<lambda>s. parse_format_string (Suc n) (Some s))"
    using scan_follows_table by (auto simp: follows_table_def parse_take_scan list_all_iff)
  ultimately show ?thesis by blast
qed

end
