(* ===== verification/SvcData.thy ===== *)
theory SvcData
  imports TlsWriter LogFormat "HOL-Library.Sublist"
begin

text \<open>
  Service data (\<^verbatim>\<open>engine/p8_core.cpp\<close>): descriptors of attributes, modules, log statements and
  metrics are serialised once into service buffers, from which the worker sends them. The state
  extends the core by the service buffers (\<^verbatim>\<open>mo_svc_buffers\<close>) and by the registries the
  descriptors live in. C strings are byte lists without the terminator, a null pointer is \<open>None\<close>,
  and a \<^verbatim>\<open>double\<close> is its 64-bit image.
\<close>

section \<open>Descriptors and state\<close>

type_synonym cstr = "byte list option"

datatype attr_type = e_p8_attr_str | e_p8_attr_f64 | e_p8_attr_i64 | e_p8_attr_u64

fun attr_code :: "attr_type \<Rightarrow> byte" where
  "attr_code e_p8_attr_str = 0" | "attr_code e_p8_attr_f64 = 1"
| "attr_code e_p8_attr_i64 = 2" | "attr_code e_p8_attr_u64 = 3"

text \<open>The enumeration is cast to the type code of the wire; \<^verbatim>\<open>engine/p8_static_checks.cpp\<close> asserts that they agree.\<close>

definition attr_static_checks :: bool where
  "attr_static_checks \<longleftrightarrow> attr_code e_p8_attr_str = P8_ATTR_TYPE_STR \<and> attr_code e_p8_attr_f64 = P8_ATTR_TYPE_F64 \<and>
     attr_code e_p8_attr_i64 = P8_ATTR_TYPE_I64 \<and> attr_code e_p8_attr_u64 = P8_ATTR_TYPE_U64"

lemma attr_codes_agree: attr_static_checks
  by (simp add: attr_static_checks_def P8_ATTR_TYPE_STR_def P8_ATTR_TYPE_F64_def P8_ATTR_TYPE_I64_def P8_ATTR_TYPE_U64_def)

record attr_desc =
  ad_id :: u32
  ad_type :: attr_type
  ad_name :: "byte list"

record log_mod =
  lm_name :: "byte list"
  lm_id :: u16
  lm_verb :: nat

record log_desc =
  ld_hash :: u64
  ld_format :: cstr
  ld_file :: cstr
  ld_function :: cstr
  ld_line :: u32
  ld_args :: "log_varg list"
  ld_fixed_args_size :: nat

record mtk_desc =
  md_id :: u32
  md_name :: "byte list"
  md_description :: cstr
  md_unit :: cstr
  md_flags :: u8
  md_min :: u64
  md_max :: u64

record reg_core = core +
  c_svc :: "(addr \<times> nat) list"
  c_allocs :: "bool list"
  c_attrs :: "attr_desc list"
  c_attr_names :: "byte list \<rightharpoonup> nat"
  c_mods :: "log_mod list"
  c_mod_names :: "byte list \<rightharpoonup> nat"
  c_verbosity :: nat
  c_log_descs :: "u64 \<rightharpoonup> log_desc"
  c_mtks :: "mtk_desc list"
  c_mtk_names :: "byte list \<rightharpoonup> nat"
  c_mtk_count :: u32

section \<open>Reserving room for an entry\<close>

text \<open>\<open>svc_acquire_new\<close>: a fresh buffer becomes the current one, or the entry is counted as dropped.\<close>

definition svc_acquire_new :: "'a reg_core_scheme \<Rightarrow> (addr \<times> nat) option \<times> 'a reg_core_scheme" where
  "svc_acquire_new c =
     (case acquire_buffer False c of
        (Acquired b, c1) \<Rightarrow> (Some (b, 0), c1\<lparr>c_svc := c_svc c1 @ [(b, 0)]\<rparr>)
      | (_, c1) \<Rightarrow> (None, c1\<lparr>c_drop_svc := c_drop_svc c1 + 1\<rparr>))"

text \<open>
  \<open>svc_reserve\<close>: the place of an entry of \<open>n\<close> zeroed bytes at the end of the current buffer,
  which is the last of the list, or in a fresh one.
\<close>

definition svc_take :: "nat \<Rightarrow> addr \<times> nat \<Rightarrow> 'a reg_core_scheme \<Rightarrow> (addr \<times> nat) option \<times> 'a reg_core_scheme" where
  "svc_take n cur c = (case cur of (b, u) \<Rightarrow>
     (Some (b, u), mem_write b u (replicate n 0) (c\<lparr>c_svc := butlast (c_svc c) @ [(b, u + n)]\<rparr>)))"

definition svc_reserve :: "nat \<Rightarrow> 'a reg_core_scheme \<Rightarrow> (addr \<times> nat) option \<times> 'a reg_core_scheme" where
  "svc_reserve n c =
     (if mz_data_buffer_size < n then (None, c)
      else case (if c_svc c = [] then svc_acquire_new c else (Some (last (c_svc c)), c)) of
          (None, c1) \<Rightarrow> (None, c1)
        | (Some cur, c1) \<Rightarrow>
            (if mz_data_buffer_size < snd cur + n then
               (case svc_acquire_new c1 of
                  (None, c2) \<Rightarrow> (None, c2)
                | (Some cur2, c2) \<Rightarrow> svc_take n cur2 c2)
             else svc_take n cur c1))"

section \<open>Serialising descriptors\<close>

text \<open>Over-long strings are cut by the length modulo the boundary.\<close>

definition svc_str :: "cstr \<Rightarrow> byte list" where
  "svc_str s = (case s of None \<Rightarrow> [] | Some bs \<Rightarrow> take (length bs mod P8_SVC_STR_MAX_LEN) bs)"

text \<open>
  Every serialiser reserves a padded entry, fills the fixed header in place and appends the
  variable part behind it; what it does not write stays zero.
\<close>

definition svc_write :: "nat \<Rightarrow> (nat \<Rightarrow> byte list) \<Rightarrow> byte list \<Rightarrow> 'a reg_core_scheme \<Rightarrow> 'a reg_core_scheme" where
  "svc_write hsz head body c =
     (let n = align_up_8 (hsz + length body) in
      case svc_reserve n c of
        (None, c1) \<Rightarrow> c1
      | (Some (b, u), c1) \<Rightarrow> mem_write b (u + hsz) body (mem_write b u (head n) c1))"

definition svc_hdr :: "u8 \<Rightarrow> nat \<Rightarrow> byte list" where
  "svc_hdr ty n = le_bytes 1 (unat P8_PACKET_SERVICE) @ le_bytes 1 (unat ty) @ le_bytes 2 (unat (of_nat n :: u16))"

definition attr_head :: "attr_desc \<Rightarrow> nat \<Rightarrow> byte list" where
  "attr_head d n = svc_hdr P8_SVC_TYPE_ATTR n @ le_bytes 4 (unat (ad_id d)) @ [attr_code (ad_type d)]"

definition serialize_attr_desc :: "attr_desc \<Rightarrow> 'a reg_core_scheme \<Rightarrow> 'a reg_core_scheme" where
  "serialize_attr_desc d = svc_write sz_attr_svc (attr_head d) (svc_str (Some (ad_name d)) @ [0])"

definition mod_head :: "log_mod \<Rightarrow> nat \<Rightarrow> byte list" where
  "mod_head m n = svc_hdr P8_SVC_TYPE_MODULE n @ le_bytes 2 (unat (lm_id m)) @ [of_nat (lm_verb m)]"

definition serialize_log_mod :: "log_mod \<Rightarrow> 'a reg_core_scheme \<Rightarrow> 'a reg_core_scheme" where
  "serialize_log_mod m = svc_write sz_log_mod_svc (mod_head m) (svc_str (Some (lm_name m)) @ [0])"

definition varg_bytes :: "log_varg list \<Rightarrow> byte list" where
  "varg_bytes vs = concat (map (\<lambda>a. [va_type a, va_size a]) vs)"

definition log_desc_head :: "log_desc \<Rightarrow> nat \<Rightarrow> byte list" where
  "log_desc_head d n = svc_hdr P8_SVC_TYPE_LOG_DESC n @ le_bytes 4 (unat (ld_line d)) @ le_bytes 8 (unat (ld_hash d)) @
     le_bytes 2 (length (svc_str (ld_format d))) @ le_bytes 2 (length (svc_str (ld_file d))) @
     le_bytes 2 (length (svc_str (ld_function d))) @ le_bytes 1 (length (take P8_LOG_MAX_ARGS (ld_args d)))"

definition serialize_log_desc :: "log_desc \<Rightarrow> 'a reg_core_scheme \<Rightarrow> 'a reg_core_scheme" where
  "serialize_log_desc d = svc_write sz_log_item_svc (log_desc_head d)
     (svc_str (ld_file d) @ svc_str (ld_function d) @ svc_str (ld_format d) @ varg_bytes (take P8_LOG_MAX_ARGS (ld_args d)))"

definition mtk_head :: "mtk_desc \<Rightarrow> nat \<Rightarrow> nat \<Rightarrow> byte list" where
  "mtk_head d cnt n = svc_hdr P8_SVC_TYPE_MTK n @ le_bytes 4 (unat (md_id d)) @ le_bytes 8 (unat (md_min d)) @
     le_bytes 8 (unat (md_max d)) @ le_bytes 1 (unat (md_flags d)) @ le_bytes 1 cnt @
     le_bytes 2 (length (svc_str (Some (md_name d)))) @ le_bytes 2 (length (svc_str (md_description d))) @
     le_bytes 2 (length (svc_str (md_unit d)))"

definition serialize_mtk_desc :: "mtk_desc \<Rightarrow> byte list \<Rightarrow> nat \<Rightarrow> 'a reg_core_scheme \<Rightarrow> 'a reg_core_scheme" where
  "serialize_mtk_desc d blob cnt = svc_write sz_mtk_svc (mtk_head d cnt)
     (svc_str (Some (md_name d)) @ svc_str (md_description d) @ svc_str (md_unit d) @ blob)"

section \<open>The service stream\<close>

definition svc_stream :: "'a reg_core_scheme \<Rightarrow> byte list" where
  "svc_stream c = concat (map (\<lambda>(b, u). take u (c_mem c b)) (c_svc c))"

definition svc_ok :: "'a reg_core_scheme \<Rightarrow> bool" where
  "svc_ok c \<longleftrightarrow> core_ok c \<and> pl_bufsz (c_pool c) = mz_data_buffer_size \<and>
     distinct (map fst (c_svc c)) \<and> set (map fst (c_svc c)) \<subseteq> core_owned c \<and>
     (\<forall>(b, u)\<in>set (c_svc c). u \<le> mz_data_buffer_size \<and> 8 dvd u)"

definition svc_entry :: "nat \<Rightarrow> (nat \<Rightarrow> byte list) \<Rightarrow> byte list \<Rightarrow> byte list" where
  "svc_entry hsz head body = (let n = align_up_8 (hsz + length body); h = head n in
     h @ replicate (hsz - length h) 0 @ body @ replicate (n - hsz - length body) 0)"

lemma svc_stream_cong:
  assumes "c_svc c' = c_svc c" "\<forall>p\<in>set (c_svc c). c_mem c' (fst p) = c_mem c (fst p)"
  shows "svc_stream c' = svc_stream c"
proof -
  have "map (\<lambda>(b, u). take u (c_mem c' b)) (c_svc c) = map (\<lambda>(b, u). take u (c_mem c b)) (c_svc c)"
    using assms(2) by (intro map_cong) auto
  then show ?thesis using assms(1) by (simp only: svc_stream_def)
qed

lemma svc_acquire_new_ok:
  assumes "svc_ok c" "svc_acquire_new c = (r, c')"
  shows "svc_ok c' \<and> svc_stream c' = svc_stream c \<and> c_ub c' = c_ub c \<and>
    (case r of Some p \<Rightarrow> snd p = 0 \<and> c_svc c' = c_svc c @ [p] \<and> c_drop_svc c' = c_drop_svc c
     | None \<Rightarrow> c_svc c' = c_svc c \<and> c_drop_svc c' = c_drop_svc c + 1)"
proof -
  obtain a c1 where acq: "acquire_buffer False c = (a, c1)" by (meson surj_pair)
  have ok: "core_ok c" and sz: "pl_bufsz (c_pool c) = mz_data_buffer_size" using assms(1) by (simp_all add: svc_ok_def)
  have drop: "c_drop_svc c1 = c_drop_svc c" "c_svc c1 = c_svc c"
    using acq by (auto simp: acquire_buffer_def Let_def notify_pressure_def notify_def split: if_splits option.splits prod.splits)
  show ?thesis
  proof (cases "\<exists>b. a = Acquired b")
    case True
    then obtain b where a: "acquire_buffer False c = (Acquired b, c1)" using acq by auto
    note new = acquired_writer [OF ok a, of "map fst (c_svc c)"]
    have sub: "set (map fst (c_svc c)) \<subseteq> core_owned c" using assms(1) by (simp add: svc_ok_def)
    have c': "r = Some (b, 0)" "c' = c1\<lparr>c_svc := c_svc c1 @ [(b, 0)]\<rparr>"
      using assms(2) a by (simp_all add: svc_acquire_new_def)
    have "svc_ok c'"
      using assms(1) c' new [OF sub] drop sz unfolding svc_ok_def by (auto simp: core_ok_def core_owned_def)
    moreover have "svc_stream c' = svc_stream c"
      using c' drop new(4) [OF sub] by (simp add: svc_stream_def)
    ultimately show ?thesis using c' drop new(5) [OF sub] by simp
  next
    case False
    then have c': "r = None" "c' = c1\<lparr>c_drop_svc := c_drop_svc c1 + 1\<rparr>"
      using assms(2) acq by (auto simp: svc_acquire_new_def split: acquire_result.splits)
    note ref = refused_writer [OF ok acq] False
    then have "svc_ok c'"
      using assms(1) c' drop sz unfolding svc_ok_def by (auto simp: core_ok_def core_owned_def)
    moreover have "svc_stream c' = svc_stream c"
      using c' drop ref by (simp add: svc_stream_def)
    ultimately show ?thesis using c' drop ref by simp
  qed
qed

text \<open>Filling the reserved place writes the entry, padding included.\<close>

lemma put_entry:
  assumes "u + n \<le> length m" "length h \<le> hsz" "hsz + length body \<le> n"
  shows "put_bytes (u + hsz) body (put_bytes u h (put_bytes u (replicate n 0) m)) =
    put_bytes u (h @ replicate (hsz - length h) 0 @ body @ replicate (n - hsz - length body) 0) m"
proof -
  have "replicate n 0 = replicate (length h) (0::'a) @ replicate (hsz - length h) 0 @ replicate (length body) 0 @ replicate (n - hsz - length body) 0"
    using assms by (simp add: replicate_add [symmetric])
  moreover have "u \<le> length m" using assms(1) by simp
  ultimately show ?thesis using assms
    by (auto simp: put_bytes_def min_def)
qed

lemma svc_ok_mem:
  assumes "svc_ok c" "length m = length (c_mem c b)"
  shows "svc_ok (c\<lparr>c_mem := (c_mem c)(b := m)\<rparr>)"
  using assms by (simp add: svc_ok_def core_ok_mem)

text \<open>Filling the entry behind the used part of the last buffer.\<close>

lemma svc_fill:
  fixes u :: nat
  defines "e n head hsz body \<equiv> head n @ replicate (hsz - length (head n)) 0 @ body @ replicate (n - hsz - length body) (0::byte)"
  assumes ok: "svc_ok c" and svc: "c_svc c = xs @ [(b, u)]" and fit: "u + n \<le> mz_data_buffer_size" and n: "8 dvd n"
    and h: "length (head n) \<le> hsz" and body: "hsz + length body \<le> n" and take: "svc_take n (b, u) c = (Some (b, u), c1)"
  shows "svc_ok (mem_write b (u + hsz) body (mem_write b u (head n) c1)) \<and>
    svc_stream (mem_write b (u + hsz) body (mem_write b u (head n) c1)) = svc_stream c @ e n head hsz body \<and>
    c_ub (mem_write b (u + hsz) body (mem_write b u (head n) c1)) = c_ub c \<and>
    c_drop_svc (mem_write b (u + hsz) body (mem_write b u (head n) c1)) = c_drop_svc c"
proof -
  have len: "length (c_mem c b) = mz_data_buffer_size" using ok by (simp add: svc_ok_def core_ok_def)
  let ?m = "put_bytes u (e n head hsz body) (c_mem c b)"
  let ?c = "c\<lparr>c_mem := (c_mem c)(b := ?m), c_svc := xs @ [(b, u + n)]\<rparr>"
  have el: "length (e n head hsz body) = n" using h body by (simp add: e_def)
  have c1: "c1 = c\<lparr>c_svc := xs @ [(b, u + n)], c_mem := (c_mem c)(b := put_bytes u (replicate n 0) (c_mem c b))\<rparr>"
    using take svc fit len by (simp add: svc_take_def mem_write_def)
  have "mem_write b (u + hsz) body (mem_write b u (head n) c1) = ?c"
    using c1 len fit h body put_entry [of u n "c_mem c b" "head n" hsz body]
    by (simp add: mem_write_def e_def)
  moreover have "svc_ok ?c"
  proof -
    have "svc_ok (c\<lparr>c_mem := (c_mem c)(b := ?m)\<rparr>)" using ok len fit el by (intro svc_ok_mem) simp_all
    then show ?thesis using svc fit n by (auto simp: svc_ok_def core_ok_def core_owned_def)
  qed
  moreover have "svc_stream ?c = svc_stream c @ e n head hsz body"
  proof -
    have "b \<notin> set (map fst xs)" using ok svc by (simp add: svc_ok_def)
    then have "concat (map (\<lambda>(a, v). take v (if a = b then ?m else c_mem c a)) xs) = concat (map (\<lambda>(a, v). take v (c_mem c a)) xs)"
      by (intro arg_cong [where f = concat] map_cong) force+
    moreover have "take (u + n) ?m = take u (c_mem c b) @ e n head hsz body"
      using el len fit by (simp add: put_bytes_def min_def)
    ultimately show ?thesis using svc by (simp add: svc_stream_def)
  qed
  ultimately show ?thesis by simp
qed

text \<open>
  Serialising a descriptor appends its entry to the stream, or, when it does not fit any buffer or
  the pool is exhausted, leaves the stream alone.
\<close>

lemma svc_write_appends:
  fixes body :: "byte list" and c :: "'a reg_core_scheme"
  assumes ok: "svc_ok c" and h: "\<And>n. length (head n) \<le> hsz"
  defines "n \<equiv> align_up_8 (hsz + length body)" and "c' \<equiv> svc_write hsz head body c"
  shows "svc_ok c' \<and> c_ub c' = c_ub c \<and>
    (svc_stream c' = svc_stream c @ svc_entry hsz head body \<and> c_drop_svc c' = c_drop_svc c \<or>
     svc_stream c' = svc_stream c \<and>
       (if mz_data_buffer_size < n then c_drop_svc c' = c_drop_svc c else c_drop_svc c' = c_drop_svc c + 1))"
proof (cases "mz_data_buffer_size < n")
  case True
  then show ?thesis using ok by (simp add: c'_def svc_write_def svc_reserve_def n_def)
next
  case fits: False
  have n8: "8 dvd n" and body: "hsz + length body \<le> n" by (simp_all add: n_def align_up_8_bounds)
  have entry: "svc_entry hsz head body = head n @ replicate (hsz - length (head n)) 0 @ body @ replicate (n - hsz - length body) 0"
    by (simp add: svc_entry_def n_def Let_def)
  obtain r c1 where r: "(if c_svc c = [] then svc_acquire_new c else (Some (last (c_svc c)), c)) = (r, c1)" by (meson surj_pair)
  have fr: "svc_ok c1 \<and> svc_stream c1 = svc_stream c \<and> c_ub c1 = c_ub c \<and>
      (case r of Some p \<Rightarrow> c_svc c1 \<noteq> [] \<and> p = last (c_svc c1) \<and> c_drop_svc c1 = c_drop_svc c | None \<Rightarrow> c_drop_svc c1 = c_drop_svc c + 1)"
  proof (cases "c_svc c = []")
    case True
    with r have "svc_acquire_new c = (r, c1)" by simp
    from svc_acquire_new_ok [OF ok this] True show ?thesis by (cases r) simp_all
  next
    case False
    with r have "r = Some (last (c_svc c))" "c1 = c" by auto
    with ok False show ?thesis by simp
  qed
  show ?thesis
  proof (cases r)
    case None
    then have "c' = c1" using r fits by (simp add: c'_def svc_write_def svc_reserve_def n_def)
    then show ?thesis using fr None fits by simp
  next
    case (Some cur)
    obtain b u where cur: "cur = (b, u)" by fastforce
    have "c_svc c1 \<noteq> []" "last (c_svc c1) = (b, u)" using fr Some cur by simp_all
    then have last: "c_svc c1 = butlast (c_svc c1) @ [(b, u)]" using append_butlast_last_id by fastforce
    show ?thesis
    proof (cases "mz_data_buffer_size < u + n")
      case False
      obtain c2 where take: "svc_take n (b, u) c1 = (Some (b, u), c2)" by (simp add: svc_take_def)
      have "c' = mem_write b (u + hsz) body (mem_write b u (head n) c2)"
        using r Some cur False fits take by (simp add: c'_def svc_write_def svc_reserve_def n_def)
      moreover have "svc_ok c1" "u + n \<le> mz_data_buffer_size" using fr False by simp_all
      note svc_fill [where head = head, OF this(1) last this(2) n8 h [of n] body take]
      ultimately show ?thesis using fr Some entry by simp
    next
      case full: True
      obtain r2 c2 where r2: "svc_acquire_new c1 = (r2, c2)" by (meson surj_pair)
      have new: "svc_ok c2 \<and> svc_stream c2 = svc_stream c \<and> c_ub c2 = c_ub c \<and>
          (case r2 of Some p \<Rightarrow> snd p = 0 \<and> c_svc c2 = c_svc c1 @ [p] \<and> c_drop_svc c2 = c_drop_svc c | None \<Rightarrow> c_drop_svc c2 = c_drop_svc c + 1)"
      proof -
        have "svc_ok c1" using fr by simp
        from svc_acquire_new_ok [OF this r2] fr Some show ?thesis by (cases r2) simp_all
      qed
      show ?thesis
      proof (cases r2)
        case None
        then have "c' = c2"
          using r \<open>r = Some cur\<close> cur full fits r2 by (simp add: c'_def svc_write_def svc_reserve_def n_def)
        then show ?thesis using new None fits by simp
      next
        case (Some cur2)
        obtain b2 where cur2: "cur2 = (b2, 0)" using new Some by (cases cur2) auto
        then have last2: "c_svc c2 = c_svc c1 @ [(b2, 0)]" using new Some by simp
        obtain c3 where take: "svc_take n (b2, 0) c2 = (Some (b2, 0), c3)" by (simp add: svc_take_def)
        have "c' = mem_write b2 (0 + hsz) body (mem_write b2 0 (head n) c3)"
          using r \<open>r = Some cur\<close> cur full fits r2 Some cur2 take
          by (simp add: c'_def svc_write_def svc_reserve_def n_def)
        moreover have "svc_ok c2" "0 + n \<le> mz_data_buffer_size" using new fits by simp_all
        note svc_fill [where head = head, OF this(1) last2 this(2) n8 h [of n] body take]
        ultimately show ?thesis using new \<open>r2 = Some cur2\<close> entry by simp
      qed
    qed
  qed
qed

section \<open>What a receiver reads\<close>

text \<open>A receiver walks the stream by the size field of each entry header.\<close>

function svc_split :: "byte list \<Rightarrow> byte list list" where
  "svc_split bs = (let n = get_le 2 2 bs in
     if n < 4 \<or> length bs < n then [] else take n bs # svc_split (drop n bs))"
  by auto
termination by (relation "measure length") auto

declare svc_split.simps [simp del]

definition entry_wf :: "byte list \<Rightarrow> bool" where
  "entry_wf e \<longleftrightarrow> 4 \<le> length e \<and> get_le 2 2 e = length e"

lemma get_le_append: "off + k \<le> length xs \<Longrightarrow> get_le off k (xs @ ys) = get_le off k xs"
  by (simp add: get_le_def sub_bytes_def)

lemma svc_split_Cons: "entry_wf e \<Longrightarrow> svc_split (e @ rest) = e # svc_split rest"
  by (subst svc_split.simps) (simp add: entry_wf_def get_le_append)

lemma svc_split_concat: "\<forall>e\<in>set es. entry_wf e \<Longrightarrow> svc_split (concat es) = es"
proof (induction es)
  case Nil
  have "get_le 2 2 [] = 0" by (simp add: get_le_def sub_bytes_def)
  then show ?case by (subst svc_split.simps) simp
qed (simp add: svc_split_Cons)

lemma length_svc_hdr [simp]: "length (svc_hdr ty n) = 4"
  by (simp add: svc_hdr_def)

lemma get_le_svc_hdr: "n < 65536 \<Longrightarrow> get_le 2 2 (svc_hdr ty n @ rest) = n"
  by (simp add: svc_hdr_def get_le_def sub_bytes_def unat_of_nat_u16 del: le_bytes.simps)

text \<open>The descriptors the core serialises, with the entry each of them stands for.\<close>

datatype svc_item = SI_attr attr_desc | SI_mod log_mod | SI_log log_desc | SI_mtk mtk_desc "byte list" nat

fun item_parts :: "svc_item \<Rightarrow> nat \<times> (nat \<Rightarrow> byte list) \<times> byte list" where
  "item_parts (SI_attr d) = (sz_attr_svc, attr_head d, svc_str (Some (ad_name d)) @ [0])"
| "item_parts (SI_mod m) = (sz_log_mod_svc, mod_head m, svc_str (Some (lm_name m)) @ [0])"
| "item_parts (SI_log d) = (sz_log_item_svc, log_desc_head d,
     svc_str (ld_file d) @ svc_str (ld_function d) @ svc_str (ld_format d) @ varg_bytes (take P8_LOG_MAX_ARGS (ld_args d)))"
| "item_parts (SI_mtk d blob cnt) = (sz_mtk_svc, mtk_head d cnt,
     svc_str (Some (md_name d)) @ svc_str (md_description d) @ svc_str (md_unit d) @ blob)"

fun serialize_item :: "svc_item \<Rightarrow> 'a reg_core_scheme \<Rightarrow> 'a reg_core_scheme" where
  "serialize_item (SI_attr d) = serialize_attr_desc d"
| "serialize_item (SI_mod m) = serialize_log_mod m"
| "serialize_item (SI_log d) = serialize_log_desc d"
| "serialize_item (SI_mtk d blob cnt) = serialize_mtk_desc d blob cnt"

definition item_entry :: "svc_item \<Rightarrow> byte list" where
  "item_entry it = (case item_parts it of (hsz, head, body) \<Rightarrow> svc_entry hsz head body)"

definition item_size :: "svc_item \<Rightarrow> nat" where
  "item_size it = (case item_parts it of (hsz, head, body) \<Rightarrow> align_up_8 (hsz + length body))"

lemma serialize_item_write: "serialize_item it = (case item_parts it of (hsz, head, body) \<Rightarrow> svc_write hsz head body)"
  by (cases it) (simp_all add: serialize_attr_desc_def serialize_log_mod_def serialize_log_desc_def serialize_mtk_desc_def)

lemma item_head:
  assumes "item_parts it = (hsz, head, body)"
  obtains ty rest where "\<forall>n. head n = svc_hdr ty n @ rest" "4 + length rest \<le> hsz"
  using assms by (cases it; (auto simp: attr_head_def mod_head_def log_desc_head_def mtk_head_def; blast))

lemma item_entry_wf:
  assumes "item_size it < 65536"
  shows "length (item_entry it) = item_size it" and "entry_wf (item_entry it)"
proof -
  obtain hsz head body where p: "item_parts it = (hsz, head, body)" by (metis prod_cases3)
  obtain ty rest where h: "\<forall>n. head n = svc_hdr ty n @ rest" "4 + length rest \<le> hsz" by (rule item_head [OF p])
  let ?n = "align_up_8 (hsz + length body)"
  have n: "hsz + length body \<le> ?n" by (rule align_up_8_bounds)
  have e: "item_entry it = svc_hdr ty ?n @ rest @ replicate (hsz - (4 + length rest)) 0 @ body @ replicate (?n - hsz - length body) 0"
    using p h(1) by (simp add: item_entry_def svc_entry_def Let_def)
  then show len: "length (item_entry it) = item_size it" using n h(2) p by (simp add: item_size_def)
  have "get_le 2 2 (item_entry it) = ?n" unfolding e using assms p by (intro get_le_svc_hdr) (simp add: item_size_def)
  then show "entry_wf (item_entry it)" using len n h(2) p by (simp add: entry_wf_def item_size_def)
qed

lemma serialize_item_appends:
  assumes "svc_ok c"
  shows "svc_ok (serialize_item it c) \<and> c_ub (serialize_item it c) = c_ub c \<and>
    (svc_stream (serialize_item it c) = svc_stream c @ item_entry it \<and> c_drop_svc (serialize_item it c) = c_drop_svc c \<or>
     svc_stream (serialize_item it c) = svc_stream c \<and>
       (if mz_data_buffer_size < item_size it then c_drop_svc (serialize_item it c) = c_drop_svc c
        else c_drop_svc (serialize_item it c) = c_drop_svc c + 1))"
proof -
  obtain hsz head body where p: "item_parts it = (hsz, head, body)" by (metis prod_cases3)
  have hl: "length (head n) \<le> hsz" for n by (rule item_head [OF p]) simp
  from svc_write_appends [where head = head and hsz = hsz, OF assms hl, of body] show ?thesis
    unfolding serialize_item_write item_entry_def item_size_def p by auto
qed


section \<open>Properties of the service stream\<close>

lemma subseq_set: "subseq xs ys \<Longrightarrow> set xs \<subseteq> set ys"
  by (induction rule: list_emb.induct) auto

lemma item_too_big: "mz_data_buffer_size < item_size it \<Longrightarrow> serialize_item it c = c"
  by (simp add: serialize_item_write item_size_def svc_write_def svc_reserve_def split: prod.splits)

text \<open>A descriptor whose padded entry fits a buffer; the others are left out.\<close>

definition item_fits :: "svc_item \<Rightarrow> bool" where
  "item_fits it \<longleftrightarrow> item_size it \<le> mz_data_buffer_size"

lemma svc_stream_items:
  assumes "svc_ok c" "svc_stream c = concat (map item_entry before)"
  shows "\<exists>kept. subseq kept (filter item_fits its) \<and> svc_ok (fold serialize_item its c) \<and>
    c_ub (fold serialize_item its c) = c_ub c \<and>
    svc_stream (fold serialize_item its c) = concat (map item_entry (before @ kept)) \<and>
    c_drop_svc (fold serialize_item its c) + of_nat (length kept) = c_drop_svc c + of_nat (length (filter item_fits its))"
  using assms
proof (induction its arbitrary: c before)
  case Nil
  then show ?case by (intro exI [of _ "[]"]) simp
next
  case (Cons it its)
  let ?c = "serialize_item it c"
  note step = serialize_item_appends [OF Cons.prems(1), of it]
  consider (big) "\<not> item_fits it" "?c = c"
    | (kept) "item_fits it" "svc_stream ?c = svc_stream c @ item_entry it" "c_drop_svc ?c = c_drop_svc c"
    | (lost) "item_fits it" "svc_stream ?c = svc_stream c" "c_drop_svc ?c = c_drop_svc c + 1"
    using step item_too_big [of it c] by (cases "mz_data_buffer_size < item_size it") (auto simp: item_fits_def)
  then show ?case
  proof cases
    case big
    then show ?thesis using Cons.IH [OF Cons.prems] by simp
  next
    case kept
    have "svc_stream ?c = concat (map item_entry (before @ [it]))" using kept Cons.prems(2) by simp
    from Cons.IH [OF _ this] step obtain ks where "subseq ks (filter item_fits its)" "svc_ok (fold serialize_item its ?c)"
      "c_ub (fold serialize_item its ?c) = c_ub ?c"
      "svc_stream (fold serialize_item its ?c) = concat (map item_entry ((before @ [it]) @ ks))"
      "c_drop_svc (fold serialize_item its ?c) + of_nat (length ks) = c_drop_svc ?c + of_nat (length (filter item_fits its))" by blast
    with kept step show ?thesis by (intro exI [of _ "it # ks"]) (simp add: algebra_simps)
  next
    case lost
    have "svc_stream ?c = concat (map item_entry before)" using lost Cons.prems(2) by simp
    from Cons.IH [OF _ this] step obtain ks where "subseq ks (filter item_fits its)" "svc_ok (fold serialize_item its ?c)"
      "c_ub (fold serialize_item its ?c) = c_ub ?c"
      "svc_stream (fold serialize_item its ?c) = concat (map item_entry (before @ ks))"
      "c_drop_svc (fold serialize_item its ?c) + of_nat (length ks) = c_drop_svc ?c + of_nat (length (filter item_fits its))" by blast
    moreover from this(1) have "subseq ks (it # filter item_fits its)" by (rule list_emb_Cons)
    ultimately show ?thesis using lost step by (intro exI [of _ ks]) (simp add: algebra_simps)
  qed
qed

text \<open>
  C6: Whatever descriptors are serialised, in whatever order, and however often the pool runs dry
  in between, the service buffers hold a stream that a receiver splits back into whole entries, each exactly as
  serialised, and nothing is written outside a buffer. The entries are those of a subsequence of the descriptors
  that fit a buffer, in order, and the drop counter (a 64-bit one) says how many of these are missing. A descriptor
  whose entry is larger than a buffer is never there, and the counter does not count it.
\<close>

theorem service_stream_roundtrip:
  assumes "svc_ok c" and "c_svc c = []"
  shows "\<exists>kept. subseq kept (filter item_fits its) \<and>
    svc_split (svc_stream (fold serialize_item its c)) = map item_entry kept \<and>
    c_ub (fold serialize_item its c) = c_ub c \<and>
    c_drop_svc (fold serialize_item its c) + of_nat (length kept) = c_drop_svc c + of_nat (length (filter item_fits its))"
proof -
  have "svc_stream c = concat (map item_entry [])" using assms(2) by (simp add: svc_stream_def)
  from svc_stream_items [OF assms(1) this, of its] obtain kept where kept: "subseq kept (filter item_fits its)"
    "svc_stream (fold serialize_item its c) = concat (map item_entry kept)" "c_ub (fold serialize_item its c) = c_ub c"
    "c_drop_svc (fold serialize_item its c) + of_nat (length kept) = c_drop_svc c + of_nat (length (filter item_fits its))"
    by (metis append_Nil)
  have "entry_wf e" if e: "e \<in> set (map item_entry kept)" for e
  proof -
    obtain it where it: "e = item_entry it" "it \<in> set kept" using e by auto
    then have "item_fits it" using subseq_set [OF kept(1)] by auto
    then have "item_size it < 65536" by (simp add: item_fits_def mz_data_buffer_size_def)
    then show ?thesis using it item_entry_wf(2) by simp
  qed
  then have "svc_split (concat (map item_entry kept)) = map item_entry kept" by (intro svc_split_concat) blast
  with kept show ?thesis by auto
qed

definition demo_reg :: reg_core where
  "demo_reg = \<lparr>c_initialized = True, c_pool = pool_new mz_data_buffer_size (Some (new_budget 8192)) [Some 1],
     c_mem = (\<lambda>_. replicate mz_data_buffer_size 0), c_ub = False, c_outstanding = 0, c_wake_pending = False,
     c_wakes = 0, c_ready = [], c_drop_logs = 0, c_drop_metrics = 0, c_drop_traces = 0, c_drop_svc = 0,
     c_svc = [], c_allocs = replicate 20 True, c_attrs = [], c_attr_names = (\<lambda>_. None), c_mods = [],
     c_mod_names = (\<lambda>_. None), c_verbosity = 0, c_log_descs = (\<lambda>_. None), c_mtks = [],
     c_mtk_names = (\<lambda>_. None), c_mtk_count = 0\<rparr>"

lemma demo_reg_ok: "svc_ok demo_reg" "c_svc demo_reg = []"
proof -
  have "pool_ok (pool_new mz_data_buffer_size (Some (new_budget 8192)) [Some 1])"
    by (rule pool_ok_new) (simp_all add: mz_data_buffer_size_def new_budget_def List.map_filter_simps)
  then show "svc_ok demo_reg" "c_svc demo_reg = []"
    by (simp_all add: svc_ok_def core_ok_def demo_reg_def) (simp_all add: pool_new_def)
qed

text \<open>Three descriptors: a module, a metric whose attributes do not fit a buffer, another module.\<close>

definition demo_items :: "svc_item list" where
  "demo_items = [SI_mod \<lparr>lm_name = [97, 98], lm_id = 0, lm_verb = 3\<rparr>,
     SI_mtk \<lparr>md_id = 0, md_name = [99], md_description = None, md_unit = None, md_flags = 1, md_min = 0, md_max = 0\<rparr> (replicate 9000 0) 1,
     SI_mod \<lparr>lm_name = [100], lm_id = 1, lm_verb = 3\<rparr>]"

lemma service_stream_roundtrip_witness:
  "\<exists>kept. subseq kept [demo_items ! 0, demo_items ! 2] \<and>
     svc_split (svc_stream (fold serialize_item demo_items demo_reg)) = map item_entry kept \<and>
     c_drop_svc (fold serialize_item demo_items demo_reg) + of_nat (length kept) = 2"
proof -
  have "filter item_fits demo_items = [demo_items ! 0, demo_items ! 2]"
    by (simp add: demo_items_def item_fits_def item_size_def svc_str_def align_up_8_def mz_data_buffer_size_def P8_SVC_STR_MAX_LEN_def)
  with service_stream_roundtrip [OF demo_reg_ok, of demo_items] show ?thesis by (auto simp: demo_reg_def)
qed

text \<open>A receiver's view of an attribute entry: id, type code and NUL-terminated name.\<close>

definition dec_attr_entry :: "byte list \<Rightarrow> nat \<times> byte \<times> byte list" where
  "dec_attr_entry e = (get_le 4 4 e, e ! 8, takeWhile (\<lambda>b. b \<noteq> 0) (drop sz_attr_svc e))"

text \<open>
  C33: An attribute descriptor survives the wire when its name is shorter than the boundary: the
  receiver reads back id, type and name from the entry. A name of exactly the boundary's
  length, or a multiple of it, arrives empty: the length is reduced modulo the boundary where
  the protocol header promises truncation to it.
\<close>

theorem attr_entry_decodes:
  assumes "0 \<notin> set (ad_name d)"
  shows "dec_attr_entry (item_entry (SI_attr d)) = (unat (ad_id d), attr_code (ad_type d), take (length (ad_name d) mod 1024) (ad_name d)) \<and>
    (length (ad_name d) < 1024 \<longrightarrow> snd (snd (dec_attr_entry (item_entry (SI_attr d)))) = ad_name d) \<and>
    (1024 dvd length (ad_name d) \<longrightarrow> snd (snd (dec_attr_entry (item_entry (SI_attr d)))) = [])"
proof -
  let ?name = "take (length (ad_name d) mod 1024) (ad_name d)"
  let ?n = "align_up_8 (12 + length (?name @ [0]))"
  let ?h = "svc_hdr P8_SVC_TYPE_ATTR ?n @ le_bytes 4 (unat (ad_id d)) @ [attr_code (ad_type d)]"
  obtain pad where e: "item_entry (SI_attr d) = ?h @ replicate 3 0 @ ?name @ [0] @ pad"
    by (simp add: item_entry_def svc_entry_def attr_head_def svc_str_def P8_SVC_STR_MAX_LEN_def Let_def)
  have "0 \<notin> set ?name" using assms in_set_takeD by metis
  then have "takeWhile (\<lambda>b. b \<noteq> 0) (?name @ [0] @ pad) = ?name"
    by (subst takeWhile_append2) auto
  moreover have "drop 12 (item_entry (SI_attr d)) = ?name @ [0] @ pad" unfolding e by simp
  moreover have "get_le 4 4 (item_entry (SI_attr d)) = unat (ad_id d)"
    unfolding e by (simp add: get_le_def sub_bytes_def svc_hdr_def del: le_bytes.simps)
  moreover have "item_entry (SI_attr d) ! 8 = attr_code (ad_type d)"
    unfolding e by (simp add: nth_append)
  ultimately show ?thesis by (auto simp: dec_attr_entry_def)
qed

lemma attr_entry_decodes_witness:
  "snd (snd (dec_attr_entry (item_entry (SI_attr \<lparr>ad_id = 0, ad_type = e_p8_attr_str, ad_name = replicate 1024 97\<rparr>)))) = []"
  using attr_entry_decodes [of "\<lparr>ad_id = 0, ad_type = e_p8_attr_str, ad_name = replicate 1024 97\<rparr>"]
  by (simp add: in_set_replicate)

end
