(* ===== verification/Registry.thy ===== *)
theory Registry
  imports SvcData
begin

text \<open>
  The registries of \<^verbatim>\<open>cp8_core\<close> (\<^verbatim>\<open>engine/p8_core.cpp\<close>): attributes, log modules, metrics and log
  descriptors. Each is a vector of descriptors with a name map beside it; a new descriptor is
  serialised once. \<open>c_allocs\<close> are the answers of \<^verbatim>\<open>new(std::nothrow)\<close> and \<^verbatim>\<open>str_dup\<close>. Ids are
  natural numbers (a registry of \<open>2 ^ 31\<close> entries is out of reach) except the 16-bit module id.
\<close>

section \<open>Attributes\<close>

definition P8_ATTR_ERROR_NOT_INITIALIZED :: int where "P8_ATTR_ERROR_NOT_INITIALIZED = -1"
definition P8_ATTR_ERROR_INVALID_NAME :: int where "P8_ATTR_ERROR_INVALID_NAME = -2"
definition P8_ATTR_ERROR_TYPE_MISMATCH :: int where "P8_ATTR_ERROR_TYPE_MISMATCH = -3"
definition P8_ATTR_ERROR_ALLOC_FAILED :: int where "P8_ATTR_ERROR_ALLOC_FAILED = -4"
definition P8_ATTR_ERROR_NOT_FOUND :: int where "P8_ATTR_ERROR_NOT_FOUND = -5"

definition alloc :: "'a reg_core_scheme \<Rightarrow> bool \<times> 'a reg_core_scheme" where
  "alloc c = (case c_allocs c of [] \<Rightarrow> (False, c) | r # rs \<Rightarrow> (r, c\<lparr>c_allocs := rs\<rparr>))"

text \<open>The first of \<open>n\<close> allocations that fails ends the attempt.\<close>

primrec alloc_all :: "nat \<Rightarrow> 'a reg_core_scheme \<Rightarrow> bool \<times> 'a reg_core_scheme" where
  "alloc_all 0 c = (True, c)"
| "alloc_all (Suc n) c = (case alloc c of (False, c1) \<Rightarrow> (False, c1) | (True, c1) \<Rightarrow> alloc_all n c1)"

definition no_name :: "cstr \<Rightarrow> bool" where
  "no_name s \<longleftrightarrow> s = None \<or> s = Some []"

definition attr_register :: "cstr \<Rightarrow> attr_type \<Rightarrow> 'a reg_core_scheme \<Rightarrow> int \<times> 'a reg_core_scheme" where
  "attr_register ip_name ty c =
     (if \<not> c_initialized c then (P8_ATTR_ERROR_NOT_INITIALIZED, c)
      else if no_name ip_name then (P8_ATTR_ERROR_INVALID_NAME, c)
      else let nm = the ip_name in
        case c_attr_names c nm of
          Some i \<Rightarrow> (if ad_type (c_attrs c ! i) \<noteq> ty then (P8_ATTR_ERROR_TYPE_MISMATCH, c) else (int i, c))
        | None \<Rightarrow>
            (case alloc_all 2 c of
               (False, c1) \<Rightarrow> (P8_ATTR_ERROR_ALLOC_FAILED, c1)
             | (True, c1) \<Rightarrow>
                 (let i = length (c_attrs c1);
                      d = \<lparr>ad_id = of_nat i, ad_type = ty, ad_name = nm\<rparr>;
                      c2 = c1\<lparr>c_attrs := c_attrs c1 @ [d], c_attr_names := (c_attr_names c1)(nm \<mapsto> i)\<rparr>
                  in (int i, serialize_attr_desc d c2))))"

definition attr_get :: "cstr \<Rightarrow> 'a reg_core_scheme \<Rightarrow> int" where
  "attr_get ip_name c =
     (if \<not> c_initialized c then P8_ATTR_ERROR_NOT_INITIALIZED
      else if no_name ip_name then P8_ATTR_ERROR_NOT_FOUND
      else case c_attr_names c (the ip_name) of Some i \<Rightarrow> int i | None \<Rightarrow> P8_ATTR_ERROR_NOT_FOUND)"

text \<open>The writer's copy of the registry grows by the entries it has not seen.\<close>

definition sync_attr_cache :: "attr_desc list \<Rightarrow> 'a reg_core_scheme \<Rightarrow> attr_desc list" where
  "sync_attr_cache cache c =
     (if length (c_attrs c) \<le> length cache then cache else cache @ drop (length cache) (c_attrs c))"

section \<open>Modules\<close>

text \<open>A module handle is a pointer to the registered object: its index; null is \<open>None\<close>.\<close>

definition register_module :: "cstr \<Rightarrow> nat \<Rightarrow> bool \<Rightarrow> 'a reg_core_scheme \<Rightarrow> (bool \<times> nat option) \<times> 'a reg_core_scheme" where
  "register_module ip_name verb has_out c =
     (if \<not> c_initialized c then ((False, None), c)
      else if no_name ip_name \<or> \<not> has_out then ((False, None), c)
      else let nm = the ip_name in
        case c_mod_names c nm of
          Some i \<Rightarrow> ((True, Some i), c\<lparr>c_mods := (c_mods c)[i := (c_mods c ! i)\<lparr>lm_verb := verb\<rparr>]\<rparr>)
        | None \<Rightarrow>
            (case alloc_all 2 c of
               (False, c1) \<Rightarrow> ((False, None), c1)
             | (True, c1) \<Rightarrow>
                 (let i = length (c_mods c1);
                      m = \<lparr>lm_name = nm, lm_id = of_nat i, lm_verb = verb\<rparr>;
                      c2 = c1\<lparr>c_mods := c_mods c1 @ [m], c_mod_names := (c_mod_names c1)(nm \<mapsto> i)\<rparr>
                  in ((True, Some i), serialize_log_mod m c2))))"

definition find_module :: "cstr \<Rightarrow> 'a reg_core_scheme \<Rightarrow> nat option" where
  "find_module ip_name c =
     (if \<not> c_initialized c \<or> no_name ip_name then None else c_mod_names c (the ip_name))"

definition set_verbosity :: "nat option \<Rightarrow> nat \<Rightarrow> 'a reg_core_scheme \<Rightarrow> 'a reg_core_scheme" where
  "set_verbosity h verb c =
     (case h of None \<Rightarrow> c\<lparr>c_verbosity := verb\<rparr>
      | Some i \<Rightarrow> c\<lparr>c_mods := (c_mods c)[i := (c_mods c ! i)\<lparr>lm_verb := verb\<rparr>]\<rparr>)"

definition get_verbosity :: "nat option \<Rightarrow> 'a reg_core_scheme \<Rightarrow> nat" where
  "get_verbosity h c = (case h of None \<Rightarrow> c_verbosity c | Some i \<Rightarrow> lm_verb (c_mods c ! i))"

section \<open>Metrics\<close>

definition P8_MTK_ERROR_NOT_INITIALIZED :: int where "P8_MTK_ERROR_NOT_INITIALIZED = -1"
definition P8_MTK_ERROR_INVALID_NAME :: int where "P8_MTK_ERROR_INVALID_NAME = -2"
definition P8_MTK_ERROR_ALLOC_FAILED :: int where "P8_MTK_ERROR_ALLOC_FAILED = -3"
definition P8_MTK_ERROR_CONFLICT :: int where "P8_MTK_ERROR_CONFLICT = -4"

text \<open>
  An attribute value: its id and its 8 bytes, which are a string pointer for a string
  attribute (\<open>av_str\<close> is what it points to).
\<close>

record attr_val =
  av_id :: int
  av_u64 :: u64
  av_str :: cstr

record mtk_base =
  mb_name :: cstr
  mb_description :: cstr
  mb_unit :: cstr
  mb_on :: bool
  mb_min :: u64
  mb_max :: u64
  mb_attrs :: "attr_val list option"

text \<open>\<^verbatim>\<open>==\<close> on doubles, on their images: NaN equals nothing, the two zeros are equal.\<close>

definition f64_is_nan :: "u64 \<Rightarrow> bool" where
  "f64_is_nan w \<longleftrightarrow> 0x7FF0000000000000 < unat w mod 2 ^ 63"

definition f64_eq :: "u64 \<Rightarrow> u64 \<Rightarrow> bool" where
  "f64_eq a b \<longleftrightarrow> \<not> f64_is_nan a \<and> \<not> f64_is_nan b \<and> (a = b \<or> unat a mod 2 ^ 63 = 0 \<and> unat b mod 2 ^ 63 = 0)"

definition is_str_equal :: "cstr \<Rightarrow> cstr \<Rightarrow> bool" where
  "is_str_equal a b \<longleftrightarrow> (case (a, b) of (None, None) \<Rightarrow> True | (Some x, Some y) \<Rightarrow> x = y | _ \<Rightarrow> False)"

text \<open>\<open>encode_attr_blob\<close>: ids that are not registered are skipped, at most 255 pairs are encoded.\<close>

fun encode_attr_blob :: "attr_desc list \<Rightarrow> attr_val list \<Rightarrow> nat \<Rightarrow> byte list \<times> nat" where
  "encode_attr_blob descs [] n = ([], n)"
| "encode_attr_blob descs (v # vs) n =
     (if av_id v < 0 \<or> length descs \<le> nat (av_id v) then encode_attr_blob descs vs n
      else let item = le_bytes 4 (nat (av_id v)) @
                 (if ad_type (descs ! nat (av_id v)) = e_p8_attr_str then enc_str (av_str v) else le_bytes 8 (unat (av_u64 v)))
           in if Suc n = 255 then (item, Suc n)
              else (case encode_attr_blob descs vs (Suc n) of (bs, m) \<Rightarrow> (item @ bs, m)))"

definition mtk_allocs :: "mtk_base \<Rightarrow> nat" where
  "mtk_allocs b = 2 + (if mb_description b = None then 0 else 1) + (if mb_unit b = None then 0 else 1)"

definition register_mtk :: "mtk_base option \<Rightarrow> 'a reg_core_scheme \<Rightarrow> int \<times> 'a reg_core_scheme" where
  "register_mtk ip_base c =
     (if \<not> c_initialized c then (P8_MTK_ERROR_NOT_INITIALIZED, c)
      else case ip_base of None \<Rightarrow> (P8_MTK_ERROR_INVALID_NAME, c) | Some b \<Rightarrow>
        (if no_name (mb_name b) then (P8_MTK_ERROR_INVALID_NAME, c)
         else let nm = the (mb_name b); flags = (if mb_on b then P8_MTK_FLAG_ON else 0) in
           case c_mtk_names c nm of
             Some i \<Rightarrow>
               (let ex = c_mtks c ! i
                in (if md_flags ex = flags \<and> f64_eq (md_min ex) (mb_min b) \<and> f64_eq (md_max ex) (mb_max b) \<and>
                       is_str_equal (md_description ex) (mb_description b) \<and> is_str_equal (md_unit ex) (mb_unit b)
                    then int i else P8_MTK_ERROR_CONFLICT, c))
           | None \<Rightarrow>
               (case alloc_all (mtk_allocs b) c of
                  (False, c1) \<Rightarrow> (P8_MTK_ERROR_ALLOC_FAILED, c1)
                | (True, c1) \<Rightarrow>
                    (let (blob, cnt) = encode_attr_blob (c_attrs c1) (case mb_attrs b of None \<Rightarrow> [] | Some vs \<Rightarrow> vs) 0;
                         i = length (c_mtks c1);
                         d = \<lparr>md_id = of_nat i, md_name = nm, md_description = mb_description b, md_unit = mb_unit b,
                              md_flags = flags, md_min = mb_min b, md_max = mb_max b\<rparr>;
                         c2 = c1\<lparr>c_mtks := c_mtks c1 @ [d], c_mtk_names := (c_mtk_names c1)(nm \<mapsto> i),
                                 c_mtk_count := of_nat (Suc i)\<rparr>
                     in (int i, serialize_mtk_desc d blob cnt c2)))))"

section \<open>Log descriptors\<close>

definition to_string :: "byte list \<Rightarrow> string" where
  "to_string bs = map (\<lambda>b. char_of (unat b)) bs"

definition fixed_args_size :: "log_varg list \<Rightarrow> nat" where
  "fixed_args_size vs = sum_list (map (\<lambda>a. if is_str_type (va_type a) then 0 else unat (va_size a)) vs)"

definition resolve_log_desc :: "u64 \<Rightarrow> cstr \<Rightarrow> u32 \<Rightarrow> cstr \<Rightarrow> cstr \<Rightarrow> 'a reg_core_scheme \<Rightarrow> log_desc option \<times> 'a reg_core_scheme" where
  "resolve_log_desc hash file line func fmt c =
     (case c_log_descs c hash of
        Some d \<Rightarrow> (Some d, c)
      | None \<Rightarrow>
          (case alloc c of
             (False, c1) \<Rightarrow> (None, c1)
           | (True, c1) \<Rightarrow>
               (let vs = parse_format_string P8_LOG_MAX_ARGS (map_option to_string fmt);
                    d = \<lparr>ld_hash = hash, ld_format = fmt, ld_file = file, ld_function = func, ld_line = line,
                         ld_args = vs, ld_fixed_args_size = fixed_args_size vs\<rparr>
                in (Some d, serialize_log_desc d (c1\<lparr>c_log_descs := (c_log_descs c1)(hash \<mapsto> d)\<rparr>)))))"

section \<open>Serialising leaves the registries alone\<close>

definition regs :: "'a reg_core_scheme \<Rightarrow>
    attr_desc list \<times> (byte list \<rightharpoonup> nat) \<times> log_mod list \<times> (byte list \<rightharpoonup> nat) \<times> nat \<times> (u64 \<rightharpoonup> log_desc) \<times>
    mtk_desc list \<times> (byte list \<rightharpoonup> nat) \<times> u32 \<times> bool" where
  "regs c = (c_attrs c, c_attr_names c, c_mods c, c_mod_names c, c_verbosity c, c_log_descs c,
     c_mtks c, c_mtk_names c, c_mtk_count c, c_initialized c)"

lemma regs_mem_write [simp]: "regs (mem_write b u bs c) = regs c"
  by (simp add: regs_def mem_write_def)

lemma regs_acquire: "acquire_buffer w c = (r, c') \<Longrightarrow> regs c' = regs c"
  by (auto simp: acquire_buffer_def Let_def regs_def notify_pressure_def notify_def split: if_splits option.splits prod.splits)

lemma regs_svc_acquire_new: "svc_acquire_new c = (r, c') \<Longrightarrow> regs c' = regs c"
proof -
  assume a: "svc_acquire_new c = (r, c')"
  obtain x c1 where x: "acquire_buffer False c = (x, c1)" by (meson surj_pair)
  from regs_acquire [OF x] a x show ?thesis by (cases x) (auto simp: svc_acquire_new_def regs_def)
qed

lemma regs_svc_take: "svc_take n p c = (r, c') \<Longrightarrow> regs c' = regs c"
  by (auto simp: svc_take_def regs_def mem_write_def split: prod.splits if_splits)

lemma regs_svc_reserve: "svc_reserve n c = (r, c') \<Longrightarrow> regs c' = regs c"
proof -
  assume a: "svc_reserve n c = (r, c')"
  obtain x c1 where x: "(if c_svc c = [] then svc_acquire_new c else (Some (last (c_svc c)), c)) = (x, c1)" by (meson surj_pair)
  have 1: "regs c1 = regs c" using x regs_svc_acquire_new by (auto split: if_splits)
  obtain y c2 where y: "svc_acquire_new c1 = (y, c2)" by (meson surj_pair)
  have 2: "regs c2 = regs c1" by (rule regs_svc_acquire_new [OF y])
  show ?thesis
    using a x y 1 2
    by (auto simp: svc_reserve_def dest: regs_svc_take split: if_splits option.splits)
qed

lemma regs_svc_write: "regs (svc_write hsz head body c) = regs c"
proof -
  obtain r c1 where r: "svc_reserve (align_up_8 (hsz + length body)) c = (r, c1)" by (meson surj_pair)
  from regs_svc_reserve [OF r] r show ?thesis by (cases r) (auto simp: svc_write_def Let_def)
qed

lemma regs_serialize [simp]:
  "regs (serialize_attr_desc d c) = regs c" "regs (serialize_log_mod m c) = regs c"
  "regs (serialize_mtk_desc t blob n c) = regs c" "regs (serialize_log_desc l c) = regs c"
  by (simp_all add: serialize_attr_desc_def serialize_log_mod_def serialize_mtk_desc_def serialize_log_desc_def regs_svc_write)

lemma regs_alloc_all: "alloc_all n c = (r, c') \<Longrightarrow> regs c' = regs c"
proof (induction n arbitrary: c r)
  case (Suc n)
  obtain g c1 where g: "alloc c = (g, c1)" by (meson surj_pair)
  then have "regs c1 = regs c" by (auto simp: alloc_def regs_def split: list.splits)
  with Suc g show ?case by (cases g) auto
qed simp

lemma regsD:
  assumes "regs c' = regs c"
  shows "c_attrs c' = c_attrs c" "c_attr_names c' = c_attr_names c" "c_mods c' = c_mods c"
    "c_mod_names c' = c_mod_names c" "c_verbosity c' = c_verbosity c" "c_log_descs c' = c_log_descs c"
    "c_mtks c' = c_mtks c" "c_mtk_names c' = c_mtk_names c" "c_mtk_count c' = c_mtk_count c" "c_initialized c' = c_initialized c"
  using assms by (simp_all add: regs_def)

lemmas serialize_frame [simp] =
  regsD [OF regs_serialize(1)] regsD [OF regs_serialize(2)] regsD [OF regs_serialize(3)] regsD [OF regs_serialize(4)]

section \<open>Registries by name\<close>

text \<open>
  The contract the registries share: a registration that succeeds binds its name to the id it
  returns and disturbs no other name, one that fails changes no name, ids are injective. The
  consequence for a client is that ids are stable and tell names apart.
\<close>

locale name_registry =
  fixes add :: "byte list \<Rightarrow> 'v \<Rightarrow> 's \<Rightarrow> nat option \<times> 's"
    and names :: "'s \<Rightarrow> byte list \<Rightarrow> nat option"
    and inv :: "'s \<Rightarrow> bool"
  assumes add_some: "inv s \<Longrightarrow> add k v s = (Some i, s') \<Longrightarrow>
        inv s' \<and> names s' = (names s)(k \<mapsto> i) \<and> (names s k = None \<or> names s k = Some i)"
    and add_none: "inv s \<Longrightarrow> add k v s = (None, s') \<Longrightarrow> inv s' \<and> names s' = names s"
    and inj: "inv s \<Longrightarrow> names s k = Some i \<Longrightarrow> names s k' = Some i \<Longrightarrow> k = k'"
begin

primrec add_all :: "(byte list \<times> 'v) list \<Rightarrow> 's \<Rightarrow> nat option list \<times> 's" where
  "add_all [] s = ([], s)"
| "add_all (kv # kvs) s = (case add (fst kv) (snd kv) s of
     (r, s1) \<Rightarrow> (case add_all kvs s1 of (rs, s2) \<Rightarrow> (r # rs, s2)))"

lemma add_keeps:
  assumes "inv s" "add k v s = (r, s')"
  shows "inv s' \<and> (\<forall>k' i. names s k' = Some i \<longrightarrow> names s' k' = Some i) \<and> (\<forall>i. r = Some i \<longrightarrow> names s' k = Some i)"
proof (cases r)
  case None
  with assms(2) have "add k v s = (None, s')" by simp
  from add_none [OF assms(1) this] None show ?thesis by simp
next
  case (Some i)
  with assms(2) have "add k v s = (Some i, s')" by simp
  from add_some [OF assms(1) this] Some show ?thesis by auto
qed

lemma add_all_stable:
  "inv s \<Longrightarrow> add_all kvs s = (ids, s') \<Longrightarrow>
   inv s' \<and> length ids = length kvs \<and> (\<forall>k i. names s k = Some i \<longrightarrow> names s' k = Some i) \<and>
   (\<forall>n < length kvs. \<forall>i. ids ! n = Some i \<longrightarrow> names s' (fst (kvs ! n)) = Some i)"
proof (induction kvs arbitrary: s ids s')
  case Nil
  then show ?case by auto
next
  case (Cons kv kvs)
  obtain r s1 where r: "add (fst kv) (snd kv) s = (r, s1)" by (meson surj_pair)
  obtain rs s2 where rs: "add_all kvs s1 = (rs, s2)" by (meson surj_pair)
  have ids: "ids = r # rs" "s' = s2" using Cons.prems(2) r rs by auto
  note one = add_keeps [OF Cons.prems(1) r]
  with Cons.IH [OF _ rs] have rest: "inv s2" "length rs = length kvs" "\<forall>k i. names s1 k = Some i \<longrightarrow> names s2 k = Some i"
    "\<forall>n < length kvs. \<forall>i. rs ! n = Some i \<longrightarrow> names s2 (fst (kvs ! n)) = Some i" by blast+
  have "names s' (fst ((kv # kvs) ! n)) = Some i" if "n < length (kv # kvs)" "ids ! n = Some i" for n i
    using that one rest ids by (cases n) auto
  then show ?case using one rest ids by auto
qed

lemma add_all_ids:
  assumes "inv s" "add_all kvs s = (ids, s')" "n < length kvs" "m < length kvs" "ids ! n = Some i" "ids ! m = Some j"
  shows "i = j \<longleftrightarrow> fst (kvs ! n) = fst (kvs ! m)"
proof -
  have s': "inv s'" "names s' (fst (kvs ! n)) = Some i" "names s' (fst (kvs ! m)) = Some j"
    using add_all_stable [OF assms(1,2)] assms(3-6) by auto
  then show ?thesis using inj by auto
qed

end

subsection \<open>Attributes as a registry\<close>

definition attr_inv :: "'a reg_core_scheme \<Rightarrow> bool" where
  "attr_inv c \<longleftrightarrow> (\<forall>k i. c_attr_names c k = Some i \<longrightarrow> i < length (c_attrs c) \<and> ad_name (c_attrs c ! i) = k) \<and>
     (\<forall>i < length (c_attrs c). c_attr_names c (ad_name (c_attrs c ! i)) = Some i \<and> ad_id (c_attrs c ! i) = of_nat i)"

definition attr_add :: "byte list \<Rightarrow> attr_type \<Rightarrow> 'a reg_core_scheme \<Rightarrow> nat option \<times> 'a reg_core_scheme" where
  "attr_add k ty c = (case attr_register (Some k) ty c of (r, c') \<Rightarrow> (if 0 \<le> r then Some (nat r) else None, c'))"

lemmas attr_errors = P8_ATTR_ERROR_NOT_INITIALIZED_def P8_ATTR_ERROR_INVALID_NAME_def P8_ATTR_ERROR_TYPE_MISMATCH_def
  P8_ATTR_ERROR_ALLOC_FAILED_def P8_ATTR_ERROR_NOT_FOUND_def

text \<open>The three ways a registration goes: an error, an existing attribute, a new one.\<close>

lemma attr_register_cases:
  assumes "attr_register (Some k) ty c = (r, c')"
  obtains (error) "r < 0" "regs c' = regs c"
  | (known) i where "c_attr_names c k = Some i" "ad_type (c_attrs c ! i) = ty" "r = int i" "c' = c"
  | (fresh) i where "c_attr_names c k = None" "i = length (c_attrs c)" "r = int i" "c_initialized c" "k \<noteq> []"
      "c_attrs c' = c_attrs c @ [\<lparr>ad_id = of_nat i, ad_type = ty, ad_name = k\<rparr>]"
      "c_attr_names c' = (c_attr_names c)(k \<mapsto> i)" "c_initialized c'"
proof -
  obtain g c1 where g: "alloc_all 2 c = (g, c1)" by (meson surj_pair)
  note al = regsD [OF regs_alloc_all [OF g]]
  show thesis
  proof (cases "c_initialized c \<and> k \<noteq> []")
    case False
    then have "r < 0 \<and> c' = c" using assms by (auto simp: attr_register_def no_name_def attr_errors split: if_splits)
    then show thesis using error by simp
  next
    case live: True
    show thesis
    proof (cases "c_attr_names c k")
      case (Some i)
      with assms live have "(r, c') = (if ad_type (c_attrs c ! i) \<noteq> ty then (-3, c) else (int i, c))"
        by (auto simp: attr_register_def no_name_def Let_def attr_errors)
      then show thesis using Some error known by (cases "ad_type (c_attrs c ! i) = ty") simp_all
    next
      case None
      show thesis
      proof (cases g)
        case True
        with assms live None g show thesis
          by (intro fresh [of "length (c_attrs c)"]) (auto simp: attr_register_def no_name_def Let_def al)
      next
        case False
        with assms live None g have "r < 0 \<and> c' = c1" by (simp add: attr_register_def no_name_def Let_def attr_errors)
        then show thesis using error regs_alloc_all [OF g] by simp
      qed
    qed
  qed
qed

lemma attr_add_some:
  assumes inv: "attr_inv c" and add: "attr_add k ty c = (Some i, c')"
  shows "attr_inv c' \<and> c_attr_names c' = (c_attr_names c)(k \<mapsto> i) \<and> (c_attr_names c k = None \<or> c_attr_names c k = Some i) \<and>
    ad_type (c_attrs c' ! i) = ty \<and> c_initialized c' = c_initialized c"
proof -
  obtain r where r: "attr_register (Some k) ty c = (r, c')" "0 \<le> r" "i = nat r"
    using add by (auto simp: attr_add_def split: prod.splits if_splits)
  show ?thesis using r(1)
  proof (cases rule: attr_register_cases)
    case error
    with r show ?thesis by simp
  next
    case (known j)
    with r inv show ?thesis by (auto simp: attr_inv_def fun_eq_iff)
  next
    case (fresh j)
    have old: "ad_name (c_attrs c ! n) \<noteq> k" if "n < length (c_attrs c)" for n
      using inv that fresh(1) by (auto simp: attr_inv_def)
    have "attr_inv c'"
      using inv fresh old unfolding attr_inv_def by (auto simp: nth_append less_Suc_eq)
    with fresh r show ?thesis by simp
  qed
qed

lemma attr_add_none:
  assumes "attr_inv c" "attr_add k ty c = (None, c')"
  shows "attr_inv c' \<and> c_attr_names c' = c_attr_names c \<and> c_attrs c' = c_attrs c \<and> c_initialized c' = c_initialized c"
proof -
  obtain r where r: "attr_register (Some k) ty c = (r, c')" "r < 0"
    using assms(2) by (auto simp: attr_add_def split: prod.splits if_splits)
  show ?thesis using r(1)
  proof (cases rule: attr_register_cases)
    case error
    note regsD [OF error(2)]
    with assms(1) show ?thesis by (simp add: attr_inv_def)
  qed (use r in auto)
qed

interpretation attrs: name_registry attr_add c_attr_names attr_inv
proof (unfold_locales, goal_cases)
  case (1 s k v i s')
  then show ?case using attr_add_some [OF 1] by blast
next
  case (2 s k v s')
  then show ?case using attr_add_none [OF 2] by blast
next
  case (3 s k i k')
  then have "ad_name (c_attrs s ! i) = k" "ad_name (c_attrs s ! i) = k'" unfolding attr_inv_def by blast+
  then show ?case by simp
qed

text \<open>
  C34: Attribute ids are stable names: after any sequence of registrations, each one that
  succeeded can be looked up under its name and gives the id it returned, the descriptor at that
  id carries that name, and two successful registrations got the same id exactly when they
  asked for the same name.
\<close>

theorem attr_ids_stable:
  assumes "attr_inv c" and "c_initialized c" and "attrs.add_all kvs c = (ids, c')"
    and "n < length kvs" and "ids ! n = Some i" and "fst (kvs ! n) \<noteq> []"
  shows "attr_get (Some (fst (kvs ! n))) c' = int i \<and> ad_name (c_attrs c' ! i) = fst (kvs ! n) \<and>
    (\<forall>m < length kvs. \<forall>j. ids ! m = Some j \<longrightarrow> (i = j \<longleftrightarrow> fst (kvs ! n) = fst (kvs ! m)))"
proof -
  have init: "c_initialized c'" using assms(2,3)
  proof (induction kvs arbitrary: c ids)
    case (Cons kv kvs)
    obtain r c1 where r: "attr_add (fst kv) (snd kv) c = (r, c1)" by (meson surj_pair)
    obtain q where "attr_register (Some (fst kv)) (snd kv) c = (q, c1)"
      using r by (auto simp: attr_add_def split: prod.splits)
    then have "c_initialized c1"
    proof (cases rule: attr_register_cases)
      case error
      then show ?thesis using regsD(10) [OF error(2)] Cons.prems(1) by simp
    qed (use Cons.prems(1) in simp_all)
    with Cons r show ?case by (auto split: prod.splits)
  qed simp
  have "attr_inv c'" "c_attr_names c' (fst (kvs ! n)) = Some i"
    using attrs.add_all_stable [OF assms(1,3)] assms(4,5) by auto
  then show ?thesis
    using init assms(6) attrs.add_all_ids [OF assms(1,3,4) _ assms(5)]
    by (auto simp: attr_get_def no_name_def attr_inv_def)
qed

lemma attr_ids_stable_witness:
  "\<exists>ids c'. attrs.add_all [([97], e_p8_attr_str), ([98], e_p8_attr_i64), ([97], e_p8_attr_str)] demo_reg = (ids, c') \<and>
     (\<forall>i. ids ! 2 = Some i \<longrightarrow> attr_get (Some [97]) c' = int i)"
proof -
  obtain ids c' where run: "attrs.add_all [([97], e_p8_attr_str), ([98], e_p8_attr_i64), ([97], e_p8_attr_str)] demo_reg = (ids, c')"
    by (meson surj_pair)
  have "attr_inv demo_reg" "c_initialized demo_reg" by (simp_all add: attr_inv_def demo_reg_def)
  from attr_ids_stable [OF this run, of 2] run show ?thesis by auto
qed

subsection \<open>Modules as a registry\<close>

definition mod_inv :: "'a reg_core_scheme \<Rightarrow> bool" where
  "mod_inv c \<longleftrightarrow> (\<forall>k i. c_mod_names c k = Some i \<longrightarrow> i < length (c_mods c) \<and> lm_name (c_mods c ! i) = k) \<and>
     (\<forall>i < length (c_mods c). c_mod_names c (lm_name (c_mods c ! i)) = Some i \<and> lm_id (c_mods c ! i) = of_nat i)"

definition mod_add :: "byte list \<Rightarrow> nat \<Rightarrow> 'a reg_core_scheme \<Rightarrow> nat option \<times> 'a reg_core_scheme" where
  "mod_add k verb c = (case register_module (Some k) verb True c of ((ok, h), c') \<Rightarrow> (h, c'))"

lemma register_module_cases:
  assumes "register_module (Some k) verb True c = ((ok, h), c')"
  obtains (error) "\<not> ok" "h = None" "regs c' = regs c"
  | (known) i where "ok" "h = Some i" "c_mod_names c k = Some i" "c_initialized c" "k \<noteq> []"
      "c' = c\<lparr>c_mods := (c_mods c)[i := (c_mods c ! i)\<lparr>lm_verb := verb\<rparr>]\<rparr>"
  | (fresh) "ok" "h = Some (length (c_mods c))" "c_mod_names c k = None" "c_initialized c'" "k \<noteq> []"
      "c_mods c' = c_mods c @ [\<lparr>lm_name = k, lm_id = of_nat (length (c_mods c)), lm_verb = verb\<rparr>]"
      "c_mod_names c' = (c_mod_names c)(k \<mapsto> length (c_mods c))"
proof -
  obtain g c1 where g: "alloc_all 2 c = (g, c1)" by (meson surj_pair)
  note al = regsD [OF regs_alloc_all [OF g]]
  show thesis
  proof (cases "c_initialized c \<and> k \<noteq> []")
    case False
    then have "\<not> ok \<and> h = None \<and> c' = c" using assms by (auto simp: register_module_def no_name_def split: if_splits)
    then show thesis using error by simp
  next
    case live: True
    show thesis
    proof (cases "c_mod_names c k")
      case (Some i)
      with assms live show thesis by (intro known [of i]) (simp_all add: register_module_def no_name_def Let_def)
    next
      case None
      show thesis
      proof (cases g)
        case True
        with assms live None g show thesis
          by (intro fresh) (auto simp: register_module_def no_name_def Let_def al)
      next
        case False
        with assms live None g have "\<not> ok \<and> h = None \<and> c' = c1" by (simp add: register_module_def no_name_def Let_def)
        then show thesis using error regs_alloc_all [OF g] by simp
      qed
    qed
  qed
qed

lemma mod_add_inv:
  assumes inv: "mod_inv c" and add: "register_module (Some k) verb True c = ((ok, h), c')"
  shows "mod_inv c'"
    and "h = None \<Longrightarrow> c_mod_names c' = c_mod_names c"
    and "h = Some i \<Longrightarrow> c_mod_names c' = (c_mod_names c)(k \<mapsto> i) \<and> (c_mod_names c k = None \<or> c_mod_names c k = Some i)"
proof -
  have "mod_inv c' \<and> (h = None \<longrightarrow> c_mod_names c' = c_mod_names c) \<and>
    (\<forall>i. h = Some i \<longrightarrow> c_mod_names c' = (c_mod_names c)(k \<mapsto> i) \<and> (c_mod_names c k = None \<or> c_mod_names c k = Some i))"
    using add
  proof (cases rule: register_module_cases)
    case error
    note regsD [OF error(3)]
    with error inv show ?thesis by (simp add: mod_inv_def)
  next
    case (known i)
    then have "mod_inv c'" using inv unfolding mod_inv_def by (auto simp: nth_list_update)
    with known show ?thesis by (simp add: fun_upd_idem)
  next
    case fresh
    have old: "lm_name (c_mods c ! n) \<noteq> k" if "n < length (c_mods c)" for n
      using inv that fresh(3) unfolding mod_inv_def by force
    have "mod_inv c'"
      using inv fresh old unfolding mod_inv_def by (auto simp: nth_append less_Suc_eq)
    with fresh show ?thesis by simp
  qed
  then show "mod_inv c'" "h = None \<Longrightarrow> c_mod_names c' = c_mod_names c"
    "h = Some i \<Longrightarrow> c_mod_names c' = (c_mod_names c)(k \<mapsto> i) \<and> (c_mod_names c k = None \<or> c_mod_names c k = Some i)"
    by auto
qed

interpretation mods: name_registry mod_add c_mod_names mod_inv
proof (unfold_locales, goal_cases)
  case (1 s k v i s')
  then obtain ok where "register_module (Some k) v True s = ((ok, Some i), s')"
    by (auto simp: mod_add_def split: prod.splits)
  from mod_add_inv [OF 1(1) this] show ?case by blast
next
  case (2 s k v s')
  then obtain ok where "register_module (Some k) v True s = ((ok, None), s')"
    by (auto simp: mod_add_def split: prod.splits)
  from mod_add_inv [OF 2(1) this] show ?case by blast
next
  case (3 s k i k')
  then have "lm_name (c_mods s ! i) = k" "lm_name (c_mods s ! i) = k'" unfolding mod_inv_def by blast+
  then show ?case by simp
qed

text \<open>
  Registering a module, new or known, yields a handle under which its name is found from then
  on and whose verbosity is the one asked for; the verbosity of every other module is untouched.
\<close>

theorem register_module_effect:
  assumes "mod_inv c" and "register_module (Some k) verb True c = ((True, h), c')"
  shows "\<exists>i. h = Some i \<and> find_module (Some k) c' = Some i \<and> get_verbosity (Some i) c' = verb \<and>
    (\<forall>j < length (c_mods c). j \<noteq> i \<longrightarrow> get_verbosity (Some j) c' = get_verbosity (Some j) c)"
  using assms(2)
proof (cases rule: register_module_cases)
  case error
  then show ?thesis by simp
next
  case (known i)
  then have "i < length (c_mods c)" using assms(1) unfolding mod_inv_def by blast
  with known show ?thesis by (simp add: find_module_def no_name_def get_verbosity_def)
next
  case fresh
  then show ?thesis by (simp add: find_module_def no_name_def get_verbosity_def nth_append)
qed

lemma register_module_effect_witness:
  "find_module (Some [97]) (snd (register_module (Some [97]) 4 True demo_reg)) = Some 0"
proof -
  have inv: "mod_inv demo_reg" by (simp add: mod_inv_def demo_reg_def)
  have "fst (register_module (Some [97]) 4 True demo_reg) = (True, Some 0)"
    by (simp add: register_module_def demo_reg_def no_name_def alloc_def Let_def numeral_eq_Suc)
  then have "register_module (Some [97]) 4 True demo_reg = ((True, Some 0), snd (register_module (Some [97]) 4 True demo_reg))"
    by (metis prod.collapse)
  from register_module_effect [OF inv this] show ?thesis by auto
qed

text \<open>
  The 16-bit module ids on the wire are the handles modulo \<open>2 ^ 16\<close>: records of two modules can
  be told apart exactly when their registration numbers differ modulo 65536, so the 65537th
  module shares the id of the first.
\<close>

theorem module_ids_wrap:
  assumes "mod_inv c" and "i < length (c_mods c)" and "j < length (c_mods c)"
  shows "lm_id (c_mods c ! i) = lm_id (c_mods c ! j) \<longleftrightarrow> i mod 65536 = j mod 65536"
proof -
  have "lm_id (c_mods c ! i) = of_nat i" "lm_id (c_mods c ! j) = of_nat j"
    using assms unfolding mod_inv_def by blast+
  then show ?thesis by (simp add: word_unat_eq_iff unat_of_nat)
qed

lemma module_ids_wrap_witness:
  "lm_id (c_mods (demo_reg\<lparr>c_mods := [\<lparr>lm_name = [97], lm_id = 0, lm_verb = 0\<rparr>, \<lparr>lm_name = [98], lm_id = 1, lm_verb = 0\<rparr>],
      c_mod_names := [[97] \<mapsto> 0, [98] \<mapsto> 1]\<rparr>) ! 0) \<noteq>
   lm_id (c_mods (demo_reg\<lparr>c_mods := [\<lparr>lm_name = [97], lm_id = 0, lm_verb = 0\<rparr>, \<lparr>lm_name = [98], lm_id = 1, lm_verb = 0\<rparr>],
      c_mod_names := [[97] \<mapsto> 0, [98] \<mapsto> 1]\<rparr>) ! 1)"
proof -
  let ?c = "demo_reg\<lparr>c_mods := [\<lparr>lm_name = [97], lm_id = 0, lm_verb = 0\<rparr>, \<lparr>lm_name = [98], lm_id = 1, lm_verb = 0\<rparr>],
      c_mod_names := [[97] \<mapsto> 0, [98] \<mapsto> 1]\<rparr>"
  have "mod_inv ?c" by (auto simp: mod_inv_def less_Suc_eq split: if_splits)
  from module_ids_wrap [OF this, of 0 1] show ?thesis by simp
qed

subsection \<open>Metrics as a registry\<close>

definition mtk_inv :: "'a reg_core_scheme \<Rightarrow> bool" where
  "mtk_inv c \<longleftrightarrow> (\<forall>k i. c_mtk_names c k = Some i \<longrightarrow> i < length (c_mtks c) \<and> md_name (c_mtks c ! i) = k) \<and>
     (\<forall>i < length (c_mtks c). c_mtk_names c (md_name (c_mtks c ! i)) = Some i \<and> md_id (c_mtks c ! i) = of_nat i) \<and>
     c_mtk_count c = of_nat (length (c_mtks c))"

definition mtk_add :: "byte list \<Rightarrow> mtk_base \<Rightarrow> 'a reg_core_scheme \<Rightarrow> nat option \<times> 'a reg_core_scheme" where
  "mtk_add k b c = (case register_mtk (Some (b\<lparr>mb_name := Some k\<rparr>)) c of (r, c') \<Rightarrow> (if 0 \<le> r then Some (nat r) else None, c'))"

lemmas mtk_errors = P8_MTK_ERROR_NOT_INITIALIZED_def P8_MTK_ERROR_INVALID_NAME_def P8_MTK_ERROR_ALLOC_FAILED_def
  P8_MTK_ERROR_CONFLICT_def

text \<open>The test that decides between the existing id and a conflict.\<close>

definition same_metric :: "mtk_desc \<Rightarrow> mtk_base \<Rightarrow> bool" where
  "same_metric ex b \<longleftrightarrow> md_flags ex = (if mb_on b then P8_MTK_FLAG_ON else 0) \<and> f64_eq (md_min ex) (mb_min b) \<and>
     f64_eq (md_max ex) (mb_max b) \<and> is_str_equal (md_description ex) (mb_description b) \<and> is_str_equal (md_unit ex) (mb_unit b)"

definition metric_of :: "nat \<Rightarrow> byte list \<Rightarrow> mtk_base \<Rightarrow> mtk_desc" where
  "metric_of i nm b = \<lparr>md_id = of_nat i, md_name = nm, md_description = mb_description b, md_unit = mb_unit b,
     md_flags = (if mb_on b then P8_MTK_FLAG_ON else 0), md_min = mb_min b, md_max = mb_max b\<rparr>"

lemma register_mtk_known:
  assumes "c_initialized c" "mb_name b = Some nm" "nm \<noteq> []" "c_mtk_names c nm = Some i"
  shows "register_mtk (Some b) c = (if same_metric (c_mtks c ! i) b then int i else P8_MTK_ERROR_CONFLICT, c)"
  using assms by (simp add: register_mtk_def no_name_def same_metric_def Let_def)

lemma register_mtk_cases:
  assumes "register_mtk (Some b) c = (r, c')" and nm: "mb_name b = Some nm"
  obtains (error) "r < 0" "regs c' = regs c"
  | (known) i where "c_mtk_names c nm = Some i" "r = int i" "c' = c" "same_metric (c_mtks c ! i) b" "c_initialized c" "nm \<noteq> []"
  | (fresh) "c_mtk_names c nm = None" "r = int (length (c_mtks c))" "c_initialized c'" "nm \<noteq> []"
      "c_mtks c' = c_mtks c @ [metric_of (length (c_mtks c)) nm b]"
      "c_mtk_names c' = (c_mtk_names c)(nm \<mapsto> length (c_mtks c))" "c_mtk_count c' = of_nat (Suc (length (c_mtks c)))"
proof -
  obtain g c1 where g: "alloc_all (mtk_allocs b) c = (g, c1)" by (meson surj_pair)
  note al = regsD [OF regs_alloc_all [OF g]]
  show thesis
  proof (cases "c_initialized c \<and> nm \<noteq> []")
    case False
    then have "r < 0 \<and> c' = c" using assms by (auto simp: register_mtk_def no_name_def mtk_errors split: if_splits)
    then show thesis using error by simp
  next
    case live: True
    show thesis
    proof (cases "c_mtk_names c nm")
      case (Some i)
      then have "(r, c') = (if same_metric (c_mtks c ! i) b then int i else P8_MTK_ERROR_CONFLICT, c)"
        using register_mtk_known [of c b nm i] assms live by simp
      then show thesis using Some error known live by (cases "same_metric (c_mtks c ! i) b") (auto simp: mtk_errors)
    next
      case None
      show thesis
      proof (cases g)
        case True
        with assms live None g show thesis
          by (intro fresh) (auto simp: register_mtk_def no_name_def metric_of_def Let_def al split: prod.splits)
      next
        case False
        with assms live None g have "r < 0 \<and> c' = c1" by (simp add: register_mtk_def no_name_def Let_def mtk_errors)
        then show thesis using error regs_alloc_all [OF g] by simp
      qed
    qed
  qed
qed

lemma register_mtk_inv:
  assumes inv: "mtk_inv c" and reg: "register_mtk (Some b) c = (r, c')" and nm: "mb_name b = Some nm"
  shows "mtk_inv c' \<and> (r < 0 \<longrightarrow> c_mtk_names c' = c_mtk_names c) \<and>
    (0 \<le> r \<longrightarrow> c_mtk_names c' = (c_mtk_names c)(nm \<mapsto> nat r) \<and> (c_mtk_names c nm = None \<or> c_mtk_names c nm = Some (nat r)))"
  using reg nm
proof (cases rule: register_mtk_cases)
  case error
  note regsD [OF error(2)]
  with error inv show ?thesis by (simp add: mtk_inv_def)
next
  case (known i)
  with inv show ?thesis by (simp add: fun_upd_idem)
next
  case fresh
  have old: "md_name (c_mtks c ! n) \<noteq> nm" if "n < length (c_mtks c)" for n
    using inv that fresh(1) unfolding mtk_inv_def by force
  have "mtk_inv c'"
    using inv fresh old unfolding mtk_inv_def by (auto simp: nth_append less_Suc_eq metric_of_def)
  with fresh show ?thesis by simp
qed

interpretation mtks: name_registry mtk_add c_mtk_names mtk_inv
proof (unfold_locales, goal_cases)
  case (1 s k v i s')
  then obtain r where "register_mtk (Some (v\<lparr>mb_name := Some k\<rparr>)) s = (r, s')" "0 \<le> r" "i = nat r"
    by (auto simp: mtk_add_def split: prod.splits if_splits)
  with register_mtk_inv [OF 1(1) this(1)] show ?case by simp
next
  case (2 s k v s')
  then obtain r where "register_mtk (Some (v\<lparr>mb_name := Some k\<rparr>)) s = (r, s')" "r < 0"
    by (auto simp: mtk_add_def split: prod.splits if_splits)
  with register_mtk_inv [OF 2(1) this(1)] show ?case by simp
next
  case (3 s k i k')
  then have "md_name (c_mtks s ! i) = k" "md_name (c_mtks s ! i) = k'" unfolding mtk_inv_def by blast+
  then show ?case by simp
qed

text \<open>
  C36: Registering a metric is idempotent: a second registration of the same definition changes
  nothing and returns the same id, provided neither bound is NaN; with a NaN bound the identical
  definition is refused as a conflict. The new id is below the lock-free count the emitters check.
\<close>

theorem register_mtk_idempotent:
  assumes "mtk_inv c" and "register_mtk (Some b) c = (r, c')" and "0 \<le> r" and "mb_name b = Some nm"
    and "c_mtk_names c nm = None"
  shows "register_mtk (Some b) c' =
      (if f64_is_nan (mb_min b) \<or> f64_is_nan (mb_max b) then P8_MTK_ERROR_CONFLICT else r, c') \<and>
    c_mtk_count c' = of_nat (nat r) + 1"
  using assms(2,4)
proof (cases rule: register_mtk_cases)
  case fresh
  have "register_mtk (Some b) c' = (if same_metric (metric_of (length (c_mtks c)) nm b) b then r else P8_MTK_ERROR_CONFLICT, c')"
    using register_mtk_known [of c' b nm "length (c_mtks c)"] fresh assms(4) by simp
  moreover have "is_str_equal s s" for s by (cases s) (simp_all add: is_str_equal_def)
  then have "same_metric (metric_of n nm b) b \<longleftrightarrow> \<not> (f64_is_nan (mb_min b) \<or> f64_is_nan (mb_max b))" for n
    by (auto simp: same_metric_def metric_of_def f64_eq_def)
  ultimately show ?thesis using fresh by simp
qed (use assms in simp_all)

definition nan_metric :: mtk_base where
  "nan_metric = \<lparr>mb_name = Some [109], mb_description = None, mb_unit = None, mb_on = True,
     mb_min = 0x7FF8000000000000, mb_max = 0, mb_attrs = None\<rparr>"

lemma register_mtk_idempotent_witness:
  "fst (register_mtk (Some nan_metric) (snd (register_mtk (Some nan_metric) demo_reg))) = P8_MTK_ERROR_CONFLICT"
proof -
  have inv: "mtk_inv demo_reg" "c_mtk_names demo_reg [109] = None" by (simp_all add: mtk_inv_def demo_reg_def)
  have "fst (register_mtk (Some nan_metric) demo_reg) = 0"
    by (simp add: register_mtk_def demo_reg_def no_name_def alloc_def mtk_allocs_def nan_metric_def Let_def numeral_eq_Suc)
  then have "register_mtk (Some nan_metric) demo_reg = (0, snd (register_mtk (Some nan_metric) demo_reg))"
    by (metis prod.collapse)
  from register_mtk_idempotent [OF inv(1) this, of "[109]"] inv(2) show ?thesis
    by (simp add: nan_metric_def f64_is_nan_def)
qed

end
