(* ===== verification/Sinks.thy ===== *)
theory Sinks
  imports Protocol "HOL-Library.Sublist"
begin

text \<open>
  The sinks (\<^verbatim>\<open>engine/p8_sink.hpp\<close>, \<^verbatim>\<open>engine/p8_sink_file.cpp\<close>, \<^verbatim>\<open>engine/p8_sink_null.cpp\<close>): the
  virtual interface as a record of its operations, the binary file sink with its chunked
  scatter/gather writes, and the sink that drops everything. A buffer is passed as the bytes the
  sink may read through its pointer. \<^verbatim>\<open>kit::c_file\<close> is not part of the sources: its operations are
  a parameter, and what the sink relies on is the predicate \<open>file_law\<close>.
\<close>

section \<open>The interface\<close>

text \<open>A service buffer is its bytes and \<^verbatim>\<open>mz_used\<close>.\<close>

record 's sink_ops =
  sk_open :: "'s \<Rightarrow> bool \<times> 's"
  sk_hello :: "byte list \<Rightarrow> 's \<Rightarrow> bool \<times> 's"
  sk_data :: "byte list list \<Rightarrow> 's \<Rightarrow> bool \<times> 's"
  sk_service :: "(byte list \<times> nat) list \<Rightarrow> 's \<Rightarrow> bool \<times> 's"
  sk_flush :: "'s \<Rightarrow> 's"
  sk_close :: "'s \<Rightarrow> 's"

text \<open>\<^verbatim>\<open>mu_size\<close> of the header a data buffer begins with.\<close>

definition buf_size :: "byte list \<Rightarrow> nat" where
  "buf_size b = unat (bh_size (dec_buf_hdr b))"

section \<open>The file sink\<close>

text \<open>The operations of \<^verbatim>\<open>kit::c_file\<close>; \<open>fo_bytes\<close> is what the file holds, for the statements.\<close>

record iovec =
  iv_data :: "byte list"
  iv_size :: nat

record 'f file_ops =
  fo_open :: "string \<Rightarrow> 'f \<Rightarrow> bool \<times> 'f"
  fo_is_open :: "'f \<Rightarrow> bool"
  fo_write_v :: "iovec list \<Rightarrow> 'f \<Rightarrow> nat \<times> 'f"
  fo_sync :: "'f \<Rightarrow> 'f"
  fo_close :: "bool \<Rightarrow> 'f \<Rightarrow> 'f"
  fo_bytes :: "'f \<Rightarrow> byte list"

record 'f file_sink =
  fs_configured :: bool
  fs_out_dir :: string
  fs_svc :: 'f
  fs_data :: 'f
  fs_iov_cap :: nat
  fs_written :: u64
  fs_dropped :: u64
  fs_errors :: u64
  fs_reallocs :: "bool list"

definition mz_max_iov :: nat where "mz_max_iov = 1024"

text \<open>
  The constructor. The JSON value (nlohmann) is seen through two questions: the section
  \<open>FileBin\<close>, and the string under \<open>OutDir\<close> in it; \<open>Some None\<close> is a value that is not a string, on
  which \<^verbatim>\<open>get\<close> throws.
\<close>

definition file_sink_new :: "string option option option \<Rightarrow> 'f \<Rightarrow> bool list \<Rightarrow> 'f file_sink option" where
  "file_sink_new section closed reallocs =
     (let s = \<lparr>fs_configured = False, fs_out_dir = [], fs_svc = closed, fs_data = closed, fs_iov_cap = 0,
               fs_written = 0, fs_dropped = 0, fs_errors = 0, fs_reallocs = reallocs\<rparr>
      in case section of
           None \<Rightarrow> Some s
         | Some None \<Rightarrow> Some s
         | Some (Some None) \<Rightarrow> None
         | Some (Some (Some dir)) \<Rightarrow>
             (if dir = [] then Some s else Some (s\<lparr>fs_out_dir := dir, fs_configured := True\<rparr>)))"

text \<open>\<^verbatim>\<open>operator/\<close> of \<^verbatim>\<open>std::filesystem::path\<close> on POSIX.\<close>

definition path_join :: "string \<Rightarrow> string \<Rightarrow> string" where
  "path_join a b =
     (if b \<noteq> [] \<and> hd b = CHR ''/'' then b
      else if a = [] \<or> last a = CHR ''/'' then a @ b else a @ ''/'' @ b)"

text \<open>What \<^verbatim>\<open>open\<close> reads of the process: its name, its id in decimal, the UTC stamp; and mkdir's answer.\<close>

record open_env =
  oe_proc :: string
  oe_pid :: string
  oe_stamp :: string
  oe_mkdir :: "string \<Rightarrow> bool"

definition run_dir :: "open_env \<Rightarrow> string \<Rightarrow> string" where
  "run_dir e out = path_join out (oe_proc e @ ''_'' @ oe_pid e @ ''_'' @ oe_stamp e)"

definition file_open :: "'f file_ops \<Rightarrow> open_env \<Rightarrow> 'f file_sink \<Rightarrow> bool \<times> 'f file_sink" where
  "file_open fo e s =
     (if \<not> fs_configured s then (False, s)
      else let dir = run_dir e (fs_out_dir s);
               base = ''p8_'' @ oe_stamp e
           in if \<not> oe_mkdir e dir then (False, s)
              else case fo_open fo (path_join dir (base @ ''.p8svc'')) (fs_svc s) of
                  (False, f1) \<Rightarrow> (False, s\<lparr>fs_svc := f1\<rparr>)
                | (True, f1) \<Rightarrow>
                    (case fo_open fo (path_join dir (base @ ''.p8dat'')) (fs_data s) of
                       (False, f2) \<Rightarrow> (False, s\<lparr>fs_svc := fo_close fo False f1, fs_data := f2\<rparr>)
                     | (True, f2) \<Rightarrow> (True, s\<lparr>fs_svc := f1, fs_data := f2\<rparr>)))"

definition grow_iov :: "nat \<Rightarrow> 'f file_sink \<Rightarrow> bool \<times> 'f file_sink" where
  "grow_iov needed s =
     (if needed \<le> fs_iov_cap s then (True, s)
      else case fs_reallocs s of
          [] \<Rightarrow> (False, s)
        | r # rs \<Rightarrow> (if r then (True, s\<lparr>fs_reallocs := rs, fs_iov_cap := needed\<rparr>) else (False, s\<lparr>fs_reallocs := rs\<rparr>)))"

definition drop_batch :: "nat \<Rightarrow> 'f file_sink \<Rightarrow> bool \<times> 'f file_sink" where
  "drop_batch tot s =
     (if tot = 0 then (True, s)
      else (False, s\<lparr>fs_dropped := fs_dropped s + of_nat tot, fs_errors := fs_errors s + 1\<rparr>))"

text \<open>One chunk: what \<^verbatim>\<open>write_v\<close> took is counted as written, the rest as dropped.\<close>

definition write_chunk :: "'f file_ops \<Rightarrow> iovec list \<Rightarrow> 'f \<Rightarrow> 'f file_sink \<Rightarrow> bool \<times> 'f \<times> 'f file_sink" where
  "write_chunk fo chunk f s =
     (let size = sum_list (map iv_size chunk);
          (n, f1) = fo_write_v fo chunk f;
          s1 = s\<lparr>fs_written := fs_written s + of_nat n\<rparr>
      in if n \<noteq> size
         then (False, f1, s1\<lparr>fs_dropped := fs_dropped s + of_nat (size_sub size n), fs_errors := fs_errors s + 1\<rparr>)
         else (True, f1, s1))"

function write_chunks :: "'f file_ops \<Rightarrow> iovec list \<Rightarrow> bool \<Rightarrow> 'f \<Rightarrow> 'f file_sink \<Rightarrow> bool \<times> 'f \<times> 'f file_sink" where
  "write_chunks fo iovs ok f s =
     (if iovs = [] then (ok, f, s)
      else case write_chunk fo (take mz_max_iov iovs) f s of
          (b, f1, s1) \<Rightarrow> write_chunks fo (drop mz_max_iov iovs) (ok \<and> b) f1 s1)"
  by pat_completeness auto
termination
  by (relation "measure (\<lambda>(fo, iovs, ok, f, s). length iovs)") (auto simp: mz_max_iov_def)

declare write_chunks.simps [simp del]

text \<open>
  \<open>write_entries\<close> on the file \<open>f\<close> of the sink, which the caller stores back. \<open>tot\<close> is the sum
  of the sizes, computed by the caller.
\<close>

definition write_entries :: "'f file_ops \<Rightarrow> iovec list \<Rightarrow> nat \<Rightarrow> 'f \<Rightarrow> 'f file_sink \<Rightarrow> bool \<times> 'f \<times> 'f file_sink" where
  "write_entries fo iovs tot f s =
     (if tot = 0 then (True, f, s)
      else if \<not> fo_is_open fo f then (case drop_batch tot s of (b, s1) \<Rightarrow> (b, f, s1))
      else write_chunks fo iovs True f s)"

definition file_hello :: "'f file_ops \<Rightarrow> byte list \<Rightarrow> 'f file_sink \<Rightarrow> bool \<times> 'f file_sink" where
  "file_hello fo h s =
     (case write_entries fo [\<lparr>iv_data = h, iv_size = length h\<rparr>] (length h) (fs_data s) s of
        (b, f, s1) \<Rightarrow> (b, s1\<lparr>fs_data := f\<rparr>))"

definition data_iov :: "byte list \<Rightarrow> iovec" where
  "data_iov b = \<lparr>iv_data = b, iv_size = buf_size b\<rparr>"

definition svc_iov :: "byte list \<times> nat \<Rightarrow> iovec" where
  "svc_iov e = \<lparr>iv_data = fst e, iv_size = snd e\<rparr>"

text \<open>The body common to \<^verbatim>\<open>write_data\<close> and \<^verbatim>\<open>write_service\<close>.\<close>

definition file_batch :: "'f file_ops \<Rightarrow> iovec list \<Rightarrow> 'f \<Rightarrow> 'f file_sink \<Rightarrow> bool \<times> 'f \<times> 'f file_sink" where
  "file_batch fo iovs f s =
     (let tot = sum_list (map iv_size iovs)
      in if iovs = [] then (True, f, s)
         else case grow_iov (length iovs) s of
             (False, s1) \<Rightarrow> (case drop_batch tot s1 of (b, s2) \<Rightarrow> (b, f, s2))
           | (True, s1) \<Rightarrow> write_entries fo iovs tot f s1)"

definition file_data :: "'f file_ops \<Rightarrow> byte list list \<Rightarrow> 'f file_sink \<Rightarrow> bool \<times> 'f file_sink" where
  "file_data fo bufs s = (case file_batch fo (map data_iov bufs) (fs_data s) s of (b, f, s1) \<Rightarrow> (b, s1\<lparr>fs_data := f\<rparr>))"

definition file_service :: "'f file_ops \<Rightarrow> (byte list \<times> nat) list \<Rightarrow> 'f file_sink \<Rightarrow> bool \<times> 'f file_sink" where
  "file_service fo es s = (case file_batch fo (map svc_iov es) (fs_svc s) s of (b, f, s1) \<Rightarrow> (b, s1\<lparr>fs_svc := f\<rparr>))"

definition file_flush :: "'f file_ops \<Rightarrow> 'f file_sink \<Rightarrow> 'f file_sink" where
  "file_flush fo s =
     (let s1 = (if fo_is_open fo (fs_svc s) then s\<lparr>fs_svc := fo_sync fo (fs_svc s)\<rparr> else s)
      in if fo_is_open fo (fs_data s1) then s1\<lparr>fs_data := fo_sync fo (fs_data s1)\<rparr> else s1)"

definition file_close :: "'f file_ops \<Rightarrow> 'f file_sink \<Rightarrow> 'f file_sink" where
  "file_close fo s = s\<lparr>fs_svc := fo_close fo True (fs_svc s), fs_data := fo_close fo True (fs_data s)\<rparr>"

definition file_sink_ops :: "'f file_ops \<Rightarrow> open_env \<Rightarrow> 'f file_sink sink_ops" where
  "file_sink_ops fo e = \<lparr>sk_open = file_open fo e, sk_hello = file_hello fo, sk_data = file_data fo,
     sk_service = file_service fo, sk_flush = file_flush fo, sk_close = file_close fo\<rparr>"

section \<open>The null sink\<close>

text \<open>The state is \<^verbatim>\<open>mu_total\<close>, a 64-bit integer.\<close>

definition null_hello :: "byte list \<Rightarrow> u64 \<Rightarrow> bool \<times> u64" where
  "null_hello h t = (True, t + of_nat (length h))"

definition null_data :: "byte list list \<Rightarrow> u64 \<Rightarrow> bool \<times> u64" where
  "null_data bufs t = (True, fold (\<lambda>b t. t + of_nat (buf_size b)) bufs t)"

definition null_service :: "(byte list \<times> nat) list \<Rightarrow> u64 \<Rightarrow> bool \<times> u64" where
  "null_service es t = (True, fold (\<lambda>e t. t + of_nat (snd e)) es t)"

text \<open>The unit and the divisor of the closing report; \<^verbatim>\<open>mu_total\<close> is signed there.\<close>

definition null_report :: "u64 \<Rightarrow> string \<times> int \<times> int" where
  "null_report t =
     (let v = sint t
      in if 2 ^ 30 \<le> v then (''GB'', 2 ^ 30, v)
         else if 2 ^ 20 \<le> v then (''MB'', 2 ^ 20, v)
         else if 2 ^ 10 \<le> v then (''KB'', 2 ^ 10, v)
         else (''B'', 1, v))"

definition null_sink_ops :: "u64 sink_ops" where
  "null_sink_ops = \<lparr>sk_open = (\<lambda>_. (True, 0)), sk_hello = null_hello, sk_data = null_data,
     sk_service = null_service, sk_flush = id, sk_close = id\<rparr>"

section \<open>What the file sink relies on\<close>

definition iov_bytes :: "iovec \<Rightarrow> byte list" where
  "iov_bytes v = take (iv_size v) (iv_data v)"

definition iov_ok :: "iovec \<Rightarrow> bool" where
  "iov_ok v \<longleftrightarrow> iv_size v \<le> length (iv_data v)"

text \<open>
  \<^verbatim>\<open>kit::c_file\<close>: an open file takes a prefix of the bytes of at most 1024 entries and says how
  many; creating a new file opens it empty; syncing and closing keep the bytes.
\<close>

definition file_law :: "'f file_ops \<Rightarrow> bool" where
  "file_law fo \<longleftrightarrow>
     (\<forall>f iovs n f'. fo_is_open fo f \<longrightarrow> length iovs \<le> 1024 \<longrightarrow> list_all iov_ok iovs \<longrightarrow> fo_write_v fo iovs f = (n, f') \<longrightarrow>
        n \<le> sum_list (map iv_size iovs) \<and> fo_is_open fo f' \<and>
        fo_bytes fo f' = fo_bytes fo f @ take n (concat (map iov_bytes iovs))) \<and>
     (\<forall>p f f'. fo_open fo p f = (True, f') \<longrightarrow> fo_is_open fo f' \<and> fo_bytes fo f' = []) \<and>
     (\<forall>f. fo_is_open fo f \<longrightarrow> fo_is_open fo (fo_sync fo f) \<and> fo_bytes fo (fo_sync fo f) = fo_bytes fo f) \<and>
     (\<forall>b f. fo_bytes fo (fo_close fo b f) = fo_bytes fo f)"

lemma length_iov_bytes: "list_all iov_ok iovs \<Longrightarrow> length (concat (map iov_bytes iovs)) = sum_list (map iv_size iovs)"
  by (induction iovs) (auto simp: iov_ok_def iov_bytes_def)

section \<open>What a write leaves behind\<close>

text \<open>
  The bytes kept are a subsequence of those offered; they are counted as written and the others
  as dropped, and the result tells whether all were kept.
\<close>

definition wrote :: "'f file_ops \<Rightarrow> iovec list \<Rightarrow> 'f \<Rightarrow> 'f file_sink \<Rightarrow> bool \<times> 'f \<times> 'f file_sink \<Rightarrow> bool" where
  "wrote fo iovs f s = (\<lambda>(b, f', s'). \<exists>kept e.
     fo_bytes fo f' = fo_bytes fo f @ kept \<and> subseq kept (concat (map iov_bytes iovs)) \<and>
     fo_is_open fo f' = fo_is_open fo f \<and> (b \<longleftrightarrow> length kept = sum_list (map iv_size iovs)) \<and>
     s' = s\<lparr>fs_written := fs_written s + of_nat (length kept),
            fs_dropped := fs_dropped s + of_nat (sum_list (map iv_size iovs) - length kept), fs_errors := e\<rparr> \<and>
     (b \<longrightarrow> e = fs_errors s))"

lemma write_chunk_wrote:
  assumes "file_law fo" "fo_is_open fo f" "length iovs \<le> 1024" "list_all iov_ok iovs"
  shows "wrote fo iovs f s (write_chunk fo iovs f s)"
proof -
  obtain n f' where w: "fo_write_v fo iovs f = (n, f')" by (meson surj_pair)
  let ?bs = "concat (map iov_bytes iovs)"
  let ?tot = "sum_list (map iv_size iovs)"
  have len: "length ?bs = ?tot" by (rule length_iov_bytes [OF assms(4)])
  from assms w have law: "n \<le> ?tot" "fo_is_open fo f'" "fo_bytes fo f' = fo_bytes fo f @ take n ?bs"
    unfolding file_law_def by blast+
  have kept: "length (take n ?bs) = n" "subseq (take n ?bs) ?bs" using law(1) len by (auto simp: prefix_imp_subseq take_is_prefix)
  show ?thesis
  proof (cases "n = ?tot")
    case True
    then show ?thesis using w law kept assms(2)
      by (auto simp add: write_chunk_def wrote_def Let_def simp del: length_take intro!: exI [of _ "take n ?bs"])
  next
    case False
    then show ?thesis using w law kept assms(2)
      by (auto simp add: write_chunk_def wrote_def Let_def simp del: length_take
          intro!: exI [of _ "take n ?bs"] exI [of _ "fs_errors s + 1"])
  qed
qed

lemma wrote_append:
  assumes "wrote fo xs f s (b1, f1, s1)" "wrote fo ys f1 s1 (b2, f2, s2)" "list_all iov_ok xs" "list_all iov_ok ys"
  shows "wrote fo (xs @ ys) f s (b1 \<and> b2, f2, s2)"
proof -
  let ?tx = "sum_list (map iv_size xs)" and ?ty = "sum_list (map iv_size ys)"
  from assms(1) obtain k1 e1 where k1: "fo_bytes fo f1 = fo_bytes fo f @ k1" "subseq k1 (concat (map iov_bytes xs))"
    "fo_is_open fo f1 = fo_is_open fo f" "b1 \<longleftrightarrow> length k1 = ?tx"
    "s1 = s\<lparr>fs_written := fs_written s + of_nat (length k1), fs_dropped := fs_dropped s + of_nat (?tx - length k1), fs_errors := e1\<rparr>"
    "b1 \<longrightarrow> e1 = fs_errors s" unfolding wrote_def by auto
  from assms(2) obtain k2 e2 where k2: "fo_bytes fo f2 = fo_bytes fo f1 @ k2" "subseq k2 (concat (map iov_bytes ys))"
    "fo_is_open fo f2 = fo_is_open fo f1" "b2 \<longleftrightarrow> length k2 = ?ty"
    "s2 = s1\<lparr>fs_written := fs_written s1 + of_nat (length k2), fs_dropped := fs_dropped s1 + of_nat (?ty - length k2), fs_errors := e2\<rparr>"
    "b2 \<longrightarrow> e2 = fs_errors s1" unfolding wrote_def by auto
  have le: "length k1 \<le> ?tx" "length k2 \<le> ?ty"
    using list_emb_length [OF k1(2)] list_emb_length [OF k2(2)] by (simp_all only: length_iov_bytes [OF assms(3)] length_iov_bytes [OF assms(4)])
  have "subseq (k1 @ k2) (concat (map iov_bytes (xs @ ys)))" using list_emb_append_mono [OF k1(2) k2(2)] by simp
  moreover have "(b1 \<and> b2) = (length (k1 @ k2) = sum_list (map iv_size (xs @ ys)))" using k1(4) k2(4) le by auto
  moreover have "of_nat (?tx + ?ty - (length k1 + length k2)) = (of_nat (?tx - length k1) + of_nat (?ty - length k2) :: u64)"
    using le by (simp add: of_nat_diff algebra_simps)
  ultimately show ?thesis using k1 k2 unfolding wrote_def prod.case
    by (intro exI [of _ "k1 @ k2"] exI [of _ e2]) (auto simp: add.assoc)
qed

lemma write_chunks_wrote:
  assumes "file_law fo" "fo_is_open fo f" "list_all iov_ok iovs"
  shows "\<exists>b f' s'. wrote fo iovs f s (b, f', s') \<and> write_chunks fo iovs ok f s = (ok \<and> b, f', s')"
  using assms
proof (induction fo iovs ok f s rule: write_chunks.induct)
  case (1 fo iovs ok f s)
  show ?case
  proof (cases "iovs = []")
    case True
    then show ?thesis by (intro exI [of _ True] exI [of _ f] exI [of _ s]) (auto simp: write_chunks.simps [of _ "[]"] wrote_def)
  next
    case False
    let ?xs = "take mz_max_iov iovs" and ?ys = "drop mz_max_iov iovs"
    have iok: "list_all iov_ok ?xs" "list_all iov_ok ?ys" using 1(4)
      by (auto simp: list_all_iff dest: in_set_takeD in_set_dropD)
    obtain b1 f1 s1 where c: "write_chunk fo ?xs f s = (b1, f1, s1)" by (metis prod_cases3)
    have w1: "wrote fo ?xs f s (b1, f1, s1)"
      using write_chunk_wrote [OF 1(2,3) _ iok(1), of s] c by (simp add: mz_max_iov_def)
    then have op: "fo_is_open fo f1" using 1(3) by (auto simp: wrote_def)
    from 1(1) [OF False c [symmetric] refl 1(2) op iok(2)]
    obtain b2 f2 s2 where r: "wrote fo ?ys f1 s1 (b2, f2, s2)" "write_chunks fo ?ys (ok \<and> b1) f1 s1 = ((ok \<and> b1) \<and> b2, f2, s2)"
      by blast
    have "wrote fo (?xs @ ?ys) f s (b1 \<and> b2, f2, s2)" by (rule wrote_append [OF w1 r(1) iok])
    then show ?thesis using r(2) False c
      by (intro exI [of _ "b1 \<and> b2"] exI [of _ f2] exI [of _ s2]) (simp add: write_chunks.simps [of _ iovs])
  qed
qed

lemma wrote_nothing: "sum_list (map iv_size iovs) = 0 \<Longrightarrow> wrote fo iovs f s (True, f, s)"
  unfolding wrote_def prod.case
  by (intro exI [of _ "[]"] exI [of _ "fs_errors s"]) (simp del: sum_list_eq_0_iff)

lemma write_entries_open:
  assumes "file_law fo" "fo_is_open fo f" "list_all iov_ok iovs" "tot = sum_list (map iv_size iovs)"
  shows "wrote fo iovs f s (write_entries fo iovs tot f s)"
proof (cases "tot = 0")
  case True
  then show ?thesis using assms(4) wrote_nothing [of iovs fo f s] by (simp add: write_entries_def)
next
  case False
  from write_chunks_wrote [OF assms(1-3), of s True] obtain b f' s' where
    "wrote fo iovs f s (b, f', s')" "write_chunks fo iovs True f s = (b, f', s')" by auto
  with False assms(2) show ?thesis by (simp add: write_entries_def)
qed

text \<open>A batch that is refused before the file is reached: nothing kept, everything counted as dropped.\<close>

lemma drop_batch_wrote:
  "wrote fo iovs f s (case drop_batch (sum_list (map iv_size iovs)) s of (b, s1) \<Rightarrow> (b, f, s1))"
proof (cases "sum_list (map iv_size iovs) = 0")
  case True
  then show ?thesis using wrote_nothing [OF True] by (simp add: drop_batch_def)
next
  case False
  then have "drop_batch (sum_list (map iv_size iovs)) s =
      (False, s\<lparr>fs_dropped := fs_dropped s + of_nat (sum_list (map iv_size iovs)), fs_errors := fs_errors s + 1\<rparr>)"
    unfolding drop_batch_def by (rule if_not_P)
  with False show ?thesis unfolding wrote_def
    by (simp del: sum_list_eq_0_iff) (intro exI [of _ "[]"] exI [of _ "fs_errors s + 1"]; simp)
qed

lemma write_entries_closed:
  assumes "\<not> fo_is_open fo f" "tot = sum_list (map iv_size iovs)"
  shows "wrote fo iovs f s (write_entries fo iovs tot f s)"
  using assms drop_batch_wrote [of fo iovs f s] wrote_nothing [of iovs fo f s] by (simp add: write_entries_def)

text \<open>Growing the scratch array changes nothing the accounts depend on.\<close>

definition same_but_iov :: "'f file_sink \<Rightarrow> 'f file_sink \<Rightarrow> bool" where
  "same_but_iov s s' \<longleftrightarrow> s'\<lparr>fs_iov_cap := fs_iov_cap s, fs_reallocs := fs_reallocs s\<rparr> = s"

lemma grow_iov_same: "grow_iov n s = (b, s') \<Longrightarrow> same_but_iov s s'"
  by (cases "fs_reallocs s") (auto simp: same_but_iov_def grow_iov_def split: if_splits)

lemma file_batch_wrote:
  assumes "file_law fo" "list_all iov_ok iovs"
  shows "\<exists>s1. same_but_iov s s1 \<and> wrote fo iovs f s1 (file_batch fo iovs f s)"
proof (cases "iovs = []")
  case True
  then show ?thesis using wrote_nothing [of iovs fo f s]
    by (intro exI [of _ s]) (simp add: same_but_iov_def file_batch_def)
next
  case False
  obtain b s1 where g: "grow_iov (length iovs) s = (b, s1)" by (meson surj_pair)
  have "wrote fo iovs f s1 (file_batch fo iovs f s)"
  proof (cases b)
    case True
    then show ?thesis using g False write_entries_open [OF assms(1) _ assms(2) refl, of f s1]
        write_entries_closed [OF _ refl, of fo f iovs s1]
      by (cases "fo_is_open fo f") (simp_all add: file_batch_def Let_def)
  next
    case no: False
    then show ?thesis using g False drop_batch_wrote [of fo iovs f s1] by (simp add: file_batch_def Let_def)
  qed
  then show ?thesis using grow_iov_same [OF g] by blast
qed

section \<open>Calls of the worker and their accounts\<close>

datatype sink_call = Hello "byte list" | Data "byte list list" | Service "(byte list \<times> nat) list" | Flush

fun sink_step :: "'s sink_ops \<Rightarrow> sink_call \<Rightarrow> 's \<Rightarrow> bool \<times> 's" where
  "sink_step sk (Hello h) s = sk_hello sk h s"
| "sink_step sk (Data bufs) s = sk_data sk bufs s"
| "sink_step sk (Service es) s = sk_service sk es s"
| "sink_step sk Flush s = (True, sk_flush sk s)"

fun sink_run :: "'s sink_ops \<Rightarrow> sink_call list \<Rightarrow> 's \<Rightarrow> bool list \<times> 's" where
  "sink_run sk [] s = ([], s)"
| "sink_run sk (x # xs) s =
     (case sink_step sk x s of (b, s1) \<Rightarrow> (case sink_run sk xs s1 of (bs, s2) \<Rightarrow> (b # bs, s2)))"

text \<open>A size never exceeds the buffer it is about; the bytes a call offers to each of the files.\<close>

fun call_ok :: "sink_call \<Rightarrow> bool" where
  "call_ok (Data bufs) \<longleftrightarrow> (\<forall>b\<in>set bufs. buf_size b \<le> length b)"
| "call_ok (Service es) \<longleftrightarrow> (\<forall>e\<in>set es. snd e \<le> length (fst e))"
| "call_ok _ \<longleftrightarrow> True"

fun call_data :: "sink_call \<Rightarrow> byte list" where
  "call_data (Hello h) = h"
| "call_data (Data bufs) = concat (map (\<lambda>b. take (buf_size b) b) bufs)"
| "call_data _ = []"

fun call_svc :: "sink_call \<Rightarrow> byte list" where
  "call_svc (Service es) = concat (map (\<lambda>e. take (snd e) (fst e)) es)"
| "call_svc _ = []"

definition call_size :: "sink_call \<Rightarrow> nat" where
  "call_size x = length (call_data x) + length (call_svc x)"

text \<open>
  What the core may rely on when it hands bytes to a sink: every byte is accounted for. A sink
  that stores bytes keeps a subsequence of them, and all of them when it reports success.
\<close>

locale sink_contract =
  fixes sk :: "'s sink_ops"
    and acc :: "'s \<Rightarrow> u64"
    and inv :: "'s \<Rightarrow> bool"
  assumes step_inv: "inv s \<Longrightarrow> call_ok x \<Longrightarrow> sink_step sk x s = (b, s') \<Longrightarrow> inv s'"
    and step_acc: "inv s \<Longrightarrow> call_ok x \<Longrightarrow> sink_step sk x s = (b, s') \<Longrightarrow> acc s' = acc s + of_nat (call_size x)"
begin

lemma run_accounts:
  "inv s \<Longrightarrow> list_all call_ok xs \<Longrightarrow> sink_run sk xs s = (bs, s') \<Longrightarrow>
   inv s' \<and> acc s' = acc s + of_nat (sum_list (map call_size xs))"
proof (induction xs arbitrary: s bs)
  case Nil
  then show ?case by simp
next
  case (Cons x xs)
  obtain b s1 where st: "sink_step sk x s = (b, s1)" by (meson surj_pair)
  obtain cs where rn: "sink_run sk xs s1 = (cs, s')" "bs = b # cs" using Cons.prems(3) st by (auto split: prod.splits)
  have "inv s1" "acc s1 = acc s + of_nat (call_size x)"
    using step_inv [OF Cons.prems(1) _ st] step_acc [OF Cons.prems(1) _ st] Cons.prems(2) by simp_all
  with Cons.IH [OF this(1) _ rn(1)] Cons.prems(2) show ?case by (simp add: add.assoc)
qed

end

locale storing_sink = sink_contract sk acc inv
  for sk :: "'s sink_ops" and acc inv +
  fixes data svc :: "'s \<Rightarrow> byte list"
    and lost :: "'s \<Rightarrow> u64 \<times> u64"
  assumes step_part: "inv s \<Longrightarrow> call_ok x \<Longrightarrow> sink_step sk x s = (b, s') \<Longrightarrow>
        \<exists>k j. data s' = data s @ k \<and> subseq k (call_data x) \<and> svc s' = svc s @ j \<and> subseq j (call_svc x)"
    and step_all: "inv s \<Longrightarrow> call_ok x \<Longrightarrow> sink_step sk x s = (True, s') \<Longrightarrow>
        data s' = data s @ call_data x \<and> svc s' = svc s @ call_svc x \<and> lost s' = lost s"
begin

lemma run_part:
  "inv s \<Longrightarrow> list_all call_ok xs \<Longrightarrow> sink_run sk xs s = (bs, s') \<Longrightarrow>
   \<exists>k j. data s' = data s @ k \<and> subseq k (concat (map call_data xs)) \<and>
     svc s' = svc s @ j \<and> subseq j (concat (map call_svc xs))"
proof (induction xs arbitrary: s bs)
  case Nil
  then show ?case by simp
next
  case (Cons x xs)
  obtain b s1 where st: "sink_step sk x s = (b, s1)" by (meson surj_pair)
  obtain cs where rn: "sink_run sk xs s1 = (cs, s')" "bs = b # cs" using Cons.prems(3) st by (auto split: prod.splits)
  have i: "inv s1" using step_inv [OF Cons.prems(1) _ st] Cons.prems(2) by simp
  obtain k j where kj: "data s1 = data s @ k" "subseq k (call_data x)" "svc s1 = svc s @ j" "subseq j (call_svc x)"
    using step_part [OF Cons.prems(1) _ st] Cons.prems(2) by auto
  from Cons.IH [OF i _ rn(1)] Cons.prems(2) obtain k2 j2 where
    "data s' = data s1 @ k2" "subseq k2 (concat (map call_data xs))"
    "svc s' = svc s1 @ j2" "subseq j2 (concat (map call_svc xs))" by auto
  with kj show ?case
    by (intro exI [of _ "k @ k2"] exI [of _ "j @ j2"]) (simp add: list_emb_append_mono)
qed

lemma run_all:
  "inv s \<Longrightarrow> list_all call_ok xs \<Longrightarrow> sink_run sk xs s = (bs, s') \<Longrightarrow> (\<forall>b\<in>set bs. b) \<Longrightarrow>
   data s' = data s @ concat (map call_data xs) \<and> svc s' = svc s @ concat (map call_svc xs) \<and> lost s' = lost s"
proof (induction xs arbitrary: s bs)
  case Nil
  then show ?case by simp
next
  case (Cons x xs)
  obtain b s1 where st: "sink_step sk x s = (b, s1)" by (meson surj_pair)
  obtain cs where rn: "sink_run sk xs s1 = (cs, s')" "bs = b # cs" using Cons.prems(3) st by (auto split: prod.splits)
  have b: "b" "\<forall>c\<in>set cs. c" using Cons.prems(4) rn(2) by auto
  have i: "inv s1" using step_inv [OF Cons.prems(1) _ st] Cons.prems(2) by simp
  from b(1) step_all [OF Cons.prems(1), of x s1] Cons.prems(2) st
  have "data s1 = data s @ call_data x \<and> svc s1 = svc s @ call_svc x \<and> lost s1 = lost s" by simp
  moreover from Cons.IH [OF i _ rn(1) b(2)] Cons.prems(2)
  have "data s' = data s1 @ concat (map call_data xs) \<and> svc s' = svc s1 @ concat (map call_svc xs) \<and> lost s' = lost s1"
    by simp
  ultimately show ?case by simp
qed

end

section \<open>Both sinks keep the contract\<close>

text \<open>The null sink.\<close>

lemma fold_add: "fold (\<lambda>b t. t + of_nat (f b)) bs t = (t :: u64) + of_nat (sum_list (map f bs))"
  by (induction bs arbitrary: t) (simp_all add: add.assoc)

lemma length_takes: "\<forall>b\<in>set bs. n b \<le> length (g b) \<Longrightarrow> length (concat (map (\<lambda>b. take (n b) (g b)) bs)) = sum_list (map n bs)"
  by (induction bs) auto

interpretation null_sink: sink_contract null_sink_ops id "\<lambda>_. True"
proof (unfold_locales, goal_cases)
  case (2 s x b s')
  then show ?case
    by (cases x) (auto simp: null_sink_ops_def null_hello_def null_data_def null_service_def call_size_def fold_add length_takes)
qed simp

text \<open>The file sink, for any file that keeps its law.\<close>

lemma wrote_sizes:
  assumes "wrote fo iovs f s (b, f', s')" "list_all iov_ok iovs"
  shows "fs_written s' + fs_dropped s' = fs_written s + fs_dropped s + of_nat (sum_list (map iv_size iovs))"
    and "\<exists>k. fo_bytes fo f' = fo_bytes fo f @ k \<and> subseq k (concat (map iov_bytes iovs))"
    and "b \<Longrightarrow> fo_bytes fo f' = fo_bytes fo f @ concat (map iov_bytes iovs) \<and>
      fs_dropped s' = fs_dropped s \<and> fs_errors s' = fs_errors s"
    and "fs_data s' = fs_data s" and "fs_svc s' = fs_svc s"
proof -
  let ?t = "sum_list (map iv_size iovs)"
  from assms(1) obtain k e where k: "fo_bytes fo f' = fo_bytes fo f @ k" "subseq k (concat (map iov_bytes iovs))"
    "b \<longleftrightarrow> length k = ?t" "b \<longrightarrow> e = fs_errors s"
    "s' = s\<lparr>fs_written := fs_written s + of_nat (length k), fs_dropped := fs_dropped s + of_nat (?t - length k), fs_errors := e\<rparr>"
    unfolding wrote_def by auto
  have le: "length k \<le> ?t" using list_emb_length [OF k(2)] by (simp only: length_iov_bytes [OF assms(2)])
  then have eq: "of_nat (length k) + of_nat (?t - length k) = (of_nat ?t :: u64)"
    by (simp only: of_nat_add [symmetric] le_add_diff_inverse)
  define x y :: u64 where "x = of_nat (length k)" and "y = of_nat (?t - length k)"
  have "fs_written s' = fs_written s + x" "fs_dropped s' = fs_dropped s + y" "x + y = of_nat ?t"
    using eq unfolding k(5) x_def y_def by simp_all
  then show "fs_written s' + fs_dropped s' = fs_written s + fs_dropped s + of_nat ?t"
    by (simp add: algebra_simps)
  show "\<exists>k. fo_bytes fo f' = fo_bytes fo f @ k \<and> subseq k (concat (map iov_bytes iovs))" using k(1,2) by blast
  show "fs_data s' = fs_data s" "fs_svc s' = fs_svc s" using k(5) by simp_all
  assume b: "b"
  then have len: "length k = length (concat (map iov_bytes iovs))" using k(3) by (simp only: length_iov_bytes [OF assms(2)])
  then have "k = concat (map iov_bytes iovs)" by (rule subseq_same_length [OF k(2)])
  moreover have "fs_dropped s' = fs_dropped s" using k(3,5) b by simp
  ultimately show "fo_bytes fo f' = fo_bytes fo f @ concat (map iov_bytes iovs) \<and>
      fs_dropped s' = fs_dropped s \<and> fs_errors s' = fs_errors s" using k(1,4,5) b by simp
qed

lemma file_batch_accounts:
  assumes "file_law fo" "list_all iov_ok iovs" "file_batch fo iovs f s = (b, f', s')"
  shows "fs_written s' + fs_dropped s' = fs_written s + fs_dropped s + of_nat (sum_list (map iv_size iovs)) \<and>
    (\<exists>k. fo_bytes fo f' = fo_bytes fo f @ k \<and> subseq k (concat (map iov_bytes iovs))) \<and>
    (b \<longrightarrow> fo_bytes fo f' = fo_bytes fo f @ concat (map iov_bytes iovs) \<and>
      fs_dropped s' = fs_dropped s \<and> fs_errors s' = fs_errors s) \<and> fs_data s' = fs_data s \<and> fs_svc s' = fs_svc s"
proof -
  from file_batch_wrote [OF assms(1,2), of s f] assms(3) obtain s1 where
    s1: "s1\<lparr>fs_iov_cap := fs_iov_cap s, fs_reallocs := fs_reallocs s\<rparr> = s" "wrote fo iovs f s1 (b, f', s')"
    unfolding same_but_iov_def by auto
  have "fs_written s = fs_written s1 \<and> fs_dropped s = fs_dropped s1 \<and> fs_errors s = fs_errors s1 \<and>
    fs_data s = fs_data s1 \<and> fs_svc s = fs_svc s1"
    by (subst (1 2 3 4 5) s1(1) [symmetric]) simp
  with wrote_sizes [OF s1(2) assms(2)] show ?thesis by simp
qed

lemma hello_accounts:
  assumes "file_law fo" "write_entries fo [\<lparr>iv_data = h, iv_size = length h\<rparr>] (length h) f s = (b, f', s')"
  shows "fs_written s' + fs_dropped s' = fs_written s + fs_dropped s + of_nat (length h) \<and>
    (\<exists>k. fo_bytes fo f' = fo_bytes fo f @ k \<and> subseq k h) \<and>
    (b \<longrightarrow> fo_bytes fo f' = fo_bytes fo f @ h \<and> fs_dropped s' = fs_dropped s \<and> fs_errors s' = fs_errors s) \<and>
    fs_data s' = fs_data s \<and> fs_svc s' = fs_svc s"
proof -
  let ?v = "[\<lparr>iv_data = h, iv_size = length h\<rparr>]"
  have ok: "list_all iov_ok ?v" by (simp add: iov_ok_def)
  have "wrote fo ?v f s (b, f', s')"
    using write_entries_open [OF assms(1) _ ok, of f "length h" s] write_entries_closed [of fo f "length h" ?v s] assms(2)
    by (cases "fo_is_open fo f") simp_all
  from wrote_sizes [OF this ok] show ?thesis by (simp add: iov_bytes_def)
qed

lemma iov_simps:
  "map iv_size (map data_iov bufs) = map buf_size bufs"
  "map iov_bytes (map data_iov bufs) = map (\<lambda>b. take (buf_size b) b) bufs"
  "map iv_size (map svc_iov es) = map snd es"
  "map iov_bytes (map svc_iov es) = map (\<lambda>e. take (snd e) (fst e)) es"
  "list_all iov_ok (map data_iov bufs) = call_ok (Data bufs)"
  "list_all iov_ok (map svc_iov es) = call_ok (Service es)"
  by (auto simp: data_iov_def svc_iov_def iov_bytes_def iov_ok_def list_all_iff)

definition file_keeps :: "'f file_ops \<Rightarrow> sink_call \<Rightarrow> bool \<Rightarrow> 'f file_sink \<Rightarrow> 'f file_sink \<Rightarrow> bool" where
  "file_keeps fo x b s s' \<longleftrightarrow>
     fs_written s' + fs_dropped s' = fs_written s + fs_dropped s + of_nat (call_size x) \<and>
     (\<exists>k j. fo_bytes fo (fs_data s') = fo_bytes fo (fs_data s) @ k \<and> subseq k (call_data x) \<and>
       fo_bytes fo (fs_svc s') = fo_bytes fo (fs_svc s) @ j \<and> subseq j (call_svc x)) \<and>
     (b \<longrightarrow> fo_bytes fo (fs_data s') = fo_bytes fo (fs_data s) @ call_data x \<and>
       fo_bytes fo (fs_svc s') = fo_bytes fo (fs_svc s) @ call_svc x \<and>
       (fs_dropped s', fs_errors s') = (fs_dropped s, fs_errors s))"

lemma file_flush_keeps: "file_law fo \<Longrightarrow> file_keeps fo Flush True s (file_flush fo s)"
  by (auto simp: file_keeps_def file_flush_def Let_def file_law_def call_size_def)

lemma file_step_keeps:
  assumes "file_law fo" "call_ok x" "sink_step (file_sink_ops fo e) x s = (b, s')"
  shows "file_keeps fo x b s s'"
proof (cases x)
  case (Hello h)
  obtain f s1 where w: "write_entries fo [\<lparr>iv_data = h, iv_size = length h\<rparr>] (length h) (fs_data s) s = (b, f, s1)"
    "s' = s1\<lparr>fs_data := f\<rparr>" using assms(3) Hello by (auto simp: file_sink_ops_def file_hello_def split: prod.splits)
  from hello_accounts [OF assms(1) w(1)] show ?thesis
    using Hello w(2) by (auto simp: file_keeps_def call_size_def)
next
  case (Data bufs)
  obtain f s1 where w: "file_batch fo (map data_iov bufs) (fs_data s) s = (b, f, s1)" "s' = s1\<lparr>fs_data := f\<rparr>"
    using assms(3) Data by (auto simp: file_sink_ops_def file_data_def split: prod.splits)
  from file_batch_accounts [OF assms(1) _ w(1)] assms(2) Data length_takes [of bufs buf_size "\<lambda>b. b"] show ?thesis
    unfolding iov_simps using w(2) by (auto simp: file_keeps_def call_size_def)
next
  case (Service es)
  obtain f s1 where w: "file_batch fo (map svc_iov es) (fs_svc s) s = (b, f, s1)" "s' = s1\<lparr>fs_svc := f\<rparr>"
    using assms(3) Service by (auto simp: file_sink_ops_def file_service_def split: prod.splits)
  from file_batch_accounts [OF assms(1) _ w(1)] assms(2) Service length_takes [of es snd fst] show ?thesis
    unfolding iov_simps using w(2) by (auto simp: file_keeps_def call_size_def)
next
  case Flush
  then show ?thesis using assms file_flush_keeps [OF assms(1), of s] by (auto simp: file_sink_ops_def)
qed

interpretation file_sink: storing_sink "file_sink_ops fo e" "\<lambda>s. fs_written s + fs_dropped s" "\<lambda>s. file_law fo"
    "\<lambda>s. fo_bytes fo (fs_data s)" "\<lambda>s. fo_bytes fo (fs_svc s)" "\<lambda>s. (fs_dropped s, fs_errors s)" for fo e
proof (unfold_locales, goal_cases)
  case (1 s x b s')
  then show ?case by simp
next
  case (2 s x b s')
  from file_step_keeps [OF this] show ?case unfolding file_keeps_def by blast
next
  case (3 s x b s')
  from file_step_keeps [OF this] show ?case unfolding file_keeps_def by blast
next
  case (4 s x s')
  from file_step_keeps [OF this] show ?case unfolding file_keeps_def by blast
qed

section \<open>Properties\<close>

text \<open>A reader of the data file after the hello packet: each buffer tells its own size.\<close>

function split_bufs :: "byte list \<Rightarrow> byte list list option" where
  "split_bufs bs =
     (if bs = [] then Some []
      else if buf_size bs < 24 \<or> length bs < buf_size bs then None
      else map_option (Cons (take (buf_size bs) bs)) (split_bufs (drop (buf_size bs) bs)))"
  by pat_completeness auto
termination by (relation "measure length") auto

declare split_bufs.simps [simp del]

lemma buf_size_take [simp]:
  assumes "24 \<le> n" "24 \<le> length b"
  shows "buf_size (take n b @ r) = buf_size b"
proof -
  have "sub_bytes 0 24 (take n b @ r) = sub_bytes 0 24 b"
    using assms by (simp add: sub_bytes_def min_absorb1)
  from dec_buf_hdr_cong [OF this] show ?thesis by (simp add: buf_size_def)
qed

fun call_bufs :: "sink_call \<Rightarrow> byte list list" where
  "call_bufs (Data bufs) = bufs"
| "call_bufs _ = []"

lemma call_data_bufs:
  "\<forall>h. Hello h \<notin> set xs \<Longrightarrow>
   concat (map call_data xs) = concat (map (\<lambda>b. take (buf_size b) b) (concat (map call_bufs xs)))"
proof (induction xs)
  case Nil
  then show ?case by simp
next
  case (Cons x xs)
  then show ?case by (cases x) auto
qed

lemma split_bufs_concat:
  "\<forall>b\<in>set bufs. 24 \<le> buf_size b \<and> buf_size b \<le> length b \<Longrightarrow>
   split_bufs (concat (map (\<lambda>b. take (buf_size b) b) bufs)) = Some (map (\<lambda>b. take (buf_size b) b) bufs)"
proof (induction bufs)
  case Nil
  then show ?case by (simp add: split_bufs.simps)
next
  case (Cons b bufs)
  then have "24 \<le> buf_size b" "buf_size b \<le> length b" by simp_all
  moreover from this have "take (buf_size b) b \<noteq> []" by auto
  ultimately show ?case using Cons by (subst split_bufs.simps) simp
qed

text \<open>
  Whatever a file accepts, the file sink accounts for every byte offered as written or dropped,
  the files grow by subsequences of what was offered for them, in order, and when every call
  reported success they grow by all of it, with no drop and no error counted.
\<close>

theorem file_sink_accounts:
  assumes "file_law fo" and "list_all call_ok xs" and "sink_run (file_sink_ops fo e) xs s = (bs, s')"
  shows "fs_written s' + fs_dropped s' = fs_written s + fs_dropped s + of_nat (sum_list (map call_size xs)) \<and>
    (\<exists>k j. fo_bytes fo (fs_data s') = fo_bytes fo (fs_data s) @ k \<and> subseq k (concat (map call_data xs)) \<and>
      fo_bytes fo (fs_svc s') = fo_bytes fo (fs_svc s) @ j \<and> subseq j (concat (map call_svc xs))) \<and>
    ((\<forall>b\<in>set bs. b) \<longrightarrow>
      fo_bytes fo (fs_data s') = fo_bytes fo (fs_data s) @ concat (map call_data xs) \<and>
      fo_bytes fo (fs_svc s') = fo_bytes fo (fs_svc s) @ concat (map call_svc xs) \<and>
      fs_dropped s' = fs_dropped s \<and> fs_errors s' = fs_errors s)"
  using file_sink.run_accounts [OF assms] file_sink.run_part [OF assms] file_sink.run_all [OF assms] by blast

text \<open>A file on which each write takes at most the next of a list of limits.\<close>

definition demo_fo :: "(bool \<times> byte list \<times> nat list) file_ops" where
  "demo_fo = \<lparr>fo_open = (\<lambda>p (op, bs, ls). (True, True, [], ls)), fo_is_open = fst,
     fo_write_v = (\<lambda>iovs (op, bs, ls).
        (let src = concat (map iov_bytes iovs); n = (case ls of [] \<Rightarrow> length src | l # _ \<Rightarrow> min l (length src))
         in (n, op, bs @ take n src, tl ls))),
     fo_sync = id, fo_close = (\<lambda>b (op, bs, ls). (False, bs, ls)), fo_bytes = fst \<circ> snd\<rparr>"

lemma demo_fo_law: "file_law demo_fo"
  unfolding file_law_def
  by (auto simp: demo_fo_def Let_def length_iov_bytes [symmetric] split: list.splits)

definition demo_buf :: "byte list" where
  "demo_buf = enc_buf_hdr \<lparr>bh_packet_type = 1, bh_flags = 0, bh_size = 26, bh_thread_id = 7, bh_start_time = 0, bh_stop_time = 0\<rparr> @ [1, 2, 3]"

definition demo_open_env :: open_env where
  "demo_open_env = \<lparr>oe_proc = ''app'', oe_pid = ''42'', oe_stamp = ''20240101_000000'', oe_mkdir = (\<lambda>_. True)\<rparr>"

definition demo_sink :: "nat list \<Rightarrow> (bool \<times> byte list \<times> nat list) file_sink" where
  "demo_sink ls = snd (file_open demo_fo demo_open_env (the (file_sink_new (Some (Some (Some ''/tmp''))) (False, [], ls) [True])))"

lemma demo_call_ok: "call_ok (Data [demo_buf])"
  by (simp add: demo_buf_def buf_size_def)

text \<open>A short write: 20 of 26 bytes reach the file, 6 are counted as dropped.\<close>

lemma file_sink_accounts_witness:
  "let s' = snd (sink_run (file_sink_ops demo_fo demo_open_env) [Data [demo_buf]] (demo_sink [20]))
   in fs_written s' + fs_dropped s' = fs_written (demo_sink [20]) + fs_dropped (demo_sink [20]) + 26"
proof -
  obtain bs s' where r: "sink_run (file_sink_ops demo_fo demo_open_env) [Data [demo_buf]] (demo_sink [20]) = (bs, s')"
    by (meson surj_pair)
  have "sum_list (map call_size [Data [demo_buf]]) = 26"
    using demo_call_ok by (simp add: call_size_def demo_buf_def buf_size_def)
  with file_sink_accounts [OF demo_fo_law _ r] demo_call_ok r show ?thesis by simp
qed

text \<open>
  C21: The data file can be read back: from an opened sink, when every call reports success, the file is
  the hello packet followed by buffers whose own sizes split it again into exactly the batches
  written, in order; the service file is exactly the used part of every service buffer.
\<close>

theorem file_sink_roundtrip:
  assumes "file_law fo" and "file_open fo e s0 = (True, s)" and "list_all call_ok xs"
    and "sink_run (file_sink_ops fo e) (Hello h # xs) s = (bs, s')" and "\<forall>b\<in>set bs. b"
    and "\<forall>h. Hello h \<notin> set xs" and "\<forall>bufs b. Data bufs \<in> set xs \<longrightarrow> b \<in> set bufs \<longrightarrow> 24 \<le> buf_size b"
  shows "take (length h) (fo_bytes fo (fs_data s')) = h \<and>
    split_bufs (drop (length h) (fo_bytes fo (fs_data s'))) =
      Some (map (\<lambda>b. take (buf_size b) b) (concat (map call_bufs xs))) \<and>
    fo_bytes fo (fs_svc s') = concat (map call_svc xs)"
proof -
  let ?sent = "concat (map call_bufs xs)"
  have empty: "fo_bytes fo (fs_data s) = []" "fo_bytes fo (fs_svc s) = []"
    using assms(1,2) by (auto simp: file_open_def file_law_def Let_def split: if_splits prod.splits bool.splits)
  have "list_all call_ok (Hello h # xs)" using assms(3) by simp
  from file_sink.run_all [OF assms(1) this assms(4,5)] empty have bytes:
    "fo_bytes fo (fs_data s') = h @ concat (map call_data xs)" "fo_bytes fo (fs_svc s') = concat (map call_svc xs)" by simp_all
  note call_data_bufs [OF assms(6)]
  moreover have "24 \<le> buf_size b \<and> buf_size b \<le> length b" if "x \<in> set xs" "b \<in> set (call_bufs x)" for x b
  proof -
    have "call_ok x" using assms(3) that(1) by (simp add: list_all_iff)
    then show ?thesis using assms(7) that by (cases x) auto
  qed
  then have "\<forall>b\<in>set ?sent. 24 \<le> buf_size b \<and> buf_size b \<le> length b" by auto
  ultimately show ?thesis using bytes split_bufs_concat by simp
qed

definition demo_hdr_sink :: "(bool \<times> byte list \<times> nat list) file_sink" where
  "demo_hdr_sink = the (file_sink_new (Some (Some (Some ''/tmp''))) (False, [], []) [True])"

lemma demo_sink_run: "fst (sink_run (file_sink_ops demo_fo demo_open_env) [Hello [9, 9], Data [demo_buf], Flush] (demo_sink [])) = [True, True, True]"
  by code_simp

lemma demo_opened: "file_open demo_fo demo_open_env demo_hdr_sink = (True, demo_sink [])"
  by (simp add: demo_sink_def demo_hdr_sink_def file_sink_new_def file_open_def demo_open_env_def demo_fo_def Let_def)

lemma file_sink_roundtrip_witness:
  "\<exists>bs s'. sink_run (file_sink_ops demo_fo demo_open_env) [Hello [9, 9], Data [demo_buf], Flush] (demo_sink []) = (bs, s') \<and>
     split_bufs (drop (length [9, 9 :: byte]) (fo_bytes demo_fo (fs_data s'))) = Some [take 26 demo_buf]"
proof -
  obtain bs s' where r: "sink_run (file_sink_ops demo_fo demo_open_env) [Hello [9, 9], Data [demo_buf], Flush] (demo_sink []) = (bs, s')"
    by (meson surj_pair)
  then have "bs = [True, True, True]" using demo_sink_run by simp
  moreover have "buf_size demo_buf = 26" by (simp add: demo_buf_def buf_size_def)
  ultimately have "split_bufs (drop (length [9, 9 :: byte]) (fo_bytes demo_fo (fs_data s'))) = Some [take 26 demo_buf]"
    using file_sink_roundtrip [OF demo_fo_law demo_opened _ r] demo_call_ok by simp
  with r show ?thesis by blast
qed

end
