(* ===== verification/Worker.thy ===== *)
theory Worker
  imports WriterRegistry Registry Sinks
begin

text \<open>
  The worker thread of \<^verbatim>\<open>cp8_core\<close> (\<^verbatim>\<open>worker_main\<close> and \<^verbatim>\<open>flush_ready\<close>
  in \<^verbatim>\<open>engine/p8_core.cpp\<close>): one pass of its loop takes the service buffers, the ready
  queue and what the live writers hold, writes both batches to the sink and gives the buffers back.
  What producer threads do between its critical sections is a parameter of the pass. The sink is
  called through the record of its operations. The capture mode of the test build is left out.
\<close>

section \<open>One pass\<close>

record ('a, 's) sys =
  sy_core :: "'a reg_core_scheme"
  sy_writers :: writers
  sy_sink :: 's
  sy_last :: u64

text \<open>
  What other threads do once the service lock, the ready lock and the registry lock are released.
\<close>

record 'a hooks =
  hk_svc :: "'a reg_core_scheme \<times> writers \<Rightarrow> 'a reg_core_scheme \<times> writers"
  hk_ready :: "'a reg_core_scheme \<times> writers \<Rightarrow> 'a reg_core_scheme \<times> writers"
  hk_drain :: "'a reg_core_scheme \<times> writers \<Rightarrow> 'a reg_core_scheme \<times> writers"

definition quiet :: "'a hooks" where
  "quiet = \<lparr>hk_svc = id, hk_ready = id, hk_drain = id\<rparr>"

definition interfere :: "('a reg_core_scheme \<times> writers \<Rightarrow> 'a reg_core_scheme \<times> writers) \<Rightarrow> ('a, 's) sys \<Rightarrow> ('a, 's) sys" where
  "interfere h sy = (case h (sy_core sy, sy_writers sy) of (c, w) \<Rightarrow> sy\<lparr>sy_core := c, sy_writers := w\<rparr>)"

definition mu_event_wake :: nat where "mu_event_wake = 0"
definition mu_event_stop :: nat where "mu_event_stop = 1"
definition P8_CORE_STATS_POLL_INTERVAL_MS :: u64 where "P8_CORE_STATS_POLL_INTERVAL_MS = 250"

text \<open>The poll interval in ticks, in 64-bit arithmetic.\<close>

definition stats_poll_ticks :: "u64 \<Rightarrow> u64 \<Rightarrow> u64" where
  "stats_poll_ticks numer denom =
     (if numer \<noteq> 0 then P8_CORE_STATS_POLL_INTERVAL_MS * 1000000 * denom div numer else 0)"

definition take_service :: "('a, 's) sys \<Rightarrow> (addr \<times> nat) list \<times> ('a, 's) sys" where
  "take_service sy = (c_svc (sy_core sy), sy\<lparr>sy_core := (sy_core sy)\<lparr>c_svc := []\<rparr>\<rparr>)"

definition svc_view :: "'a core_scheme \<Rightarrow> (addr \<times> nat) list \<Rightarrow> (byte list \<times> nat) list" where
  "svc_view c bufs = map (\<lambda>(b, n). (c_mem c b, n)) bufs"

text \<open>Write the service batch and recycle its buffers one by one.\<close>

definition send_service :: "'s sink_ops \<Rightarrow> (addr \<times> nat) list \<Rightarrow> ('a, 's) sys \<Rightarrow> ('a, 's) sys" where
  "send_service sk bufs sy =
     (let s1 = (if bufs \<noteq> [] then snd (sk_service sk (svc_view (sy_core sy) bufs) (sy_sink sy)) else sy_sink sy)
      in sy\<lparr>sy_sink := s1, sy_core := fold (\<lambda>(b, n). release_buffer (Some b)) bufs (sy_core sy)\<rparr>)"

definition take_ready :: "('a, 's) sys \<Rightarrow> addr list \<times> ('a, 's) sys" where
  "take_ready sy = (c_ready (sy_core sy), sy\<lparr>sy_core := (sy_core sy)\<lparr>c_ready := []\<rparr>\<rparr>)"

definition drain_step :: "addr list \<Rightarrow> ('a, 's) sys \<Rightarrow> (addr list \<times> ('a, 's) sys) option" where
  "drain_step io sy =
     map_option (\<lambda>(io1, w). (io1, sy\<lparr>sy_writers := w\<rparr>)) (drain_writers (c_initialized (sy_core sy)) io (sy_writers sy))"

text \<open>The drop counters are collected when the clock says so.\<close>

definition poll_step :: "u64 \<Rightarrow> u64 \<Rightarrow> ('a, 's) sys \<Rightarrow> ('a, 's) sys option" where
  "poll_step interval now sy =
     (if interval \<noteq> 0 \<and> interval \<le> now - sy_last sy
      then map_option (\<lambda>(w, c). sy\<lparr>sy_writers := w, sy_core := c, sy_last := now\<rparr>)
             (poll_dropped_stats (sy_writers sy) (sy_core sy))
      else Some sy)"

definition flush_ready :: "'s sink_ops \<Rightarrow> addr list \<Rightarrow> ('a, 's) sys \<Rightarrow> ('a, 's) sys" where
  "flush_ready sk bufs sy =
     (if bufs = [] then sy
      else sy\<lparr>sy_sink := snd (sk_data sk (map (c_mem (sy_core sy)) bufs) (sy_sink sy)),
              sy_core := release_buffers bufs (sy_core sy)\<rparr>)"

definition clear_wake :: "('a, 's) sys \<Rightarrow> ('a, 's) sys" where
  "clear_wake sy = sy\<lparr>sy_core := (sy_core sy)\<lparr>c_wake_pending := False\<rparr>\<rparr>"

definition sink_flush :: "'s sink_ops \<Rightarrow> ('a, 's) sys \<Rightarrow> ('a, 's) sys" where
  "sink_flush sk sy = sy\<lparr>sy_sink := sk_flush sk (sy_sink sy)\<rparr>"

text \<open>One pass; \<open>None\<close> if a walk over the writers does not come to an end.\<close>

definition worker_pass :: "'s sink_ops \<Rightarrow> u64 \<Rightarrow> u64 \<Rightarrow> 'a hooks \<Rightarrow> ('a, 's) sys \<Rightarrow> ('a, 's) sys option" where
  "worker_pass sk interval now hk sy =
     (let (bufs, sy1) = take_service sy;
          sy2 = send_service sk bufs (interfere (hk_svc hk) sy1);
          (ready, sy3) = take_ready sy2
      in case drain_step ready (interfere (hk_ready hk) sy3) of
           None \<Rightarrow> None
         | Some (batch, sy4) \<Rightarrow>
             (case poll_step interval now (interfere (hk_drain hk) sy4) of
                None \<Rightarrow> None
              | Some sy5 \<Rightarrow> Some (sink_flush sk (flush_ready sk batch (clear_wake sy5)))))"

text \<open>
  The loop, driven by the wake-ups it gets: the signal, the clock and what the others do. It
  returns after the pass of a stop signal; otherwise it is still waiting (\<open>None\<close>).
\<close>

record 'a wakeup =
  wu_signal :: nat
  wu_now :: u64
  wu_hooks :: "'a hooks"

fun worker_main :: "'s sink_ops \<Rightarrow> u64 \<Rightarrow> 'a wakeup list \<Rightarrow> ('a, 's) sys \<Rightarrow> ('a, 's) sys option" where
  "worker_main sk interval [] sy = None"
| "worker_main sk interval (u # us) sy =
     (case worker_pass sk interval (wu_now u) (wu_hooks u) sy of
        None \<Rightarrow> None
      | Some sy1 \<Rightarrow> (if wu_signal u = mu_event_stop then Some sy1 else worker_main sk interval us sy1))"

section \<open>What a pass does\<close>

text \<open>The calls the sink gets in a pass: service data first, then data, then a flush.\<close>

definition pass_calls :: "(byte list \<times> nat) list \<Rightarrow> byte list list \<Rightarrow> sink_call list" where
  "pass_calls svc data = (if svc = [] then [] else [Service svc]) @ (if data = [] then [] else [Data data]) @ [Flush]"

definition release_all :: "(addr \<times> nat) list \<Rightarrow> 'a core_scheme \<Rightarrow> 'a core_scheme" where
  "release_all bufs c = fold (\<lambda>(b, n). release_buffer (Some b)) bufs c"

lemma release_buffer_frame [frame_simps]:
  "c_mem (release_buffer ip c) = c_mem c" "c_initialized (release_buffer ip c) = c_initialized c"
  "c_ready (release_buffer ip c) = c_ready c" "c_ub (release_buffer ip c) = c_ub c"
  "core.more (release_buffer ip c) = core.more c"
  by (simp_all add: release_buffer_def)

lemma release_all_frame [frame_simps]:
  "c_mem (release_all bufs c) = c_mem c" "c_initialized (release_all bufs c) = c_initialized c"
  "c_ready (release_all bufs c) = c_ready c" "c_ub (release_all bufs c) = c_ub c"
  "core.more (release_all bufs c) = core.more c"
  by (induction bufs arbitrary: c) (auto simp: release_all_def frame_simps)

lemma release_buffers_frame [frame_simps]:
  "c_mem (release_buffers bs c) = c_mem c" "c_initialized (release_buffers bs c) = c_initialized c"
  "c_ready (release_buffers bs c) = c_ready c" "c_ub (release_buffers bs c) = c_ub c"
  "core.more (release_buffers bs c) = core.more c"
  by (simp_all add: release_buffers_def)

lemma c_svc_more: "core.more c' = core.more c \<Longrightarrow> c_svc c' = c_svc c"
  by (cases c; cases c') simp

text \<open>Interference that leaves the registry well formed and the core up.\<close>

definition hook_ok :: "('a reg_core_scheme \<times> writers \<Rightarrow> 'a reg_core_scheme \<times> writers) \<Rightarrow> bool" where
  "hook_ok h \<longleftrightarrow> (\<forall>c w xs c' w'. ws_abs w xs \<longrightarrow> h (c, w) = (c', w') \<longrightarrow>
     (\<exists>ys. ws_abs w' ys) \<and> c_initialized c' = c_initialized c)"

lemma hook_ok_id [simp]: "hook_ok id"
  by (auto simp: hook_ok_def)

lemma hook_okE:
  assumes "hook_ok h" "ws_abs w xs"
  obtains c' w' ys where "h (c, w) = (c', w')" "ws_abs w' ys" "c_initialized c' = c_initialized c"
  using assms unfolding hook_ok_def by (metis prod.exhaust)

definition held_all :: "writers \<Rightarrow> nat list \<Rightarrow> addr list" where
  "held_all w xs = concat (map (\<lambda>i. held_bufs (ws_obj w i)) xs)"

lemma accumulate_frame [frame_simps]:
  "c_mem (accumulate_dropped d c) = c_mem c" "c_initialized (accumulate_dropped d c) = c_initialized c"
  "c_ready (accumulate_dropped d c) = c_ready c" "c_pool (accumulate_dropped d c) = c_pool c"
  "core.more (accumulate_dropped d c) = core.more c" "c_ub (accumulate_dropped d c) = c_ub c"
  by (simp_all add: accumulate_dropped_def)

text \<open>Polling changes drop counters only.\<close>

lemma poll_step_frame:
  assumes "ws_abs (sy_writers sy) xs"
  shows "\<exists>sy'. poll_step interval now sy = Some sy' \<and> sy_sink sy' = sy_sink sy \<and>
    (\<exists>d. sy_core sy' = sy_core sy \<or> sy_core sy' = accumulate_dropped d (sy_core sy)) \<and>
    ws_abs (sy_writers sy') xs \<and> (\<forall>i. held_bufs (ws_obj (sy_writers sy') i) = held_bufs (ws_obj (sy_writers sy) i))"
proof (cases "interval \<noteq> 0 \<and> interval \<le> now - sy_last sy")
  case False
  then show ?thesis using assms by (auto simp: poll_step_def)
next
  case True
  have "dlseg (ws_next (sy_writers sy)) (ws_prev (sy_writers sy)) None (ws_head (sy_writers sy)) xs" "distinct xs"
    using assms by (simp_all add: ws_abs_def)
  from poll_walk_all [OF this, of zero_stats "ws_obj (sy_writers sy)"] obtain d where
    "poll_walk (ws_next (sy_writers sy)) (ws_head (sy_writers sy)) zero_stats (ws_obj (sy_writers sy)) =
      Some (d, \<lambda>i. if i \<in> set xs then snd (pull_dropped (ws_obj (sy_writers sy) i)) else ws_obj (sy_writers sy) i)" by blast
  with True assms show ?thesis
    by (auto simp: poll_step_def poll_dropped_stats_def ws_abs_def pull_dropped_def held_bufs_def)
qed

lemma sink_run_append: "snd (sink_run sk (xs @ ys) s) = snd (sink_run sk ys (snd (sink_run sk xs s)))"
proof (induction xs arbitrary: s)
  case Nil
  then show ?case by simp
next
  case (Cons x xs)
  have "snd (sink_run sk (x # zs) s) = snd (sink_run sk zs (snd (sink_step sk x s)))" for zs
    by (simp split: prod.split)
  with Cons show ?case by (simp only: append_Cons)
qed

lemma flush_calls:
  "sy_sink (sink_flush sk (flush_ready sk data (clear_wake sy))) =
   snd (sink_run sk (pass_calls [] (map (c_mem (sy_core sy)) data)) (sy_sink sy))"
  by (auto simp: flush_ready_def sink_flush_def clear_wake_def pass_calls_def split: prod.splits)

lemma pass_calls_split:
  "snd (sink_run sk (pass_calls svc data) s) =
   snd (sink_run sk (pass_calls [] data) (if svc = [] then s else snd (sk_service sk svc s)))"
  by (auto simp: pass_calls_def sink_run_append split: prod.splits)

text \<open>
  The pass with interference: the data batch is what the ready queue holds after the others ran
  behind the service lock, followed by what the writers hold after they ran behind the ready lock.
\<close>

lemma worker_pass_calls:
  fixes sy :: "('a, 's) sys"
  assumes h1: "hk_svc hk ((sy_core sy)\<lparr>c_svc := []\<rparr>, sy_writers sy) = (c1, w1)"
    and h2: "hk_ready hk ((release_all (c_svc (sy_core sy)) c1)\<lparr>c_ready := []\<rparr>, w1) = (c2, w2)"
    and reg: "ws_abs w2 xs" "c_initialized c2"
    and h3: "hook_ok (hk_drain hk)"
  shows "\<exists>sy' w c3 w3 ys. worker_pass sk interval now hk sy = Some sy' \<and>
    drain_writers True (c_ready c1) w2 = Some (c_ready c1 @ held_all w2 xs, w) \<and> hk_drain hk (c2, w) = (c3, w3) \<and>
    sy_sink sy' = snd (sink_run sk (pass_calls (svc_view c1 (c_svc (sy_core sy)))
      (map (c_mem c3) (c_ready c1 @ held_all w2 xs))) (sy_sink sy)) \<and>
    c_pool (sy_core sy') = fst (recycle_batch (map Some (c_ready c1 @ held_all w2 xs)) (c_pool c3)) \<and>
    c_mem (sy_core sy') = c_mem c3 \<and> c_initialized (sy_core sy') \<and> \<not> c_wake_pending (sy_core sy') \<and>
    c_ready (sy_core sy') = c_ready c3 \<and> core.more (sy_core sy') = core.more c3 \<and>
    ws_abs w3 ys \<and> (\<forall>zs. ws_abs w3 zs \<longrightarrow> ws_abs (sy_writers sy') zs) \<and>
    (\<forall>i. held_bufs (ws_obj (sy_writers sy') i) = held_bufs (ws_obj w3 i))"
proof -
  let ?data = "c_ready c1 @ held_all w2 xs"
  let ?svc = "svc_view c1 (c_svc (sy_core sy))"
  obtain w where dr: "drain_writers True (c_ready c1) w2 = Some (?data, w)" "ws_abs w xs"
    using drain_writers_collects_all [OF reg(1), of "c_ready c1"] by (auto simp: held_all_def)
  from hook_okE [OF h3 dr(2), of c2] reg(2) obtain c3 w3 ys where
    h: "hk_drain hk (c2, w) = (c3, w3)" "ws_abs w3 ys" "c_initialized c3" by metis
  define s1 where "s1 = (if c_svc (sy_core sy) \<noteq> [] then snd (sk_service sk ?svc (sy_sink sy)) else sy_sink sy)"
  define sy4 :: "('a, 's) sys" where "sy4 = sy\<lparr>sy_sink := s1, sy_core := c3, sy_writers := w3\<rparr>"
  have "ws_abs (sy_writers sy4) ys" using h(2) by (simp add: sy4_def)
  from poll_step_frame [OF this, of interval now] obtain sy5 d where p: "poll_step interval now sy4 = Some sy5" "sy_sink sy5 = s1"
    "sy_core sy5 = c3 \<or> sy_core sy5 = accumulate_dropped d c3" "ws_abs (sy_writers sy5) ys"
    "\<forall>i. held_bufs (ws_obj (sy_writers sy5) i) = held_bufs (ws_obj w3 i)" unfolding sy4_def by auto
  have fr: "c_mem (sy_core sy5) = c_mem c3" "c_ready (sy_core sy5) = c_ready c3" "core.more (sy_core sy5) = core.more c3"
    "c_initialized (sy_core sy5)" "c_pool (sy_core sy5) = c_pool c3"
    using p(3) h(3) by (auto simp: frame_simps)
  let ?sy' = "sink_flush sk (flush_ready sk ?data (clear_wake sy5))"
  have send: "send_service sk (c_svc (sy_core sy)) (interfere (hk_svc hk) (sy\<lparr>sy_core := (sy_core sy)\<lparr>c_svc := []\<rparr>\<rparr>)) =
      sy\<lparr>sy_sink := s1, sy_core := release_all (c_svc (sy_core sy)) c1, sy_writers := w1\<rparr>"
    using h1 unfolding s1_def by (cases "c_svc (sy_core sy)") (simp_all add: interfere_def send_service_def release_all_def)
  have pass: "worker_pass sk interval now hk sy = Some ?sy'"
    using h2 reg(2) dr(1) h(1) p(1) send
    by (simp add: worker_pass_def take_service_def interfere_def [of "hk_ready hk"] interfere_def [of "hk_drain hk"]
        take_ready_def drain_step_def frame_simps sy4_def)
  have sink: "sy_sink ?sy' = snd (sink_run sk (pass_calls ?svc (map (c_mem c3) ?data)) (sy_sink sy))"
    unfolding flush_calls fr(1) pass_calls_split [of sk ?svc] p(2) s1_def by (simp add: svc_view_def)
  have core: "c_pool (sy_core ?sy') = fst (recycle_batch (map Some ?data) (c_pool c3))"
    "c_mem (sy_core ?sy') = c_mem c3" "c_initialized (sy_core ?sy')" "\<not> c_wake_pending (sy_core ?sy')"
    "c_ready (sy_core ?sy') = c_ready c3" "core.more (sy_core ?sy') = core.more c3" "sy_writers ?sy' = sy_writers sy5"
    using fr by (cases "?data = []"; simp add: flush_ready_def sink_flush_def clear_wake_def release_buffers_def)+
  have "ws_abs (sy_writers sy5) zs" if "ws_abs w3 zs" for zs
    using poll_step_frame [of sy4 zs interval now] that p(1) by (auto simp: sy4_def)
  then have "\<forall>zs. ws_abs w3 zs \<longrightarrow> ws_abs (sy_writers ?sy') zs"
    "\<forall>i. held_bufs (ws_obj (sy_writers ?sy') i) = held_bufs (ws_obj w3 i)"
    using p(5) unfolding core(7) by blast+
  with pass dr(1) h(1,2) sink core(1-6) show ?thesis by blast
qed

lemma recycle_batch_append:
  "fst (recycle_batch (xs @ ys) p) = fst (recycle_batch ys (fst (recycle_batch xs p)))"
proof (induction xs arbitrary: p)
  case Nil
  then show ?case by simp
next
  case (Cons x xs)
  have "fst (recycle_batch (x # zs) p) = fst (recycle_batch zs (fst (recycle x p)))" for zs
    by (simp split: prod.split)
  with Cons show ?case by (simp only: append_Cons)
qed

lemma release_all_pool:
  "c_initialized c \<Longrightarrow> c_pool (release_all bufs c) = fst (recycle_batch (map (Some \<circ> fst) bufs) (c_pool c))"
proof (induction bufs arbitrary: c)
  case Nil
  then show ?case by (simp add: release_all_def)
next
  case (Cons e bufs)
  obtain b n where e: "e = (b, n)" by (meson surj_pair)
  have "release_all (e # bufs) c = release_all bufs (release_buffer (Some b) c)" by (simp add: release_all_def e)
  moreover have "c_pool (release_buffer (Some b) c) = fst (recycle (Some b) (c_pool c))"
    using Cons.prems by (simp add: release_buffer_def)
  ultimately show ?case using Cons.IH [of "release_buffer (Some b) c"] Cons.prems
    by (simp add: frame_simps e split: prod.split)
qed

text \<open>A pass without interference, with the threads \<open>ts\<close> waiting for a buffer.\<close>

lemma worker_pass_quiet:
  assumes "ws_abs (sy_writers sy) xs" and "c_initialized (sy_core sy)" and "wq_abs (pl_waitq (c_pool (sy_core sy))) ts"
    and "data = c_ready (sy_core sy) @ held_all (sy_writers sy) xs" and "bufs = map fst (c_svc (sy_core sy)) @ data"
  shows "\<exists>sy'. worker_pass sk interval now quiet sy = Some sy' \<and>
    sy_sink sy' = snd (sink_run sk (pass_calls (svc_view (sy_core sy) (c_svc (sy_core sy))) (map (c_mem (sy_core sy)) data)) (sy_sink sy)) \<and>
    c_svc (sy_core sy') = [] \<and> c_ready (sy_core sy') = [] \<and> \<not> c_wake_pending (sy_core sy') \<and> c_initialized (sy_core sy') \<and>
    c_mem (sy_core sy') = c_mem (sy_core sy) \<and> ws_abs (sy_writers sy') xs \<and> held_all (sy_writers sy') xs = [] \<and>
    (\<forall>k < min (length ts) (length bufs). wait_result (ts ! k) (c_pool (sy_core sy')) = Some (bufs ! k)) \<and>
    wq_abs (pl_waitq (c_pool (sy_core sy'))) (drop (length bufs) ts) \<and>
    pl_free (c_pool (sy_core sy')) = pl_free (c_pool (sy_core sy)) @ drop (length ts) bufs \<and>
    pl_all (c_pool (sy_core sy')) = pl_all (c_pool (sy_core sy)) \<and> pl_budget (c_pool (sy_core sy')) = pl_budget (c_pool (sy_core sy)) \<and>
    pl_bufsz (c_pool (sy_core sy')) = pl_bufsz (c_pool (sy_core sy))"
proof -
  let ?c1 = "(sy_core sy)\<lparr>c_svc := []\<rparr>"
  let ?c2 = "(release_all (c_svc (sy_core sy)) ?c1)\<lparr>c_ready := []\<rparr>"
  have c1: "c_svc ?c1 = []" "c_ready ?c1 = c_ready (sy_core sy)" "c_mem ?c1 = c_mem (sy_core sy)"
    "c_initialized ?c1" "c_pool ?c1 = c_pool (sy_core sy)" using assms(2) by simp_all
  have c2: "c_initialized ?c2" "c_mem ?c2 = c_mem (sy_core sy)" "c_ready ?c2 = []" "c_svc ?c2 = []"
    "c_pool ?c2 = fst (recycle_batch (map (Some \<circ> fst) (c_svc (sy_core sy))) (c_pool (sy_core sy)))"
    using assms(2) release_all_pool [OF c1(4), of "c_svc (sy_core sy)"] c_svc_more [of ?c2 ?c1] by (simp_all add: frame_simps)
  have "hk_svc quiet ((sy_core sy)\<lparr>c_svc := []\<rparr>, sy_writers sy) = (?c1, sy_writers sy)"
    "hk_ready quiet (?c2, sy_writers sy) = (?c2, sy_writers sy)" "hook_ok (hk_drain (quiet :: 'a hooks))"
    by (simp_all add: quiet_def)
  from worker_pass_calls [OF this(1,2) assms(1) c2(1) this(3), of sk interval now] obtain sy' w c3 w3 ys where
    p: "worker_pass sk interval now quiet sy = Some sy'" "hk_drain quiet (?c2, w) = (c3, w3)"
    "drain_writers True (c_ready ?c1) (sy_writers sy) = Some (c_ready ?c1 @ held_all (sy_writers sy) xs, w)"
    and q: "sy_sink sy' = snd (sink_run sk (pass_calls (svc_view ?c1 (c_svc (sy_core sy)))
      (map (c_mem c3) (c_ready ?c1 @ held_all (sy_writers sy) xs))) (sy_sink sy))"
    "c_pool (sy_core sy') = fst (recycle_batch (map Some (c_ready ?c1 @ held_all (sy_writers sy) xs)) (c_pool c3))"
    "c_mem (sy_core sy') = c_mem c3" "c_initialized (sy_core sy')" "\<not> c_wake_pending (sy_core sy')"
    "c_ready (sy_core sy') = c_ready c3" "core.more (sy_core sy') = core.more c3"
    "\<forall>zs. ws_abs w3 zs \<longrightarrow> ws_abs (sy_writers sy') zs"
    "\<forall>i. held_bufs (ws_obj (sy_writers sy') i) = held_bufs (ws_obj w3 i)" by blast
  have c3: "c3 = ?c2" "w3 = w" using p(2) by (simp_all add: quiet_def)
  have w: "ws_abs w xs" "\<forall>i\<in>set xs. held_bufs (ws_obj w i) = []"
    using drain_writers_collects_all [OF assms(1), of "c_ready ?c1"] p(3) by auto
  have held: "held_all (sy_writers sy') xs = []" using q(9) w(2) c3(2) by (simp add: held_all_def)
  have reg: "ws_abs (sy_writers sy') xs" using q(8) w(1) c3(2) by simp
  have pool: "c_pool (sy_core sy') = fst (recycle_batch (map Some bufs) (c_pool (sy_core sy)))"
    unfolding q(2) c3(1) c2(5) c1(2) assms(4,5) by (simp add: recycle_batch_append [symmetric])
  obtain cvs where "recycle_batch (map Some bufs) (c_pool (sy_core sy)) = (c_pool (sy_core sy'), cvs)"
    using pool by (metis prod.collapse)
  from recycle_batch_serves [OF assms(3) this] have serve:
    "\<forall>k < min (length ts) (length bufs). wait_result (ts ! k) (c_pool (sy_core sy')) = Some (bufs ! k)"
    "wq_abs (pl_waitq (c_pool (sy_core sy'))) (drop (length bufs) ts)"
    "pl_free (c_pool (sy_core sy')) = pl_free (c_pool (sy_core sy)) @ drop (length ts) bufs"
    "pl_all (c_pool (sy_core sy')) = pl_all (c_pool (sy_core sy))" "pl_budget (c_pool (sy_core sy')) = pl_budget (c_pool (sy_core sy))"
    by blast+
  have bufsz: "pl_bufsz (c_pool (sy_core sy')) = pl_bufsz (c_pool (sy_core sy))" unfolding pool by (rule recycle_batch_bufsz)
  have sink: "sy_sink sy' = snd (sink_run sk (pass_calls (svc_view (sy_core sy) (c_svc (sy_core sy))) (map (c_mem (sy_core sy)) data)) (sy_sink sy))"
    unfolding q(1) c3(1) c2(2) c1(2) assms(4) by (simp add: svc_view_def)
  have "c_svc (sy_core sy') = []" using c_svc_more [OF q(7)] c3(1) c2(4) by simp
  moreover have "c_ready (sy_core sy') = []" "c_mem (sy_core sy') = c_mem (sy_core sy)" using q(3,6) c3(1) c2(2,3) by simp_all
  ultimately show ?thesis using p(1) sink q(4,5) held reg serve bufsz by blast
qed

section \<open>Properties\<close>

text \<open>
  C11: A pass of the worker that nobody interferes with returns and delivers everything in flight: the
  sink gets the pending service buffers as one batch, then the ready queue followed by all that the
  live writers hold as one batch, then a flush. Nothing is left behind, and exactly the buffers
  written go back, the first ones to the threads blocked for a buffer, oldest first, the others to
  the free list.
\<close>

theorem worker_pass_delivers:
  assumes "ws_abs (sy_writers sy) xs" and "c_initialized (sy_core sy)" and "wq_abs (pl_waitq (c_pool (sy_core sy))) ts"
    and "data = c_ready (sy_core sy) @ held_all (sy_writers sy) xs" and "bufs = map fst (c_svc (sy_core sy)) @ data"
  shows "\<exists>sy'. worker_pass sk interval now quiet sy = Some sy' \<and>
    sy_sink sy' = snd (sink_run sk (pass_calls (svc_view (sy_core sy) (c_svc (sy_core sy))) (map (c_mem (sy_core sy)) data)) (sy_sink sy)) \<and>
    c_svc (sy_core sy') = [] \<and> c_ready (sy_core sy') = [] \<and> held_all (sy_writers sy') xs = [] \<and> \<not> c_wake_pending (sy_core sy') \<and>
    (\<forall>k < min (length ts) (length bufs). wait_result (ts ! k) (c_pool (sy_core sy')) = Some (bufs ! k)) \<and>
    pl_free (c_pool (sy_core sy')) = pl_free (c_pool (sy_core sy)) @ drop (length ts) bufs"
  using worker_pass_quiet [OF assms, of sk interval now] by blast

text \<open>A system with a full ready queue, a service buffer, three writers and nobody waiting.\<close>

definition demo_sys :: "(unit, u64) sys" where
  "demo_sys = \<lparr>sy_core = demo_reg\<lparr>c_ready := [3], c_svc := [(4, 16)], c_mem := (\<lambda>_. replicate 64 0)\<rparr>,
     sy_writers = three_writers\<lparr>ws_obj := (\<lambda>i. (writer_new 64 0)\<lparr>w_frags := [10 * i], w_buffer := Some (i + 70)\<rparr>)\<rparr>,
     sy_sink = 0, sy_last = 0\<rparr>"

lemma demo_sys_ok:
  "ws_abs (sy_writers demo_sys) [3, 2, 1]" "c_initialized (sy_core demo_sys)"
  "wq_abs (pl_waitq (c_pool (sy_core demo_sys))) []"
  "held_all (sy_writers demo_sys) [3, 2, 1] = [30, 73, 20, 72, 10, 71]"
  using three_writers_abs
  by (simp_all add: demo_sys_def ws_abs_def demo_reg_def held_all_def held_bufs_def writer_new_def wq_abs_def wq_empty_def pool_new_def)

lemma worker_pass_delivers_witness:
  "\<exists>sy'. worker_pass null_sink_ops 100 0 quiet demo_sys = Some sy' \<and>
     pl_free (c_pool (sy_core sy')) = pl_free (c_pool (sy_core demo_sys)) @ [4, 3, 30, 73, 20, 72, 10, 71]"
proof -
  have "map fst (c_svc (sy_core demo_sys)) @ c_ready (sy_core demo_sys) @ held_all (sy_writers demo_sys) [3, 2, 1] =
      [4, 3, 30, 73, 20, 72, 10, 71]" unfolding demo_sys_ok(4) by (simp add: demo_sys_def)
  with worker_pass_delivers [OF demo_sys_ok(1-3) refl refl, of null_sink_ops 100 0] show ?thesis by auto
qed

text \<open>
  C20: The order promised to sinks, descriptors before the data that refers to them, does not hold
  across a pass: whatever producers do between the moment the worker lets go of the service lock
  and the moment it takes the ready lock, a descriptor they register then is written only by the
  next pass, while a buffer they submit with it is written by this one.
\<close>

theorem data_precedes_descriptor:
  assumes "c_svc (sy_core sy) = []" and "f (sy_core sy, sy_writers sy) = (c1, w)"
    and "ws_abs w xs" and "held_all w xs = []" and "c_initialized c1" and "wq_abs (pl_waitq (c_pool c1)) []"
    and "c_svc c1 = [(a, n)]" and "c_ready c1 = [b]"
  shows "\<exists>sy1 sy2. worker_pass sk interval now (quiet\<lparr>hk_svc := f\<rparr>) sy = Some sy1 \<and>
    worker_pass sk interval later quiet sy1 = Some sy2 \<and>
    sy_sink sy1 = snd (sink_run sk [Data [c_mem c1 b], Flush] (sy_sink sy)) \<and>
    sy_sink sy2 = snd (sink_run sk [Data [c_mem c1 b], Flush, Service [(c_mem c1 a, n)], Flush] (sy_sink sy))"
proof -
  have core: "(sy_core sy)\<lparr>c_svc := []\<rparr> = sy_core sy" using assms(1) by simp
  let ?hk = "quiet\<lparr>hk_svc := f\<rparr> :: 'a hooks"
  have hk: "hk_svc ?hk ((sy_core sy)\<lparr>c_svc := []\<rparr>, sy_writers sy) = (c1, w)"
    "hk_ready ?hk ((release_all (c_svc (sy_core sy)) c1)\<lparr>c_ready := []\<rparr>, w) = (c1\<lparr>c_ready := []\<rparr>, w)"
    "hook_ok (hk_drain ?hk)"
    using assms(1,2) by (simp_all only: core) (simp_all add: quiet_def release_all_def)
  have "c_initialized (c1\<lparr>c_ready := []\<rparr>)" using assms(5) by simp
  from worker_pass_calls [OF hk(1,2) assms(3) this hk(3), of sk interval now] obtain sy1 v c3 w3 ys where
    p: "worker_pass sk interval now ?hk sy = Some sy1" "hk_drain ?hk (c1\<lparr>c_ready := []\<rparr>, v) = (c3, w3)"
    "drain_writers True (c_ready c1) w = Some (c_ready c1 @ held_all w xs, v)"
    and q: "sy_sink sy1 = snd (sink_run sk (pass_calls (svc_view c1 (c_svc (sy_core sy)))
      (map (c_mem c3) (c_ready c1 @ held_all w xs))) (sy_sink sy))"
    "c_pool (sy_core sy1) = fst (recycle_batch (map Some (c_ready c1 @ held_all w xs)) (c_pool c3))"
    "c_mem (sy_core sy1) = c_mem c3" "c_initialized (sy_core sy1)"
    "c_ready (sy_core sy1) = c_ready c3" "core.more (sy_core sy1) = core.more c3"
    "\<forall>zs. ws_abs w3 zs \<longrightarrow> ws_abs (sy_writers sy1) zs"
    "\<forall>i. held_bufs (ws_obj (sy_writers sy1) i) = held_bufs (ws_obj w3 i)" by blast
  have c3: "c3 = c1\<lparr>c_ready := []\<rparr>" "w3 = v" using p(2) by (simp_all add: quiet_def)
  have v: "ws_abs v xs" "\<forall>i\<in>set xs. held_bufs (ws_obj v i) = []"
    using drain_writers_collects_all [OF assms(3), of "c_ready c1"] p(3) by auto
  have reg: "ws_abs (sy_writers sy1) xs" "held_all (sy_writers sy1) xs = []"
    using q(7,8) v c3(2) by (simp_all add: held_all_def)
  have core1: "c_svc (sy_core sy1) = [(a, n)]" "c_ready (sy_core sy1) = []" "c_mem (sy_core sy1) = c_mem c1"
    using c_svc_more [OF q(6)] q(3,5) c3(1) assms(7) by simp_all
  obtain cvs where "recycle_batch (map Some [b]) (c_pool c1) = (c_pool (sy_core sy1), cvs)"
    using q(2) assms(4,8) c3(1) by (simp add: prod_eq_iff)
  from recycle_batch_serves [OF assms(6) this] have wq: "wq_abs (pl_waitq (c_pool (sy_core sy1))) []" by simp
  have sink1: "sy_sink sy1 = snd (sink_run sk [Data [c_mem c1 b], Flush] (sy_sink sy))"
    using q(1) assms(1,4,8) c3(1) by (simp add: pass_calls_def svc_view_def)
  from worker_pass_quiet [OF reg(1) q(4) wq refl refl, of sk interval later] obtain sy2 where
    p2: "worker_pass sk interval later quiet sy1 = Some sy2"
    "sy_sink sy2 = snd (sink_run sk (pass_calls (svc_view (sy_core sy1) (c_svc (sy_core sy1)))
       (map (c_mem (sy_core sy1)) (c_ready (sy_core sy1) @ held_all (sy_writers sy1) xs))) (sy_sink sy1))" by blast
  have "pass_calls (svc_view (sy_core sy1) (c_svc (sy_core sy1)))
       (map (c_mem (sy_core sy1)) (c_ready (sy_core sy1) @ held_all (sy_writers sy1) xs)) = [Service [(c_mem c1 a, n)], Flush]"
    using core1 reg(2) by (simp add: pass_calls_def svc_view_def)
  with p2(2) sink1 have "sy_sink sy2 = snd (sink_run sk ([Data [c_mem c1 b], Flush] @ [Service [(c_mem c1 a, n)], Flush]) (sy_sink sy))"
    unfolding sink_run_append by simp
  with p(1) p2(1) sink1 show ?thesis by (intro exI [of _ sy1] exI [of _ sy2]) simp
qed

definition race_hook :: "unit reg_core_scheme \<times> writers \<Rightarrow> unit reg_core_scheme \<times> writers" where
  "race_hook = (\<lambda>(c, w). (submit_buffer (Some 5) (snd (attr_register (Some [97]) e_p8_attr_u64 c)), w))"

definition race_sys :: "(unit, u64) sys" where
  "race_sys = \<lparr>sy_core = demo_reg, sy_writers = no_writers (\<lambda>_. writer_new 64 0), sy_sink = 0, sy_last = 0\<rparr>"

lemma mem_write_frame [frame_simps]:
  "core.more (mem_write a off bs c) = core.more c" "c_pool (mem_write a off bs c) = c_pool c"
  "c_initialized (mem_write a off bs c) = c_initialized c" "c_ready (mem_write a off bs c) = c_ready c"
  by (simp_all add: mem_write_def)

lemma svc_write_fresh:
  assumes "c_svc c = []" "acquire_buffer False c = (Acquired b, c1)" "align_up_8 (hsz + length body) \<le> mz_data_buffer_size"
  shows "c_svc (svc_write hsz head body c) = [(b, align_up_8 (hsz + length body))]"
    "c_pool (svc_write hsz head body c) = c_pool c1" "c_initialized (svc_write hsz head body c) = c_initialized c1"
    "c_ready (svc_write hsz head body c) = c_ready c1"
proof -
  have "c_svc c1 = []" using c_svc_more [OF acquire_buffer_more [OF assms(2)]] assms(1) by simp
  then show "c_svc (svc_write hsz head body c) = [(b, align_up_8 (hsz + length body))]"
    "c_pool (svc_write hsz head body c) = c_pool c1" "c_initialized (svc_write hsz head body c) = c_initialized c1"
    "c_ready (svc_write hsz head body c) = c_ready c1"
    using assms by (simp_all add: svc_write_def svc_reserve_def svc_acquire_new_def svc_take_def Let_def frame_simps
        c_svc_more [OF mem_write_frame(1)])
qed

lemma race_acquire:
  fixes c :: "unit reg_core_scheme"
  assumes "c_pool c = c_pool demo_reg" "c_initialized c"
  shows "\<exists>c1. acquire_buffer False c = (Acquired 1, c1) \<and> pl_waitq (c_pool c1) = wq_empty \<and> c_initialized c1 \<and> c_ready c1 = c_ready c"
  using assms
  by (simp add: acquire_buffer_def demo_reg_def acquire_no_lock_def pool_new_def pool_grow_def pool_alloc_def pool_add_def
      pull_first_def try_reserve_def new_budget_def mz_data_buffer_size_def notify_pressure_def notify_def
      no_headroom_def Let_def)

lemma race_registered:
  "c_svc (fst (race_hook (demo_reg, w))) = [(1, 16)]" "c_ready (fst (race_hook (demo_reg, w))) = [5]"
  "c_initialized (fst (race_hook (demo_reg, w)))"
  "pl_waitq (c_pool (fst (race_hook (demo_reg, w)))) = wq_empty"
proof -
  define d :: attr_desc where "d = \<lparr>ad_id = 0, ad_type = e_p8_attr_u64, ad_name = [97]\<rparr>"
  define c where "c = demo_reg\<lparr>c_allocs := replicate 18 True, c_attrs := [d], c_attr_names := [[97] \<mapsto> 0]\<rparr>"
  have reg: "snd (attr_register (Some [97]) e_p8_attr_u64 demo_reg) = serialize_attr_desc d c"
    by (simp add: attr_register_def no_name_def alloc_def demo_reg_def c_def d_def numeral_eq_Suc Let_def)
  have "c_pool c = c_pool demo_reg" "c_initialized c" "c_svc c = []" "c_ready c = []" by (simp_all add: c_def demo_reg_def)
  with race_acquire [of c] obtain c1 where "acquire_buffer False c = (Acquired 1, c1)" "pl_waitq (c_pool c1) = wq_empty"
    "c_initialized c1" "c_ready c1 = []" by auto
  note fr = svc_write_fresh [OF \<open>c_svc c = []\<close> this(1), of sz_attr_svc "svc_str (Some (ad_name d)) @ [0]" "attr_head d"]
  have sz: "align_up_8 (sz_attr_svc + length (svc_str (Some (ad_name d)) @ [0])) = 16"
    by (simp add: svc_str_def d_def align_up_8_def P8_SVC_STR_MAX_LEN_def)
  show "c_svc (fst (race_hook (demo_reg, w))) = [(1, 16)]" "c_ready (fst (race_hook (demo_reg, w))) = [5]"
    "c_initialized (fst (race_hook (demo_reg, w)))"
    "pl_waitq (c_pool (fst (race_hook (demo_reg, w)))) = wq_empty"
    unfolding race_hook_def prod.case fst_conv reg serialize_attr_desc_def
    using fr [unfolded sz] \<open>c_initialized c1\<close> \<open>c_ready c1 = []\<close> \<open>pl_waitq (c_pool c1) = wq_empty\<close>
    by (simp_all add: submit_buffer_def notify_def mz_data_buffer_size_def)
qed

lemma data_precedes_descriptor_witness:
  "\<exists>sy1 sy2. worker_pass null_sink_ops 0 1 (quiet\<lparr>hk_svc := race_hook\<rparr>) race_sys = Some sy1 \<and>
     worker_pass null_sink_ops 0 2 quiet sy1 = Some sy2"
proof -
  obtain c1 w where h: "race_hook (sy_core race_sys, sy_writers race_sys) = (c1, w)" by (meson surj_pair)
  then have c1: "c1 = fst (race_hook (demo_reg, no_writers (\<lambda>_. writer_new 64 0)))" "w = no_writers (\<lambda>_. writer_new 64 0)"
    by (simp_all add: race_sys_def) (simp add: race_hook_def)
  have "wq_abs (pl_waitq (c_pool c1)) []" using race_registered(4) c1(1) by (simp add: wq_abs_def wq_empty_def)
  moreover have "ws_abs w []" "held_all w [] = []" using c1(2) by (simp_all add: ws_abs_empty held_all_def)
  moreover have "c_svc (sy_core race_sys) = []" by (simp add: race_sys_def demo_reg_def)
  ultimately show ?thesis
    using data_precedes_descriptor [where f = race_hook and sy = race_sys and xs = "[]" and sk = null_sink_ops
        and a = 1 and n = 16 and b = 5 and interval = 0 and now = 1 and later = 2, OF _ h] race_registered(1-3) c1(1) by auto
qed

section \<open>Stopping\<close>

definition hooks_ok :: "'a hooks \<Rightarrow> bool" where
  "hooks_ok hk \<longleftrightarrow> hook_ok (hk_svc hk) \<and> hook_ok (hk_ready hk) \<and> hook_ok (hk_drain hk)"

text \<open>Whatever the producers do, a pass comes to its end.\<close>

lemma worker_pass_returns:
  assumes "hooks_ok hk" "ws_abs (sy_writers sy) xs" "c_initialized (sy_core sy)"
  obtains sy' ys where "worker_pass sk interval now hk sy = Some sy'" "ws_abs (sy_writers sy') ys" "c_initialized (sy_core sy')"
proof -
  have init: "c_initialized ((sy_core sy)\<lparr>c_svc := []\<rparr>)" using assms(3) by simp
  have hk: "hook_ok (hk_svc hk)" "hook_ok (hk_ready hk)" "hook_ok (hk_drain hk)" using assms(1) by (simp_all add: hooks_ok_def)
  from hook_okE [OF hk(1) assms(2), of "(sy_core sy)\<lparr>c_svc := []\<rparr>"] init obtain c1 w1 ys where
    h1: "hk_svc hk ((sy_core sy)\<lparr>c_svc := []\<rparr>, sy_writers sy) = (c1, w1)" "ws_abs w1 ys" "c_initialized c1" by metis
  let ?c = "(release_all (c_svc (sy_core sy)) c1)\<lparr>c_ready := []\<rparr>"
  have "c_initialized ?c" using h1(3) by (simp add: frame_simps)
  with hook_okE [OF hk(2) h1(2), of ?c] obtain c2 w2 zs where
    h2: "hk_ready hk (?c, w1) = (c2, w2)" "ws_abs w2 zs" "c_initialized c2" by metis
  from worker_pass_calls [OF h1(1) h2 hk(3), of sk interval now] show thesis using that by blast
qed

lemma worker_main_reaches:
  assumes "\<forall>u\<in>set us. hooks_ok (wu_hooks u) \<and> wu_signal u \<noteq> mu_event_stop" "ws_abs (sy_writers sy) xs" "c_initialized (sy_core sy)"
  shows "\<exists>sy' ys. worker_main sk interval (us @ vs) sy = worker_main sk interval vs sy' \<and>
    ws_abs (sy_writers sy') ys \<and> c_initialized (sy_core sy')"
  using assms
proof (induction us arbitrary: sy xs)
  case Nil
  then show ?case by auto
next
  case (Cons u us)
  have "hooks_ok (wu_hooks u)" using Cons.prems(1) by simp
  from worker_pass_returns [OF this Cons.prems(2,3)] obtain sy1 ys where
    p: "worker_pass sk interval (wu_now u) (wu_hooks u) sy = Some sy1" "ws_abs (sy_writers sy1) ys" "c_initialized (sy_core sy1)"
    by metis
  have "\<forall>u\<in>set us. hooks_ok (wu_hooks u) \<and> wu_signal u \<noteq> mu_event_stop" using Cons.prems(1) by simp
  from Cons.IH [OF this p(2,3)] p(1) Cons.prems(1) show ?case by simp
qed

text \<open>
  C19: The worker stops, and stops clean: however many wake-ups it served and whatever producers did
  during them, once it is signalled to stop it returns after one more pass, and if nobody else
  runs during that pass nothing is left in the service list, in the ready queue or with a writer;
  what that last pass takes over is written before it returns.
\<close>

theorem worker_main_stops_clean:
  assumes "\<forall>u\<in>set us. hooks_ok (wu_hooks u) \<and> wu_signal u \<noteq> mu_event_stop" and "ws_abs (sy_writers sy) xs"
    and "c_initialized (sy_core sy)" and "hooks_ok (wu_hooks v)" and "wu_signal v = mu_event_stop"
  shows "\<exists>sy1 sy2 ys. worker_main sk interval (us @ [v]) sy = Some sy2 \<and>
    worker_pass sk interval (wu_now v) (wu_hooks v) sy1 = Some sy2 \<and> ws_abs (sy_writers sy1) ys \<and>
    (\<forall>ts. wu_hooks v = quiet \<longrightarrow> wq_abs (pl_waitq (c_pool (sy_core sy1))) ts \<longrightarrow>
      c_svc (sy_core sy2) = [] \<and> c_ready (sy_core sy2) = [] \<and> held_all (sy_writers sy2) ys = [] \<and>
      sy_sink sy2 = snd (sink_run sk (pass_calls (svc_view (sy_core sy1) (c_svc (sy_core sy1)))
        (map (c_mem (sy_core sy1)) (c_ready (sy_core sy1) @ held_all (sy_writers sy1) ys))) (sy_sink sy1)))"
proof -
  from worker_main_reaches [OF assms(1-3), of sk interval "[v]"] obtain sy1 ys where
    r: "worker_main sk interval (us @ [v]) sy = worker_main sk interval [v] sy1" "ws_abs (sy_writers sy1) ys" "c_initialized (sy_core sy1)"
    by blast
  from worker_pass_returns [OF assms(4) r(2,3), of sk interval "wu_now v"] obtain sy2 where
    p: "worker_pass sk interval (wu_now v) (wu_hooks v) sy1 = Some sy2" by metis
  have "worker_main sk interval (us @ [v]) sy = Some sy2" using r(1) p assms(5) by simp
  moreover have "c_svc (sy_core sy2) = [] \<and> c_ready (sy_core sy2) = [] \<and> held_all (sy_writers sy2) ys = [] \<and>
      sy_sink sy2 = snd (sink_run sk (pass_calls (svc_view (sy_core sy1) (c_svc (sy_core sy1)))
        (map (c_mem (sy_core sy1)) (c_ready (sy_core sy1) @ held_all (sy_writers sy1) ys))) (sy_sink sy1))"
    if "wu_hooks v = quiet" "wq_abs (pl_waitq (c_pool (sy_core sy1))) ts" for ts
    using worker_pass_quiet [OF r(2,3) that(2) refl refl, of sk interval "wu_now v"] p that(1) by auto
  ultimately show ?thesis using p r(2) by blast
qed

lemma worker_main_stops_clean_witness:
  "\<exists>sy2. worker_main null_sink_ops 100 ([\<lparr>wu_signal = mu_event_wake, wu_now = 5, wu_hooks = quiet\<rparr>] @
      [\<lparr>wu_signal = mu_event_stop, wu_now = 9, wu_hooks = quiet\<rparr>]) demo_sys = Some sy2"
proof -
  have "hooks_ok (quiet :: unit hooks)" by (simp add: hooks_ok_def quiet_def)
  then show ?thesis
    using worker_main_stops_clean [OF _ demo_sys_ok(1,2), of "[\<lparr>wu_signal = mu_event_wake, wu_now = 5, wu_hooks = quiet\<rparr>]"
        "\<lparr>wu_signal = mu_event_stop, wu_now = 9, wu_hooks = quiet\<rparr>" null_sink_ops 100]
    by (simp add: mu_event_wake_def mu_event_stop_def) blast
qed

lemma worker_pass_file:
  fixes sy :: "('a, 'f file_sink) sys"
  assumes "file_law fo" and "ws_abs (sy_writers sy) xs" and "c_initialized (sy_core sy)" and "wq_abs (pl_waitq (c_pool (sy_core sy))) ts"
    and "data = map (c_mem (sy_core sy)) (c_ready (sy_core sy) @ held_all (sy_writers sy) xs)"
    and "svc = svc_view (sy_core sy) (c_svc (sy_core sy))"
    and "\<forall>b\<in>set data. buf_size b \<le> length b" and "\<forall>e\<in>set svc. snd e \<le> length (fst e)"
  shows "\<exists>sy'. worker_pass (file_sink_ops fo e) interval now quiet sy = Some sy' \<and>
    fs_written (sy_sink sy') + fs_dropped (sy_sink sy') = fs_written (sy_sink sy) + fs_dropped (sy_sink sy) +
      of_nat (sum_list (map buf_size data) + sum_list (map snd svc)) \<and>
    (\<exists>k j. fo_bytes fo (fs_data (sy_sink sy')) = fo_bytes fo (fs_data (sy_sink sy)) @ k \<and>
      subseq k (concat (map (\<lambda>b. take (buf_size b) b) data)) \<and>
      fo_bytes fo (fs_svc (sy_sink sy')) = fo_bytes fo (fs_svc (sy_sink sy)) @ j \<and>
      subseq j (concat (map (\<lambda>e. take (snd e) (fst e)) svc)) \<and>
      ((\<forall>b\<in>set (fst (sink_run (file_sink_ops fo e) (pass_calls svc data) (sy_sink sy))). b) \<longrightarrow>
        k = concat (map (\<lambda>b. take (buf_size b) b) data) \<and> j = concat (map (\<lambda>e. take (snd e) (fst e)) svc)))"
proof -
  let ?sk = "file_sink_ops fo e"
  from worker_pass_quiet [OF assms(2-4) refl refl, of ?sk interval now] obtain sy' where
    p: "worker_pass ?sk interval now quiet sy = Some sy'" "sy_sink sy' = snd (sink_run ?sk (pass_calls svc data) (sy_sink sy))"
    unfolding assms(5,6) by blast
  obtain bs s' where r: "sink_run ?sk (pass_calls svc data) (sy_sink sy) = (bs, s')" by (meson surj_pair)
  have s': "sy_sink sy' = s'" using p(2) r by simp
  have ok: "list_all call_ok (pass_calls svc data)" using assms(7,8) by (simp add: pass_calls_def)
  have bytes: "concat (map call_data (pass_calls svc data)) = concat (map (\<lambda>b. take (buf_size b) b) data)"
    "concat (map call_svc (pass_calls svc data)) = concat (map (\<lambda>e. take (snd e) (fst e)) svc)" by (simp_all add: pass_calls_def)
  have size: "sum_list (map call_size (pass_calls svc data)) = sum_list (map buf_size data) + sum_list (map snd svc)"
    using length_takes [of data buf_size "\<lambda>b. b"] length_takes [of svc snd fst] assms(7,8) by (simp add: pass_calls_def call_size_def)
  note acc = file_sink.run_accounts [OF assms(1) ok r, unfolded size]
  note part = file_sink.run_part [OF assms(1) ok r, unfolded bytes]
  note all = file_sink.run_all [OF assms(1) ok r, unfolded bytes]
  from part obtain k j where kj: "fo_bytes fo (fs_data s') = fo_bytes fo (fs_data (sy_sink sy)) @ k"
    "subseq k (concat (map (\<lambda>b. take (buf_size b) b) data))"
    "fo_bytes fo (fs_svc s') = fo_bytes fo (fs_svc (sy_sink sy)) @ j"
    "subseq j (concat (map (\<lambda>e. take (snd e) (fst e)) svc))" by blast
  have full: "(\<forall>b\<in>set bs. b) \<longrightarrow> k = concat (map (\<lambda>b. take (buf_size b) b) data) \<and> j = concat (map (\<lambda>e. take (snd e) (fst e)) svc)"
    using all kj(1,3) by simp
  show ?thesis using p(1) conjunct2 [OF acc] kj full unfolding r fst_conv s' [symmetric] by blast
qed

text \<open>
  C15: From buffers to disk: after a pass of the worker in front of an open file, if the calls of the
  pass report success, the data file has grown by exactly the used bytes of every buffer in flight and the service
  file by those of every service buffer; in any case no byte is unaccounted for.
\<close>

theorem worker_pass_to_disk:
  fixes sy :: "('a, 'f file_sink) sys"
  assumes "file_law fo" and "ws_abs (sy_writers sy) xs" and "c_initialized (sy_core sy)" and "wq_abs (pl_waitq (c_pool (sy_core sy))) ts"
    and "data = map (c_mem (sy_core sy)) (c_ready (sy_core sy) @ held_all (sy_writers sy) xs)"
    and "svc = svc_view (sy_core sy) (c_svc (sy_core sy))"
    and "\<forall>b\<in>set data. buf_size b \<le> length b" and "\<forall>e\<in>set svc. snd e \<le> length (fst e)"
  shows "\<exists>sy'. worker_pass (file_sink_ops fo e) interval now quiet sy = Some sy' \<and>
    fs_written (sy_sink sy') + fs_dropped (sy_sink sy') = fs_written (sy_sink sy) + fs_dropped (sy_sink sy) +
      of_nat (sum_list (map buf_size data) + sum_list (map snd svc)) \<and>
    (\<exists>k j. fo_bytes fo (fs_data (sy_sink sy')) = fo_bytes fo (fs_data (sy_sink sy)) @ k \<and>
      subseq k (concat (map (\<lambda>b. take (buf_size b) b) data)) \<and>
      fo_bytes fo (fs_svc (sy_sink sy')) = fo_bytes fo (fs_svc (sy_sink sy)) @ j \<and>
      subseq j (concat (map (\<lambda>e. take (snd e) (fst e)) svc)) \<and>
      ((\<forall>b\<in>set (fst (sink_run (file_sink_ops fo e) (pass_calls svc data) (sy_sink sy))). b) \<longrightarrow>
        k = concat (map (\<lambda>b. take (buf_size b) b) data) \<and> j = concat (map (\<lambda>e. take (snd e) (fst e)) svc)))"
  by (rule worker_pass_file [OF assms])

definition disk_sys :: "(unit, (bool \<times> byte list \<times> nat list) file_sink) sys" where
  "disk_sys = \<lparr>sy_core = demo_reg\<lparr>c_ready := [3], c_mem := (\<lambda>_. demo_buf)\<rparr>,
     sy_writers = no_writers (\<lambda>_. writer_new 64 0), sy_sink = demo_sink [20], sy_last = 0\<rparr>"

lemma worker_pass_to_disk_witness:
  "\<exists>sy'. worker_pass (file_sink_ops demo_fo demo_open_env) 0 1 quiet disk_sys = Some sy' \<and>
     fs_written (sy_sink sy') + fs_dropped (sy_sink sy') =
       fs_written (demo_sink [20]) + fs_dropped (demo_sink [20]) + 26"
proof -
  have "ws_abs (sy_writers disk_sys) []" "c_initialized (sy_core disk_sys)" "wq_abs (pl_waitq (c_pool (sy_core disk_sys))) []"
    by (simp_all add: disk_sys_def ws_abs_empty) (simp_all add: demo_reg_def pool_new_def wq_abs_def wq_empty_def)
  moreover have data: "map (c_mem (sy_core disk_sys)) (c_ready (sy_core disk_sys) @ held_all (sy_writers disk_sys) []) = [demo_buf]"
    "svc_view (sy_core disk_sys) (c_svc (sy_core disk_sys)) = []" "buf_size demo_buf = 26"
    by (simp_all add: disk_sys_def held_all_def svc_view_def) (simp_all add: demo_reg_def demo_buf_def buf_size_def)
  ultimately show ?thesis
    using worker_pass_to_disk [OF demo_fo_law _ _ _ data(1) [symmetric] data(2) [symmetric], of "[]" 
        demo_open_env 0 1] demo_call_ok by (auto simp: disk_sys_def)
qed

end
