(* ===== verification/Config.thy ===== *)
theory Config
  imports Protocol
begin

text \<open>
  What the core reads at start-up: memory sizes written as text (\<^verbatim>\<open>parse_size\<close> in
  \<^verbatim>\<open>engine/p8_core.cpp\<close>), a configuration file (\<^verbatim>\<open>engine/p8_config.cpp\<close>), and the hello header
  (\<^verbatim>\<open>init_header\<close>) with which every stream begins. \<^verbatim>\<open>str_casecmp\<close> belongs to kit and is a parameter;
  so are the answers of the C file functions, the clock and the process queries.
\<close>

section \<open>Decimal numbers\<close>

definition digit_val :: "char \<Rightarrow> nat" where
  "digit_val c = of_char c - 48"

definition is_dec :: "char \<Rightarrow> bool" where
  "is_dec c \<longleftrightarrow> 48 \<le> (of_char c :: nat) \<and> (of_char c :: nat) \<le> 57"

definition dec_val :: "string \<Rightarrow> nat" where
  "dec_val ds = foldl (\<lambda>a c. a * 10 + digit_val c) 0 ds"

text \<open>\<^verbatim>\<open>isspace\<close> in the C locale.\<close>

definition is_space :: "char \<Rightarrow> bool" where
  "is_space c \<longleftrightarrow> of_char c \<in> {9, 10, 11, 12, 13, 32 :: nat}"

text \<open>
  \<^verbatim>\<open>strtoull\<close> with base 10: leading white space, an optional sign, digits. The result is the value,
  saturated at \<^verbatim>\<open>ULLONG_MAX\<close> and otherwise negated behind a minus sign, and the rest of the string;
  \<open>None\<close> when there is no digit, where the end pointer is the start.
\<close>

definition strtoull10 :: "string \<Rightarrow> (u64 \<times> string) option" where
  "strtoull10 s =
     (let s1 = dropWhile is_space s;
          (neg, s2) = (case s1 of [] \<Rightarrow> (False, [])
            | c # cs \<Rightarrow> if c = CHR ''-'' then (True, cs) else if c = CHR ''+'' then (False, cs) else (False, s1));
          ds = takeWhile is_dec s2;
          n = dec_val ds
      in if ds = [] then None
         else Some (if 2 ^ 64 \<le> n then - 1 else if neg then - of_nat n else of_nat n, dropWhile is_dec s2))"

section \<open>Memory sizes\<close>

text \<open>The copy into the 128-byte buffer drops blanks and tabs and stops when it is full.\<close>

fun strip_loop :: "nat \<Rightarrow> string \<Rightarrow> string" where
  "strip_loop room [] = []"
| "strip_loop room (c # cs) =
     (if room = 0 then []
      else if c \<noteq> CHR '' '' \<and> c \<noteq> CHR 0x09 then c # strip_loop (room - 1) cs
      else strip_loop room cs)"

definition parse_size :: "(string \<Rightarrow> string \<Rightarrow> bool) \<Rightarrow> string \<Rightarrow> u64 option" where
  "parse_size casecmp s =
     (let buf = strip_loop 127 s
      in if casecmp buf ''infinite'' then Some (- 1)
         else case strtoull10 buf of
             None \<Rightarrow> None
           | Some (v, rest) \<Rightarrow>
               (if rest = [] then Some v
                else if casecmp rest ''KB'' \<or> casecmp rest ''Ki'' then Some (v * 1024)
                else if casecmp rest ''MB'' \<or> casecmp rest ''Mi'' then Some (v * 1024 * 1024)
                else None))"

text \<open>The case-insensitive comparison of kit: equal but for the case of ASCII letters.\<close>

definition lower :: "char \<Rightarrow> char" where
  "lower c = (if 65 \<le> (of_char c :: nat) \<and> (of_char c :: nat) \<le> 90 then char_of (of_char c + 32 :: nat) else c)"

definition casecmp_law :: "(string \<Rightarrow> string \<Rightarrow> bool) \<Rightarrow> bool" where
  "casecmp_law f \<longleftrightarrow> (\<forall>a b. f a b \<longleftrightarrow> map lower a = map lower b)"

lemma strip_loop_filter: "strip_loop room s = take room (filter (\<lambda>c. c \<noteq> CHR '' '' \<and> c \<noteq> CHR 0x09) s)"
  by (induction room s rule: strip_loop.induct) (auto simp: take_Cons')

lemma is_dec_plain:
  assumes "is_dec c"
  shows "\<not> is_space c" "c \<noteq> CHR ''-''" "c \<noteq> CHR ''+''" "c \<noteq> CHR '' ''" "c \<noteq> CHR 0x09"
  using assms by (auto simp: is_dec_def is_space_def)

text \<open>Printing in decimal, the inverse.\<close>

fun dec_str :: "nat \<Rightarrow> string" where
  "dec_str n = (if n < 10 then [char_of (48 + n)] else dec_str (n div 10) @ [char_of (48 + n mod 10)])"

declare dec_str.simps [simp del]

lemma is_dec_char [simp]: "n < 10 \<Longrightarrow> is_dec (char_of (48 + n :: nat))"
  by (simp add: is_dec_def)

lemma digit_val_char [simp]: "n < 10 \<Longrightarrow> digit_val (char_of (48 + n :: nat)) = n"
  by (simp add: digit_val_def)

lemma dec_val_snoc: "dec_val (ds @ [c]) = dec_val ds * 10 + digit_val c"
  by (simp add: dec_val_def)

lemma dec_str_digits: "list_all is_dec (dec_str n) \<and> dec_str n \<noteq> []"
proof (induction n rule: dec_str.induct)
  case (1 n)
  show ?case
  proof (cases "n < 10")
    case True
    then have "dec_str n = [char_of (48 + n)]" by (subst dec_str.simps) simp
    then show ?thesis using True by simp
  next
    case False
    then have "dec_str n = dec_str (n div 10) @ [char_of (48 + n mod 10)]" by (subst dec_str.simps) simp
    then show ?thesis using 1 False by simp
  qed
qed

lemma dec_val_str: "dec_val (dec_str n) = n"
proof (induction n rule: dec_str.induct)
  case (1 n)
  show ?case
  proof (cases "n < 10")
    case True
    then have "dec_str n = [char_of (48 + n)]" by (subst dec_str.simps) simp
    then show ?thesis using True by (simp add: dec_val_def)
  next
    case False
    then have "dec_str n = dec_str (n div 10) @ [char_of (48 + n mod 10)]" by (subst dec_str.simps) simp
    then show ?thesis using 1 False by (simp add: dec_val_snoc)
  qed
qed

lemma strtoull10_digits:
  assumes "list_all is_dec ds" "ds \<noteq> []" "rest = [] \<or> \<not> is_dec (hd rest)"
  shows "strtoull10 (ds @ rest) = Some (if 2 ^ 64 \<le> dec_val ds then - 1 else of_nat (dec_val ds), rest)"
proof -
  obtain c cs where ds: "ds = c # cs" using assms(2) by (cases ds) auto
  then have "is_dec c" using assms(1) by simp
  note c = is_dec_plain [OF this]
  have tw: "takeWhile is_dec (ds @ rest) = ds" "dropWhile is_dec (ds @ rest) = rest"
    using assms(1,3) by (induction ds) (auto, (cases rest; auto)+)
  show ?thesis using c tw ds by (simp add: strtoull10_def)
qed

text \<open>The factor of a unit, in any case.\<close>

definition unit_mult :: "string \<Rightarrow> nat option" where
  "unit_mult u =
     (if u = [] then Some 1
      else if map lower u \<in> {''kb'', ''ki''} then Some 1024
      else if map lower u \<in> {''mb'', ''mi''} then Some (1024 * 1024)
      else None)"

lemma lower_consts:
  "map lower ''infinite'' = ''infinite''" "map lower ''KB'' = ''kb''" "map lower ''Ki'' = ''ki''"
  "map lower ''MB'' = ''mb''" "map lower ''Mi'' = ''mi''"
  by code_simp+

lemma lower_digit: "is_dec c \<Longrightarrow> lower c = c"
  by (simp add: is_dec_def lower_def)

lemma digit_not_infinite: "is_dec c \<Longrightarrow> map lower (c # cs) \<noteq> ''infinite''"
  by (auto simp: lower_digit is_dec_def)

lemma saturated_word: "(if 2 ^ 64 \<le> n then - 1 else of_nat n :: u64) = of_nat (min n (2 ^ 64 - 1))"
proof (cases "2 ^ 64 \<le> n")
  case True
  then have "min n (2 ^ 64 - 1) = 2 ^ 64 - 1" by simp
  moreover have "(of_nat (2 ^ 64 - 1) :: u64) = - 1" by simp
  ultimately show ?thesis using True by (simp only: if_True)
next
  case False
  then show ?thesis by (simp add: min_def)
qed

text \<open>
  C22: A size in the configuration, a decimal number with an optional unit in any case and with blanks
  anywhere, is read as the number times the unit, modulo 2 to the 64: a number too long for 64 bits
  counts as the largest one, and the product wraps without being noticed, so that
  18014398509481984 KB is a size of zero. Any other unit is refused.
\<close>

theorem parse_size_value:
  assumes "casecmp_law f" and "filter (\<lambda>c. c \<noteq> CHR '' '' \<and> c \<noteq> CHR 0x09) s = dec_str n @ u"
    and "length (dec_str n @ u) \<le> 127" and "u = [] \<or> \<not> is_dec (hd u)"
  shows "parse_size f s = map_option (\<lambda>m. of_nat (min n (2 ^ 64 - 1) * m)) (unit_mult u)"
proof -
  have buf: "strip_loop 127 s = dec_str n @ u" unfolding strip_loop_filter assms(2) using assms(3) by simp
  obtain c cs where d: "dec_str n = c # cs" using dec_str_digits [of n] by (cases "dec_str n") auto
  then have "is_dec c" using dec_str_digits [of n] by simp
  from digit_not_infinite [OF this, of "cs @ u"] have inf: "\<not> f (dec_str n @ u) ''infinite''"
    using assms(1) unfolding casecmp_law_def by (simp only: lower_consts d append_Cons simp_thms)
  have num: "strtoull10 (dec_str n @ u) = Some (of_nat (min n (2 ^ 64 - 1)), u)"
    using strtoull10_digits [OF conjunct1 [OF dec_str_digits] conjunct2 [OF dec_str_digits] assms(4), of n]
    unfolding dec_val_str saturated_word .
  have f: "f u ''KB'' \<longleftrightarrow> map lower u = ''kb''" "f u ''Ki'' \<longleftrightarrow> map lower u = ''ki''"
    "f u ''MB'' \<longleftrightarrow> map lower u = ''mb''" "f u ''Mi'' \<longleftrightarrow> map lower u = ''mi''"
    using assms(1) unfolding casecmp_law_def lower_consts [symmetric] by (simp_all only:)
  show ?thesis using num inf by (simp add: parse_size_def buf unit_mult_def f mult.assoc)
qed

lemma parse_size_value_witness: "parse_size (\<lambda>a b. map lower a = map lower b) ''18014398509481984 kb'' = Some 0"
proof -
  have n: "dec_str 18014398509481984 = ''18014398509481984''" by (simp add: dec_str.simps) code_simp
  have "casecmp_law (\<lambda>a b. map lower a = map lower b)" by (simp add: casecmp_law_def)
  from parse_size_value [OF this, of "''18014398509481984 kb''" 18014398509481984 "''kb''"]
  show ?thesis by (simp add: n is_dec_def unit_mult_def lower_def)
qed

section \<open>Reading a configuration file\<close>

text \<open>The answers of the C library; \<open>rf_read n\<close> are the bytes \<^verbatim>\<open>fread\<close> delivers of the \<open>n\<close> asked for.\<close>

record read_env =
  rf_open :: bool
  rf_seek :: bool
  rf_tell :: int
  rf_malloc :: "nat \<Rightarrow> bool"
  rf_read :: "nat \<Rightarrow> byte list"

text \<open>
  The locals of \<^verbatim>\<open>p8_config_read_file\<close> at \<^verbatim>\<open>lbl_exit\<close>: whether the file is open, the buffer, the
  reported size, the error flag.
\<close>

record read_state =
  rs_file :: bool
  rs_buf :: "byte list option"
  rs_size :: nat
  rs_error :: bool

definition read_body :: "bool \<Rightarrow> read_env \<Rightarrow> read_state" where
  "read_body has_path e =
     (let s0 = \<lparr>rs_file = False, rs_buf = None, rs_size = 0, rs_error = False\<rparr>;
          err = (\<lambda>s. s\<lparr>rs_error := True\<rparr>)
      in if \<not> has_path \<or> \<not> rf_open e then err s0
         else let s1 = s0\<lparr>rs_file := True\<rparr>
           in if \<not> rf_seek e \<or> rf_tell e < 0 then err s1
              else let n = nat (rf_tell e)
                in if \<not> rf_malloc e (n + 1) then err s1
                   else let bs = rf_read e n
                     in if length bs \<noteq> n then err (s1\<lparr>rs_buf := Some bs\<rparr>)
                        else s1\<lparr>rs_buf := Some (bs @ [0]), rs_size := n\<rparr>)"

text \<open>The exit: the file is closed, and the buffer is freed on error; the result and \<^verbatim>\<open>*op_size\<close>.\<close>

definition read_exit :: "read_state \<Rightarrow> read_state" where
  "read_exit s = s\<lparr>rs_file := False, rs_buf := (if rs_error s then None else rs_buf s)\<rparr>"

definition p8_config_read_file :: "bool \<Rightarrow> read_env \<Rightarrow> byte list option \<times> nat" where
  "p8_config_read_file has_path e = (let s = read_exit (read_body has_path e) in (rs_buf s, rs_size s))"

text \<open>The reader returns the whole file behind a terminator or nothing, with size 0.\<close>

lemma read_file_result:
  "p8_config_read_file has_path e =
     (if has_path \<and> rf_open e \<and> rf_seek e \<and> 0 \<le> rf_tell e \<and> rf_malloc e (nat (rf_tell e) + 1) \<and>
         length (rf_read e (nat (rf_tell e))) = nat (rf_tell e)
      then (Some (rf_read e (nat (rf_tell e)) @ [0]), nat (rf_tell e)) else (None, 0))"
  by (simp add: p8_config_read_file_def read_exit_def read_body_def Let_def)

section \<open>The hello header\<close>

record hello =
  he_version :: u8
  he_big :: bool
  he_utc_offset :: u32
  he_size :: u32
  he_pid :: u32
  he_time :: u64
  he_tick :: u64
  he_numer :: u64
  he_denom :: u64
  he_process :: "byte list"
  he_host :: "byte list"

text \<open>
  What \<^verbatim>\<open>init_header\<close> queries: the byte order, the offset from UTC in seconds, process id, clocks, and
  the two name buffers of 256 bytes as kit fills them. \<open>hv_timer\<close> is the pair of a configured
  timer's value and frequency, when both callbacks are given.
\<close>

record hello_env =
  hv_big :: bool
  hv_utc :: int
  hv_pid :: u32
  hv_time :: u64
  hv_timer :: "(u64 \<times> u64) option"
  hv_tick :: u64
  hv_freq :: "u64 \<times> u64"
  hv_process :: "byte list"
  hv_host :: "byte list"

definition P8_PROTOCOL_VERSION :: u8 where "P8_PROTOCOL_VERSION = 1"

text \<open>A division that truncates, as C's, and the conversion to \<^verbatim>\<open>int8_t\<close> and back to 32 bits.\<close>

definition utc_hours :: "int \<Rightarrow> u32" where
  "utc_hours secs = scast (of_int (if secs < 0 then - (- secs div 3600) else secs div 3600) :: 8 word)"

definition hello_fields :: "hello_env \<Rightarrow> hello" where
  "hello_fields e =
     (let (tick, numer, denom) = (case hv_timer e of
            Some (v, f) \<Rightarrow> (v, 1000000000, f)
          | None \<Rightarrow> (hv_tick e, fst (hv_freq e), snd (hv_freq e)))
      in \<lparr>he_version = P8_PROTOCOL_VERSION, he_big = hv_big e, he_utc_offset = utc_hours (hv_utc e), he_size = 568,
          he_pid = hv_pid e, he_time = hv_time e, he_tick = tick, he_numer = numer, he_denom = denom,
          he_process = hv_process e, he_host = hv_host e\<rparr>)"

text \<open>The bytes of a \<open>k\<close>-byte integer in the host's memory; kit's byte swap is a parameter that reverses them.\<close>

definition host_bytes :: "bool \<Rightarrow> nat \<Rightarrow> nat \<Rightarrow> byte list" where
  "host_bytes big k v = (if big then rev (le_bytes k v) else le_bytes k v)"

definition bswap_law :: "(nat \<Rightarrow> nat \<Rightarrow> nat) \<Rightarrow> bool" where
  "bswap_law bswap \<longleftrightarrow> (\<forall>k v. le_bytes k (bswap k v) = rev (le_bytes k v))"

text \<open>\<^verbatim>\<open>init_header\<close>: on a big-endian host the integers are swapped before they are hashed, and so is the hash.\<close>

definition init_header :: "(nat \<Rightarrow> nat \<Rightarrow> nat) \<Rightarrow> (byte list \<Rightarrow> u64) \<Rightarrow> hello_env \<Rightarrow> byte list" where
  "init_header bswap hash e =
     (let h = hello_fields e;
          big = hv_big e;
          fld = (\<lambda>k v. host_bytes big k (if big then bswap k v else v));
          body = [P8_PACKET_MAIN, he_version h, if he_big h then 1 else 0, 0] @
            fld 4 (unat (he_utc_offset h)) @ fld 4 (unat (he_size h)) @ fld 4 (unat (he_pid h)) @
            fld 8 (unat (he_time h)) @ fld 8 (unat (he_tick h)) @ fld 8 (unat (he_numer h)) @ fld 8 (unat (he_denom h)) @
            he_process h @ he_host h
      in body @ fld 8 (unat (hash body)))"

lemma host_bytes_le: "bswap_law bswap \<Longrightarrow> host_bytes big k (if big then bswap k v else v) = le_bytes k v"
  by (simp add: host_bytes_def bswap_law_def)

definition swap_bytes :: "nat \<Rightarrow> nat \<Rightarrow> nat" where
  "swap_bytes k v = le_nat (rev (le_bytes k v))"

lemma swap_bytes_law: "bswap_law swap_bytes"
proof -
  have "le_bytes k (le_nat (rev (le_bytes k v))) = rev (le_bytes k v)" for k v
    using le_bytes_le_nat [of "rev (le_bytes k v)"] by (simp del: le_bytes_le_nat)
  then show ?thesis by (simp add: bswap_law_def swap_bytes_def)
qed

text \<open>What a receiver reads, on any host.\<close>

definition dec_hello :: "byte list \<Rightarrow> hello" where
  "dec_hello bs =
     \<lparr>he_version = bs ! 1, he_big = (bs ! 2 = 1), he_utc_offset = of_nat (get_le 4 4 bs), he_size = of_nat (get_le 8 4 bs),
      he_pid = of_nat (get_le 12 4 bs), he_time = of_nat (get_le 16 8 bs), he_tick = of_nat (get_le 24 8 bs),
      he_numer = of_nat (get_le 32 8 bs), he_denom = of_nat (get_le 40 8 bs),
      he_process = sub_bytes 48 256 bs, he_host = sub_bytes 304 256 bs\<rparr>"

text \<open>
  C23: The hello packet is the same on every host: little-endian integers whatever the byte order, so a
  receiver that reads little-endian gets the fields back from 568 bytes, of which the last eight
  are the hash of all before them. The offset from UTC, described in seconds, is in whole hours.
\<close>

theorem hello_decodes:
  assumes "bswap_law bswap" and "length (hv_process e) = 256" and "length (hv_host e) = 256"
  shows "length (init_header bswap hash e) = 568 \<and> hd (init_header bswap hash e) = P8_PACKET_MAIN \<and>
    dec_hello (init_header bswap hash e) = hello_fields e \<and>
    of_nat (get_le 560 8 (init_header bswap hash e)) = hash (take 560 (init_header bswap hash e)) \<and>
    he_utc_offset (hello_fields e) = utc_hours (hv_utc e) \<and>
    init_header bswap hash (e\<lparr>hv_big := True\<rparr>) ! 2 = 1 \<and>
    drop 3 (take 560 (init_header bswap hash (e\<lparr>hv_big := True\<rparr>))) = drop 3 (take 560 (init_header bswap hash (e\<lparr>hv_big := False\<rparr>)))"
proof -
  let ?h = "hello_fields e"
  have p: "he_process ?h = hv_process e" "he_host ?h = hv_host e" "he_big ?h = hv_big e" "he_version ?h = P8_PROTOCOL_VERSION"
    "he_utc_offset ?h = utc_hours (hv_utc e)"
    by (simp_all add: hello_fields_def split: option.splits prod.splits)
  have q: "hello_fields (e\<lparr>hv_big := b\<rparr>) = ?h\<lparr>he_big := b\<rparr>" for b
    by (simp add: hello_fields_def split: option.split prod.split)
  show ?thesis
    using assms(2,3) p by (simp add: init_header_def host_bytes_le [OF assms(1)] Let_def dec_hello_def get_le_def sub_bytes_def q del: le_bytes.simps)
qed

definition demo_hello :: hello_env where
  "demo_hello = \<lparr>hv_big = True, hv_utc = - 19800, hv_pid = 42, hv_time = 7, hv_timer = None, hv_tick = 9, hv_freq = (1, 1),
     hv_process = replicate 256 0, hv_host = replicate 256 0\<rparr>"

lemma hello_decodes_witness: "he_utc_offset (dec_hello (init_header swap_bytes (\<lambda>_. 5) demo_hello)) = - 5"
proof -
  have "utc_hours (- 19800) = - 5" by code_simp
  with hello_decodes [OF swap_bytes_law, of demo_hello "\<lambda>_. 5"] show ?thesis by (simp add: demo_hello_def)
qed

end
