(* ===== verification/Lifecycle.thy ===== *)
theory Lifecycle
  imports Worker Config
begin

text \<open>
  Construction and destruction of \<^verbatim>\<open>cp8_core\<close> (\<^verbatim>\<open>engine/p8_core.cpp\<close>): the configuration, the pool, the
  sink with its fallback, the worker; and the shutdown that drains everything, closes the sink and
  returns the memory. The JSON library is a record of the accessors used, the sink behind
  \<^verbatim>\<open>mp_sink\<close> one of the two kinds with its operations dispatched as the virtual calls are, and every
  allocation is an answer of the environment. A result \<open>None\<close> of the constructor is an exception
  that leaves it.
\<close>

section \<open>The sink behind the pointer\<close>

datatype 'f any_sink = Null_sink u64 | File_sink "'f file_sink"

definition on_sink :: "(u64 \<Rightarrow> bool \<times> u64) \<Rightarrow> ('f file_sink \<Rightarrow> bool \<times> 'f file_sink) \<Rightarrow> 'f any_sink \<Rightarrow> bool \<times> 'f any_sink" where
  "on_sink f g s = (case s of Null_sink t \<Rightarrow> map_prod id Null_sink (f t) | File_sink t \<Rightarrow> map_prod id File_sink (g t))"

definition any_ops :: "'f file_ops \<Rightarrow> open_env \<Rightarrow> 'f any_sink sink_ops" where
  "any_ops fo e =
     (let n = null_sink_ops; f = file_sink_ops fo e
      in \<lparr>sk_open = on_sink (sk_open n) (sk_open f), sk_hello = (\<lambda>h. on_sink (sk_hello n h) (sk_hello f h)),
          sk_data = (\<lambda>b. on_sink (sk_data n b) (sk_data f b)), sk_service = (\<lambda>b. on_sink (sk_service n b) (sk_service f b)),
          sk_flush = (\<lambda>s. case s of Null_sink t \<Rightarrow> Null_sink (sk_flush n t) | File_sink t \<Rightarrow> File_sink (sk_flush f t)),
          sk_close = (\<lambda>s. case s of Null_sink t \<Rightarrow> Null_sink (sk_close n t) | File_sink t \<Rightarrow> File_sink (sk_close f t))\<rparr>)"

section \<open>The environment and the object\<close>

text \<open>The accessors of the JSON value: \<open>js_str\<close> is \<open>None\<close> where \<^verbatim>\<open>get\<close> throws, \<open>js_parse\<close> where parsing does.\<close>

record 'j json_ops =
  js_parse :: "string \<Rightarrow> 'j option"
  js_has :: "string \<Rightarrow> 'j \<Rightarrow> bool"
  js_at :: "string \<Rightarrow> 'j \<Rightarrow> 'j"
  js_str :: "'j \<Rightarrow> string option"

record ('j, 'f) core_env =
  ce_json :: "'j json_ops"
  ce_casecmp :: "string \<Rightarrow> string \<Rightarrow> bool"
  ce_bswap :: "nat \<Rightarrow> nat \<Rightarrow> nat"
  ce_hash :: "byte list \<Rightarrow> u64"
  ce_hello :: hello_env
  ce_file :: "'f file_ops"
  ce_open :: open_env
  ce_closed :: 'f
  ce_reallocs :: "bool list"
  ce_budget_ok :: bool
  ce_pool_ok :: bool
  ce_news :: "ptr list"
  ce_sink_ok :: bool
  ce_null_ok :: bool
  ce_event_ok :: bool
  ce_allocs :: "bool list"
  ce_mem :: "addr \<Rightarrow> byte list"
  ce_ticks :: u64

definition ce_ops :: "('j, 'f) core_env \<Rightarrow> 'f any_sink sink_ops" where
  "ce_ops e = any_ops (ce_file e) (ce_open e)"

text \<open>\<open>co_sys\<close> holds the registries, the pool, the writers and the sink; the flags say which of them exist.\<close>

record 'f core_obj =
  co_sys :: "(unit, 'f any_sink) sys"
  co_hdr :: "byte list"
  co_has_pool :: bool
  co_has_sink :: bool
  co_running :: bool

definition blank_core :: "('j, 'f) core_env \<Rightarrow> reg_core" where
  "blank_core e = \<lparr>c_initialized = False, c_pool = pool_new mz_data_buffer_size None [], c_mem = ce_mem e, c_ub = False,
     c_outstanding = 0, c_wake_pending = False, c_wakes = 0, c_ready = [], c_drop_logs = 0, c_drop_metrics = 0,
     c_drop_traces = 0, c_drop_svc = 0, c_svc = [], c_allocs = ce_allocs e, c_attrs = [], c_attr_names = Map.empty,
     c_mods = [], c_mod_names = Map.empty, c_verbosity = 0, c_log_descs = Map.empty, c_mtks = [],
     c_mtk_names = Map.empty, c_mtk_count = 0\<rparr>"

definition blank_obj :: "('j, 'f) core_env \<Rightarrow> 'f core_obj" where
  "blank_obj e = \<lparr>co_sys = \<lparr>sy_core = blank_core e, sy_writers = no_writers (\<lambda>_. writer_new 0 0), sy_sink = Null_sink 0, sy_last = 0\<rparr>,
     co_hdr = [], co_has_pool = False, co_has_sink = False, co_running = False\<rparr>"

definition set_core :: "(reg_core \<Rightarrow> reg_core) \<Rightarrow> 'f core_obj \<Rightarrow> 'f core_obj" where
  "set_core f ob = ob\<lparr>co_sys := (co_sys ob)\<lparr>sy_core := f (sy_core (co_sys ob))\<rparr>\<rparr>"

definition set_sink :: "'f any_sink \<Rightarrow> 'f core_obj \<Rightarrow> 'f core_obj" where
  "set_sink s ob = ob\<lparr>co_sys := (co_sys ob)\<lparr>sy_sink := s\<rparr>, co_has_sink := True\<rparr>"

section \<open>Construction\<close>

text \<open>A string of the configuration: empty when the key is missing.\<close>

definition cfg_string :: "'j json_ops \<Rightarrow> string \<Rightarrow> 'j \<Rightarrow> string option" where
  "cfg_string jo key j = (if js_has jo key j then js_str jo (js_at jo key j) else Some [])"

text \<open>The pointer passed on: null for an empty string, otherwise its \<^verbatim>\<open>c_str\<close>, which ends at the first NUL.\<close>

definition nonempty :: "string \<Rightarrow> string option" where
  "nonempty s = (if s = [] then None else Some (takeWhile (\<lambda>c. c \<noteq> CHR 0x00) s))"

definition size_or :: "(string \<Rightarrow> string \<Rightarrow> bool) \<Rightarrow> u64 \<Rightarrow> string option \<Rightarrow> u64 option" where
  "size_or casecmp d s = (case s of None \<Rightarrow> Some d | Some x \<Rightarrow> parse_size casecmp x)"

definition init_buffer_pool :: "('j, 'f) core_env \<Rightarrow> string option \<Rightarrow> string option \<Rightarrow> 'f core_obj \<Rightarrow> bool \<times> 'f core_obj" where
  "init_buffer_pool e mx ini ob =
     (case size_or (ce_casecmp e) (16 * (1024 * 1024)) mx of
        None \<Rightarrow> (False, ob)
      | Some m \<Rightarrow>
          (case size_or (ce_casecmp e) (1024 * 1024) ini of
             None \<Rightarrow> (False, ob)
           | Some i0 \<Rightarrow>
               (let i = (if m < i0 then m else i0)
                in if \<not> ce_budget_ok e then (False, ob)
                   else if 2 * 2 ^ 16 < mz_data_buffer_size then (False, ob)
                   else if \<not> ce_pool_ok e then (False, ob)
                   else let p = snd (pool_init (unat i div mz_data_buffer_size)
                              (pool_new mz_data_buffer_size (Some (new_budget m)) (ce_news e)))
                     in (True, (set_core (\<lambda>c. c\<lparr>c_pool := p\<rparr>) ob)\<lparr>co_has_pool := True\<rparr>))))"

text \<open>
  \<open>create_sink\<close>: the outer \<open>None\<close> is an exception of the file sink's constructor, the inner one the
  null pointer.
\<close>

definition file_section :: "'j json_ops \<Rightarrow> 'j \<Rightarrow> string option option option" where
  "file_section jo j =
     (if \<not> js_has jo ''FileBin'' j then None
      else let s = js_at jo ''FileBin'' j
        in if \<not> js_has jo ''OutDir'' s then Some None
           else Some (Some (js_str jo (js_at jo ''OutDir'' s))))"

definition create_sink :: "('j, 'f) core_env \<Rightarrow> string option \<Rightarrow> 'j \<Rightarrow> 'f any_sink option option" where
  "create_sink e v j =
     (let null = Some (if ce_sink_ok e then Some (Null_sink 0) else None)
      in case v of
           None \<Rightarrow> null
         | Some s \<Rightarrow>
             (if s = ''file.bin''
              then (if \<not> ce_sink_ok e then Some None
                    else case file_sink_new (file_section (ce_json e) j) (ce_closed e) (ce_reallocs e) of
                        None \<Rightarrow> None
                      | Some f \<Rightarrow> Some (Some (File_sink f)))
              else if s = ''network.tcp'' then Some None
              else if s = ''null'' then null
              else Some None))"

text \<open>The worker reads the clock once before its loop.\<close>

definition start_worker :: "('j, 'f) core_env \<Rightarrow> 'f core_obj \<Rightarrow> 'f core_obj" where
  "start_worker e ob =
     (if ce_event_ok e then ob\<lparr>co_running := True, co_sys := (co_sys ob)\<lparr>sy_last := ce_ticks e\<rparr>\<rparr> else ob)"

text \<open>The end of the constructor once the sink is open: the hello packet, then the worker.\<close>

definition go_live :: "('j, 'f) core_env \<Rightarrow> 'f any_sink \<Rightarrow> 'f core_obj \<Rightarrow> 'f core_obj" where
  "go_live e s ob =
     start_worker e (set_core (\<lambda>c. c\<lparr>c_initialized := True\<rparr>) (set_sink (snd (sk_hello (ce_ops e) (co_hdr ob) s)) ob))"

definition open_sink :: "('j, 'f) core_env \<Rightarrow> 'f any_sink \<Rightarrow> 'f core_obj \<Rightarrow> 'f core_obj" where
  "open_sink e s ob =
     (case sk_open (ce_ops e) s of
        (True, s1) \<Rightarrow> go_live e s1 ob
      | (False, _) \<Rightarrow>
          (if \<not> ce_null_ok e then ob
           else case sk_open (ce_ops e) (Null_sink 0) of
               (True, s1) \<Rightarrow> go_live e s1 ob
             | (False, _) \<Rightarrow> ob))"

definition core_ctor :: "('j, 'f) core_env \<Rightarrow> string option \<Rightarrow> 'f core_obj option" where
  "core_ctor e cfg =
     (let ob = blank_obj e; jo = ce_json e in
      case cfg of None \<Rightarrow> Some ob | Some txt \<Rightarrow>
      (case js_parse jo txt of None \<Rightarrow> Some ob | Some j \<Rightarrow>
      (case cfg_string jo ''max_memory_size'' j of None \<Rightarrow> None | Some mx \<Rightarrow>
      (case cfg_string jo ''initial_memory_size'' j of None \<Rightarrow> None | Some ini \<Rightarrow>
      (case init_buffer_pool e (nonempty mx) (nonempty ini) ob of
         (False, ob1) \<Rightarrow> Some ob1
       | (True, ob1) \<Rightarrow>
           (let ob2 = ob1\<lparr>co_hdr := init_header (ce_bswap e) (ce_hash e) (ce_hello e)\<rparr> in
            case cfg_string jo ''sink'' j of None \<Rightarrow> None | Some sv \<Rightarrow>
            (case create_sink e (nonempty sv) j of
               None \<Rightarrow> None
             | Some None \<Rightarrow> Some ob2
             | Some (Some s) \<Rightarrow> Some (open_sink e s ob2))))))))"

section \<open>Destruction\<close>

text \<open>
  \<open>stop_worker\<close>: the waiters are released first, then the worker is signalled and joined; \<open>us\<close> are
  the wake-ups it still gets. \<open>None\<close> if it would not come back.
\<close>

definition stop_worker :: "('j, 'f) core_env \<Rightarrow> u64 \<Rightarrow> unit wakeup list \<Rightarrow> 'f core_obj \<Rightarrow> 'f core_obj option" where
  "stop_worker e interval us ob =
     (if \<not> co_running ob then Some ob
      else case (if co_has_pool ob then map_option fst (stop_waiters (c_pool (sy_core (co_sys ob)))) else Some (c_pool (sy_core (co_sys ob)))) of
          None \<Rightarrow> None
        | Some p \<Rightarrow>
            map_option (\<lambda>sy. ob\<lparr>co_sys := sy, co_running := False\<rparr>)
              (worker_main (ce_ops e) interval us (co_sys (set_core (\<lambda>c. c\<lparr>c_pool := p\<rparr>) ob))))"

text \<open>Everything the registries own is freed; the last references to service buffers are dropped.\<close>

definition clear_registries :: "reg_core \<Rightarrow> reg_core" where
  "clear_registries c = c\<lparr>c_log_descs := Map.empty, c_attrs := [], c_attr_names := Map.empty, c_mods := [],
     c_mod_names := Map.empty, c_mtks := [], c_mtk_names := Map.empty, c_svc := []\<rparr>"

definition core_dtor :: "('j, 'f) core_env \<Rightarrow> u64 \<Rightarrow> unit wakeup list \<Rightarrow> 'f core_obj \<Rightarrow> 'f core_obj option" where
  "core_dtor e interval us ob =
     map_option (\<lambda>ob1.
        (let sy = co_sys ob1;
             s1 = (if co_has_sink ob1 then sk_close (ce_ops e) (sy_sink sy) else sy_sink sy);
             c1 = clear_registries (sy_core sy);
             c2 = (if co_has_pool ob1 then c1\<lparr>c_pool := pool_destroy (c_pool c1)\<rparr> else c1)
         in ob1\<lparr>co_sys := sy\<lparr>sy_sink := s1, sy_core := c2\<rparr>, co_has_sink := False, co_has_pool := False\<rparr>))
       (stop_worker e interval us ob)"

section \<open>What the constructor makes of its configuration\<close>

lemma null_opens [simp]: "sk_open (ce_ops e) (Null_sink t) = (True, Null_sink 0)"
  by (simp add: ce_ops_def any_ops_def on_sink_def null_sink_ops_def Let_def)

lemma null_hello_any [simp]: "sk_hello (ce_ops e) h (Null_sink t) = (True, Null_sink (t + of_nat (length h)))"
  by (simp add: ce_ops_def any_ops_def on_sink_def null_sink_ops_def null_hello_def Let_def)

lemma file_opens [simp]: "sk_open (ce_ops e) (File_sink f) = map_prod id File_sink (file_open (ce_file e) (ce_open e) f)"
  by (simp add: ce_ops_def any_ops_def on_sink_def file_sink_ops_def Let_def)

lemma file_hello_any: "snd (sk_hello (ce_ops e) h (File_sink f)) \<noteq> Null_sink t"
  by (cases "sk_hello (file_sink_ops (ce_file e) (ce_open e)) h f")
    (simp add: ce_ops_def any_ops_def on_sink_def Let_def)

lemma go_live_simps [simp]:
  "c_initialized (sy_core (co_sys (go_live e s ob)))" "co_has_sink (go_live e s ob)"
  "sy_sink (co_sys (go_live e s ob)) = snd (sk_hello (ce_ops e) (co_hdr ob) s)"
  "co_running (go_live e s ob) = (ce_event_ok e \<or> co_running ob)"
  by (simp_all add: go_live_def start_worker_def set_core_def set_sink_def)

lemma init_buffer_pool_frame:
  "init_buffer_pool e mx ini ob = (b, ob1) \<Longrightarrow> c_initialized (sy_core (co_sys ob1)) = c_initialized (sy_core (co_sys ob)) \<and>
   co_has_sink ob1 = co_has_sink ob \<and> co_running ob1 = co_running ob"
  by (auto simp: init_buffer_pool_def set_core_def Let_def split: option.splits if_splits)

text \<open>
  C24: What the constructor makes of the configured sink, once the JSON and the memory sizes are accepted.
  Without one or with \<open>null\<close> the core runs on the null sink; a file sink that does not open is
  replaced by it; but for \<open>network.tcp\<close> and for unknown names there is no fallback: the core is not
  initialised. A value that is not a string makes the constructor throw.
\<close>

theorem core_ctor_sinks:
  assumes "js_parse (ce_json e) txt = Some j" and "cfg_string (ce_json e) ''max_memory_size'' j = Some mx"
    and "cfg_string (ce_json e) ''initial_memory_size'' j = Some ini"
    and "init_buffer_pool e (nonempty mx) (nonempty ini) (blank_obj e) = (True, ob1)" and "ce_sink_ok e" and "ce_null_ok e"
  shows "(cfg_string (ce_json e) ''sink'' j = None \<longrightarrow> core_ctor e (Some txt) = None) \<and>
    (\<forall>sv. cfg_string (ce_json e) ''sink'' j = Some sv \<longrightarrow>
      (nonempty sv \<in> {None, Some ''null''} \<longrightarrow> (\<exists>ob t. core_ctor e (Some txt) = Some ob \<and> c_initialized (sy_core (co_sys ob)) \<and>
         sy_sink (co_sys ob) = Null_sink t)) \<and>
      (nonempty sv \<notin> {None, Some ''null'', Some ''file.bin''} \<longrightarrow> (\<exists>ob. core_ctor e (Some txt) = Some ob \<and>
         \<not> c_initialized (sy_core (co_sys ob)) \<and> \<not> co_has_sink ob)) \<and>
      (nonempty sv = Some ''file.bin'' \<longrightarrow>
         (case file_sink_new (file_section (ce_json e) j) (ce_closed e) (ce_reallocs e) of
            None \<Rightarrow> core_ctor e (Some txt) = None
          | Some f \<Rightarrow> (\<exists>ob. core_ctor e (Some txt) = Some ob \<and> c_initialized (sy_core (co_sys ob)) \<and>
              ((\<exists>t. sy_sink (co_sys ob) = Null_sink t) \<longleftrightarrow> \<not> fst (file_open (ce_file e) (ce_open e) f))))))"
proof -
  let ?ob2 = "ob1\<lparr>co_hdr := init_header (ce_bswap e) (ce_hash e) (ce_hello e)\<rparr>"
  have fr: "\<not> c_initialized (sy_core (co_sys ob1))" "\<not> co_has_sink ob1"
    using init_buffer_pool_frame [OF assms(4)] by (simp_all add: blank_obj_def blank_core_def)
  have ctor: "core_ctor e (Some txt) = (case cfg_string (ce_json e) ''sink'' j of None \<Rightarrow> None | Some sv \<Rightarrow>
      (case create_sink e (nonempty sv) j of None \<Rightarrow> None | Some None \<Rightarrow> Some ?ob2 | Some (Some s) \<Rightarrow> Some (open_sink e s ?ob2)))"
    using assms(1-4) by (simp add: core_ctor_def Let_def)
  have null: "sy_sink (co_sys (open_sink e (Null_sink 0) ?ob2)) = Null_sink (of_nat (length (co_hdr ?ob2)))"
    "c_initialized (sy_core (co_sys (open_sink e (Null_sink 0) ?ob2)))" by (simp_all add: open_sink_def)
  have onfile: "c_initialized (sy_core (co_sys (open_sink e (File_sink f) ?ob2))) \<and>
      ((\<exists>t. sy_sink (co_sys (open_sink e (File_sink f) ?ob2)) = Null_sink t) \<longleftrightarrow> \<not> fst (file_open (ce_file e) (ce_open e) f))" for f
  proof (cases "file_open (ce_file e) (ce_open e) f")
    case (Pair b f1)
    then show ?thesis using assms(6) file_hello_any by (cases b) (auto simp: open_sink_def)
  qed
  show ?thesis
  proof (intro conjI impI allI)
    fix sv assume sv: "cfg_string (ce_json e) ''sink'' j = Some sv"
    { assume "nonempty sv \<in> {None, Some ''null''}"
      then have "create_sink e (nonempty sv) j = Some (Some (Null_sink 0))"
        using assms(5) by (auto simp: create_sink_def)
      then show "\<exists>ob t. core_ctor e (Some txt) = Some ob \<and> c_initialized (sy_core (co_sys ob)) \<and> sy_sink (co_sys ob) = Null_sink t"
        using null sv ctor by simp }
    { assume "nonempty sv \<notin> {None, Some ''null'', Some ''file.bin''}"
      then have "create_sink e (nonempty sv) j = Some None" by (auto simp: create_sink_def Let_def split: option.split)
      then show "\<exists>ob. core_ctor e (Some txt) = Some ob \<and> \<not> c_initialized (sy_core (co_sys ob)) \<and> \<not> co_has_sink ob"
        using fr sv ctor by simp }
    { assume "nonempty sv = Some ''file.bin''"
      then have "create_sink e (nonempty sv) j = (case file_sink_new (file_section (ce_json e) j) (ce_closed e) (ce_reallocs e) of
          None \<Rightarrow> None | Some f \<Rightarrow> Some (Some (File_sink f)))"
        using assms(5) by (simp add: create_sink_def Let_def)
      then show "case file_sink_new (file_section (ce_json e) j) (ce_closed e) (ce_reallocs e) of
            None \<Rightarrow> core_ctor e (Some txt) = None
          | Some f \<Rightarrow> (\<exists>ob. core_ctor e (Some txt) = Some ob \<and> c_initialized (sy_core (co_sys ob)) \<and>
              ((\<exists>t. sy_sink (co_sys ob) = Null_sink t) \<longleftrightarrow> \<not> fst (file_open (ce_file e) (ce_open e) f)))"
        using onfile sv ctor by (simp split: option.split) }
  qed (use ctor in simp)
qed

text \<open>A flat JSON object for the witnesses: keys with strings, a string itself under the empty key.\<close>

definition demo_json :: "(string \<times> string) list json_ops" where
  "demo_json = \<lparr>js_parse = (\<lambda>txt. Some [(''sink'', txt)]), js_has = (\<lambda>k j. k \<in> fst ` set j),
     js_at = (\<lambda>k j. [([], the (map_of j k))]), js_str = (\<lambda>j. map_of j [])\<rparr>"

definition demo_core_env :: "((string \<times> string) list, bool \<times> byte list \<times> nat list) core_env" where
  "demo_core_env = \<lparr>ce_json = demo_json, ce_casecmp = (=), ce_bswap = swap_bytes, ce_hash = (\<lambda>_. 0), ce_hello = demo_hello, ce_file = demo_fo,
     ce_open = demo_open_env, ce_closed = (False, [], []), ce_reallocs = [], ce_budget_ok = True, ce_pool_ok = True,
     ce_news = [], ce_sink_ok = True, ce_null_ok = True, ce_event_ok = True, ce_allocs = [], ce_mem = (\<lambda>_. []), ce_ticks = 0\<rparr>"

lemma demo_core_env_cfg:
  "js_parse (ce_json demo_core_env) ''network.tcp'' = Some [(''sink'', ''network.tcp'')]"
  "cfg_string (ce_json demo_core_env) ''max_memory_size'' [(''sink'', ''network.tcp'')] = Some []"
  "cfg_string (ce_json demo_core_env) ''initial_memory_size'' [(''sink'', ''network.tcp'')] = Some []"
  "cfg_string (ce_json demo_core_env) ''sink'' [(''sink'', ''network.tcp'')] = Some ''network.tcp''"
  "\<exists>ob1. init_buffer_pool demo_core_env (nonempty []) (nonempty []) (blank_obj demo_core_env) = (True, ob1)"
  by (simp_all add: demo_core_env_def demo_json_def cfg_string_def init_buffer_pool_def nonempty_def size_or_def
      mz_data_buffer_size_def Let_def)

lemma core_ctor_sinks_witness:
  "\<exists>ob. core_ctor demo_core_env (Some ''network.tcp'') = Some ob \<and> \<not> c_initialized (sy_core (co_sys ob))"
proof -
  obtain ob1 where "init_buffer_pool demo_core_env (nonempty []) (nonempty []) (blank_obj demo_core_env) = (True, ob1)"
    using demo_core_env_cfg(5) by blast
  moreover have "ce_sink_ok demo_core_env" "ce_null_ok demo_core_env" by (simp_all add: demo_core_env_def)
  ultimately show ?thesis
    using core_ctor_sinks [OF demo_core_env_cfg(1-3)] demo_core_env_cfg(4) by (auto simp: nonempty_def)
qed

section \<open>Shutdown\<close>

lemma stop_waiters_empties:
  assumes "wq_abs (pl_waitq p) ts"
  obtains q cvs where "stop_waiters p = Some (p\<lparr>pl_stopping := True, pl_waitq := q\<rparr>, cvs)" "wq_abs q []"
  by (rule wq_drain_abs [OF assms]) (simp add: stop_waiters_def Let_def)

lemma destroy_exact:
  assumes "budget_exact p" "pl_budget p = Some b"
  shows "pl_all (pool_destroy p) = [] \<and> (\<exists>b'. pl_budget (pool_destroy p) = Some b' \<and> bd_used b' = 0)"
proof -
  have used: "unat (bd_used b) = length (pl_all p) * pl_bufsz p" using assms by (simp add: budget_exact_def)
  then have "(of_nat (length (pl_all p) * pl_bufsz p) :: u64) = bd_used b" by (simp flip: used)
  then show ?thesis
    using assms(2) used by (auto simp: pool_destroy_def release_def Let_def unat_eq_zero)
qed

lemma shutdown_quiet:
  assumes "co_running ob" and "co_has_pool ob" and "co_has_sink ob" and "sy = co_sys ob" and "c_initialized (sy_core sy)"
    and "ws_abs (sy_writers sy) xs" and "wq_abs (pl_waitq (c_pool (sy_core sy))) ts"
    and "budget_exact (c_pool (sy_core sy))" and "pl_budget (c_pool (sy_core sy)) = Some b"
    and "data = c_ready (sy_core sy) @ held_all (sy_writers sy) xs"
  shows "\<exists>ob'. core_dtor e interval [\<lparr>wu_signal = mu_event_stop, wu_now = t, wu_hooks = quiet\<rparr>] ob = Some ob' \<and>
    sy_sink (co_sys ob') = sk_close (ce_ops e) (snd (sink_run (ce_ops e)
      (pass_calls (svc_view (sy_core sy) (c_svc (sy_core sy))) (map (c_mem (sy_core sy)) data)) (sy_sink sy))) \<and>
    c_ready (sy_core (co_sys ob')) = [] \<and> c_svc (sy_core (co_sys ob')) = [] \<and> held_all (sy_writers (co_sys ob')) xs = [] \<and>
    pl_all (c_pool (sy_core (co_sys ob'))) = [] \<and>
    (\<exists>b'. pl_budget (c_pool (sy_core (co_sys ob'))) = Some b' \<and> bd_used b' = 0) \<and> \<not> co_running ob' \<and> \<not> co_has_sink ob'"
proof -
  obtain q cvs where q: "stop_waiters (c_pool (sy_core sy)) = Some ((c_pool (sy_core sy))\<lparr>pl_stopping := True, pl_waitq := q\<rparr>, cvs)"
    "wq_abs q []" by (rule stop_waiters_empties [OF assms(7)])
  let ?p = "(c_pool (sy_core sy))\<lparr>pl_stopping := True, pl_waitq := q\<rparr>"
  define sy1 where "sy1 = sy\<lparr>sy_core := (sy_core sy)\<lparr>c_pool := ?p\<rparr>\<rparr>"
  have s1: "ws_abs (sy_writers sy1) xs" "c_initialized (sy_core sy1)" "wq_abs (pl_waitq (c_pool (sy_core sy1))) []"
    using assms(5,6) q(2) by (simp_all add: sy1_def)
  have data1: "data = c_ready (sy_core sy1) @ held_all (sy_writers sy1) xs" using assms(10) by (simp add: sy1_def)
  from worker_pass_quiet [OF s1 data1 refl, of "ce_ops e" interval t] obtain sy2 where
    p: "worker_pass (ce_ops e) interval t quiet sy1 = Some sy2"
    "sy_sink sy2 = snd (sink_run (ce_ops e) (pass_calls (svc_view (sy_core sy1) (c_svc (sy_core sy1))) (map (c_mem (sy_core sy1)) data)) (sy_sink sy1))"
    "c_ready (sy_core sy2) = []" "held_all (sy_writers sy2) xs = []"
    "pl_all (c_pool (sy_core sy2)) = pl_all (c_pool (sy_core sy1))" "pl_budget (c_pool (sy_core sy2)) = pl_budget (c_pool (sy_core sy1))"
    "pl_bufsz (c_pool (sy_core sy2)) = pl_bufsz (c_pool (sy_core sy1))" by blast
  have "budget_exact (c_pool (sy_core sy2))" "pl_budget (c_pool (sy_core sy2)) = Some b"
    using assms(8,9) p(5-7) by (simp_all add: budget_exact_def sy1_def)
  note destroyed = destroy_exact [OF this]
  have "stop_worker e interval [\<lparr>wu_signal = mu_event_stop, wu_now = t, wu_hooks = quiet\<rparr>] ob = Some (ob\<lparr>co_sys := sy2, co_running := False\<rparr>)"
    using assms(1,2,4) q(1) p(1) by (simp add: stop_worker_def set_core_def sy1_def)
  then show ?thesis
    using assms(2,3) p(2-4) destroyed
    by (simp add: core_dtor_def clear_registries_def Let_def sy1_def svc_view_def)
qed

text \<open>
  C12: Destroying a running core loses nothing that was handed in: threads blocked for a buffer are let
  go, the worker's last pass hands the pending descriptors and every buffer in flight to the sink
  before the sink is closed, and then the pool gives all its memory back to the budget.
\<close>

theorem core_shutdown_delivers:
  assumes "co_running ob" and "co_has_pool ob" and "co_has_sink ob" and "sy = co_sys ob" and "c_initialized (sy_core sy)"
    and "ws_abs (sy_writers sy) xs" and "wq_abs (pl_waitq (c_pool (sy_core sy))) ts"
    and "budget_exact (c_pool (sy_core sy))" and "pl_budget (c_pool (sy_core sy)) = Some b"
    and "data = c_ready (sy_core sy) @ held_all (sy_writers sy) xs"
  shows "\<exists>ob'. core_dtor e interval [\<lparr>wu_signal = mu_event_stop, wu_now = t, wu_hooks = quiet\<rparr>] ob = Some ob' \<and>
    sy_sink (co_sys ob') = sk_close (ce_ops e) (snd (sink_run (ce_ops e)
      (pass_calls (svc_view (sy_core sy) (c_svc (sy_core sy))) (map (c_mem (sy_core sy)) data)) (sy_sink sy))) \<and>
    c_ready (sy_core (co_sys ob')) = [] \<and> c_svc (sy_core (co_sys ob')) = [] \<and> held_all (sy_writers (co_sys ob')) xs = [] \<and>
    pl_all (c_pool (sy_core (co_sys ob'))) = [] \<and>
    (\<exists>b'. pl_budget (c_pool (sy_core (co_sys ob'))) = Some b' \<and> bd_used b' = 0) \<and> \<not> co_running ob' \<and> \<not> co_has_sink ob'"
  by (rule shutdown_quiet [OF assms])
definition demo_obj :: "(bool \<times> byte list \<times> nat list) core_obj" where
  "demo_obj = \<lparr>co_sys = \<lparr>sy_core = (sy_core demo_sys)\<lparr>c_pool := (c_pool (sy_core demo_sys))\<lparr>pl_all := [1],
       pl_budget := Some \<lparr>bd_used = 8192, bd_max = 8192\<rparr>\<rparr>\<rparr>, sy_writers = sy_writers demo_sys, sy_sink = Null_sink 0, sy_last = 0\<rparr>,
     co_hdr = [], co_has_pool = True, co_has_sink = True, co_running = True\<rparr>"

lemma demo_obj_ok:
  "ws_abs (sy_writers (co_sys demo_obj)) [3, 2, 1]" "c_initialized (sy_core (co_sys demo_obj))"
  "wq_abs (pl_waitq (c_pool (sy_core (co_sys demo_obj)))) []"
  "budget_exact (c_pool (sy_core (co_sys demo_obj)))"
  "pl_budget (c_pool (sy_core (co_sys demo_obj))) = Some \<lparr>bd_used = 8192, bd_max = 8192\<rparr>"
  "co_running demo_obj" "co_has_pool demo_obj" "co_has_sink demo_obj"
  using demo_sys_ok(1-3)
  by (simp_all add: demo_obj_def budget_exact_def budget_ok_def demo_sys_def demo_reg_def pool_new_def mz_data_buffer_size_def)

lemma core_shutdown_delivers_witness:
  "\<exists>ob'. core_dtor demo_core_env 100 [\<lparr>wu_signal = mu_event_stop, wu_now = 0, wu_hooks = quiet\<rparr>] demo_obj = Some ob' \<and>
     pl_all (c_pool (sy_core (co_sys ob'))) = [] \<and> c_svc (sy_core (co_sys ob')) = []"
  using core_shutdown_delivers [OF demo_obj_ok(6-8) refl demo_obj_ok(2,1,3-5) refl, of demo_core_env 100 0] by blast

text \<open>
  A worker whose event cannot be created is never started, and nobody is told: the core still reports
  itself initialised, and stopping it is a no-op that leaves what was handed in where it is.
\<close>

theorem worker_start_failure_silent:
  assumes "\<not> ce_event_ok e" and "\<not> co_running ob"
  shows "c_initialized (sy_core (co_sys (go_live e s ob))) \<and> \<not> co_running (go_live e s ob) \<and>
    stop_worker e interval us (go_live e s ob) = Some (go_live e s ob) \<and>
    (\<exists>ob'. core_dtor e interval us (go_live e s ob) = Some ob' \<and>
       sy_sink (co_sys ob') = sk_close (ce_ops e) (snd (sk_hello (ce_ops e) (co_hdr ob) s)) \<and>
       c_ready (sy_core (co_sys ob')) = c_ready (sy_core (co_sys ob)))"
proof -
  have nr: "\<not> co_running (go_live e s ob)" using assms by simp
  then have stop: "stop_worker e interval us (go_live e s ob) = Some (go_live e s ob)" by (simp add: stop_worker_def)
  then show ?thesis using nr assms
    by (simp add: core_dtor_def clear_registries_def Let_def go_live_def start_worker_def set_core_def set_sink_def)
qed

end
