(* ===== verification/Globals.thy ===== *)
theory Globals
  imports Lifecycle
begin

text \<open>
  The global instance and its references: \<^verbatim>\<open>gp_instance\<close> and the shared-memory segment through which the
  modules of a process find one core (\<^verbatim>\<open>p8_initialize\<close>, \<^verbatim>\<open>p8_release\<close> and \<^verbatim>\<open>get_global_core\<close> in
  \<^verbatim>\<open>engine/p8_core.cpp\<close>), the reference count, and the thread-local objects that hold references
  (\<^verbatim>\<open>engine/p8_tls_writer.cpp\<close>, \<^verbatim>\<open>engine/p8_trc.cpp\<close>). The segment is \<^verbatim>\<open>c_shared\<close> of kit, a parameter;
  what is relied on is \<open>shm_law\<close>. A result \<open>None\<close> of an operation is an exception that leaves the API
  or a worker that never stops.
\<close>

section \<open>State\<close>

text \<open>
  \<open>sm_read\<close> is the pointer stored in the segment, \<open>None\<close> if there is no segment or the pointer is
  null; \<open>sm_create\<close> publishes a pointer unless there is a segment already.
\<close>

record 's shm_ops =
  sm_read :: "'s \<Rightarrow> addr option"
  sm_create :: "addr \<Rightarrow> 's \<Rightarrow> 's option"
  sm_lock :: "nat \<Rightarrow> 's \<Rightarrow> bool \<times> 's"
  sm_unlock :: "'s \<Rightarrow> 's"
  sm_close :: "'s \<Rightarrow> 's"
  sm_unlink :: "'s \<Rightarrow> 's"

definition shm_law :: "'s shm_ops \<Rightarrow> bool" where
  "shm_law sm \<longleftrightarrow>
     (\<forall>a s s'. sm_create sm a s = Some s' \<longrightarrow> sm_read sm s' = Some a) \<and>
     (\<forall>n s. sm_read sm (snd (sm_lock sm n s)) = sm_read sm s) \<and>
     (\<forall>s. sm_read sm (sm_unlock sm s) = sm_read sm s) \<and>
     (\<forall>s. sm_read sm (sm_unlink sm s) = None)"

text \<open>
  The cores of the process with their reference counts, those destroyed so far with what they were in the
  end, whether a pointer to no core has been followed, and the segment.
\<close>

record ('s, 'f) world =
  gw_cores :: "addr \<Rightarrow> (u32 \<times> 'f core_obj) option"
  gw_dead :: "(addr \<times> 'f core_obj) list"
  gw_bad :: bool
  gw_shm :: 's

text \<open>The statics of a module: \<^verbatim>\<open>gp_instance\<close>, and whether \<^verbatim>\<open>gp_shm_handle\<close> is set.\<close>

record dso =
  ds_instance :: "addr option"
  ds_handle :: bool

text \<open>What a destruction meets: the clock interval and the wake-ups the worker still gets.\<close>

record ('j, 'f) shutdown =
  sd_env :: "('j, 'f) core_env"
  sd_interval :: u64
  sd_wakes :: "unit wakeup list"

section \<open>References\<close>

text \<open>An access through a pointer to a core: \<open>f\<close> is what it does to the object.\<close>

definition use_core :: "addr \<Rightarrow> ('f core_obj \<Rightarrow> 'f core_obj) \<Rightarrow> ('s, 'f) world \<Rightarrow> ('s, 'f) world" where
  "use_core a f w =
     (case gw_cores w a of
        None \<Rightarrow> w\<lparr>gw_bad := True\<rparr>
      | Some (n, ob) \<Rightarrow> w\<lparr>gw_cores := (gw_cores w)(a \<mapsto> (n, f ob))\<rparr>)"

definition addref :: "addr \<Rightarrow> ('s, 'f) world \<Rightarrow> ('s, 'f) world" where
  "addref a w =
     (case gw_cores w a of
        None \<Rightarrow> w\<lparr>gw_bad := True\<rparr>
      | Some (n, ob) \<Rightarrow> w\<lparr>gw_cores := (gw_cores w)(a \<mapsto> (n + 1, ob))\<rparr>)"

definition delete_core :: "('j, 'f) shutdown \<Rightarrow> addr \<Rightarrow> ('s, 'f) world \<Rightarrow> ('s, 'f) world option" where
  "delete_core sd a w =
     (case gw_cores w a of
        None \<Rightarrow> Some (w\<lparr>gw_bad := True\<rparr>)
      | Some (n, ob) \<Rightarrow>
          map_option (\<lambda>ob'. w\<lparr>gw_cores := (gw_cores w)(a := None), gw_dead := gw_dead w @ [(a, ob')]\<rparr>)
            (core_dtor (sd_env sd) (sd_interval sd) (sd_wakes sd) ob))"

text \<open>\<open>release\<close> tests the count before the decrement, in 32-bit arithmetic.\<close>

definition release_ref :: "('j, 'f) shutdown \<Rightarrow> addr \<Rightarrow> ('s, 'f) world \<Rightarrow> ('s, 'f) world option" where
  "release_ref sd a w =
     (case gw_cores w a of
        None \<Rightarrow> Some (w\<lparr>gw_bad := True\<rparr>)
      | Some (n, ob) \<Rightarrow>
          (let w1 = w\<lparr>gw_cores := (gw_cores w)(a \<mapsto> (n - 1, ob))\<rparr>
           in if n = 1 then delete_core sd a w1 else Some w1))"

section \<open>Finding the core\<close>

text \<open>
  The polling loop: \<open>view k\<close> is what the \<open>k\<close>-th attempt to lock and read the segment yields. The
  elapsed time is counted in 32 bits; \<open>None\<close> if the loop never ends.
\<close>

partial_function (option) poll_core :: "(nat \<Rightarrow> addr option) \<Rightarrow> u32 \<Rightarrow> u32 \<Rightarrow> nat \<Rightarrow> addr option option" where
  "poll_core view timeout elapsed k =
     (if elapsed < timeout
      then (case view k of
          Some a \<Rightarrow> Some (Some a)
        | None \<Rightarrow> poll_core view timeout (elapsed + 10) (k + 1))
      else Some None)"

definition P8_CORE_ACQUIRE_TIMEOUT_MS :: u32 where "P8_CORE_ACQUIRE_TIMEOUT_MS = 100"

definition get_global_core :: "(nat \<Rightarrow> addr option) \<Rightarrow> u32 \<Rightarrow> dso \<Rightarrow> (addr option \<times> dso) option" where
  "get_global_core view timeout d =
     (case ds_instance d of
        Some a \<Rightarrow> Some (Some a, d)
      | None \<Rightarrow>
          map_option (\<lambda>r. case r of None \<Rightarrow> (None, d) | Some a \<Rightarrow> (Some a, d\<lparr>ds_instance := Some a\<rparr>))
            (poll_core view timeout 0 0))"

text \<open>One attempt on a given state of the segment: \<^verbatim>\<open>lock\<close> with a timeout of 10 ms, then \<^verbatim>\<open>read\<close>.\<close>

definition shm_view :: "'s shm_ops \<Rightarrow> 's \<Rightarrow> addr option" where
  "shm_view sm s = (case sm_lock sm 10 s of (ok, s1) \<Rightarrow> if ok then sm_read sm s1 else None)"

section \<open>The API\<close>

text \<open>
  What \<^verbatim>\<open>p8_initialize\<close> meets: the configuration (with its JSON text) or a null pointer, the address of
  the new object if there is memory, and what another module does to the segment meanwhile.
\<close>

record ('s, 'j, 'f) init_env =
  ie_config :: "string option option"
  ie_new :: ptr
  ie_core :: "('j, 'f) core_env"
  ie_race :: "'s \<Rightarrow> 's"
  ie_down :: "('j, 'f) shutdown"

definition lost_race :: "'s shm_ops \<Rightarrow> dso \<Rightarrow> ('s, 'f) world \<Rightarrow> bool \<times> dso \<times> ('s, 'f) world" where
  "lost_race sm d w =
     (case sm_lock sm 5000 (gw_shm w) of
        (False, s) \<Rightarrow> (False, d, w\<lparr>gw_shm := s\<rparr>)
      | (True, s) \<Rightarrow>
          (case sm_read sm s of
             Some b \<Rightarrow> (True, d\<lparr>ds_instance := Some b\<rparr>, w\<lparr>gw_shm := sm_unlock sm s\<rparr>)
           | None \<Rightarrow> (False, d, w\<lparr>gw_shm := sm_unlock sm s\<rparr>)))"

definition publish :: "'s shm_ops \<Rightarrow> ('s, 'j, 'f) init_env \<Rightarrow> addr \<Rightarrow> dso \<Rightarrow> ('s, 'f) world \<Rightarrow> (bool \<times> dso \<times> ('s, 'f) world) option" where
  "publish sm ie a d w =
     (case sm_create sm a (ie_race ie (gw_shm w)) of
        Some s \<Rightarrow> Some (True, d\<lparr>ds_instance := Some a, ds_handle := True\<rparr>, w\<lparr>gw_shm := s\<rparr>)
      | None \<Rightarrow> map_option (lost_race sm d) (delete_core (ie_down ie) a (w\<lparr>gw_shm := ie_race ie (gw_shm w)\<rparr>)))"

definition p8_initialize :: "'s shm_ops \<Rightarrow> ('s, 'j, 'f) init_env \<Rightarrow> dso \<Rightarrow> ('s, 'f) world \<Rightarrow> (bool \<times> dso \<times> ('s, 'f) world) option" where
  "p8_initialize sm ie d w =
     (if ds_instance d \<noteq> None then Some (True, d, w)
      else case sm_read sm (gw_shm w) of
          Some a \<Rightarrow> Some (True, d\<lparr>ds_instance := Some a\<rparr>, w)
        | None \<Rightarrow>
      (case ie_config ie of None \<Rightarrow> Some (False, d, w) | Some cfg \<Rightarrow>
      (case ie_new ie of None \<Rightarrow> Some (False, d, w) | Some a \<Rightarrow>
      (case core_ctor (ie_core ie) cfg of None \<Rightarrow> None | Some ob \<Rightarrow>
         (let w1 = w\<lparr>gw_cores := (gw_cores w)(a \<mapsto> (1, ob))\<rparr>
          in if \<not> c_initialized (sy_core (co_sys ob))
             then map_option (\<lambda>w2. (False, d, w2)) (delete_core (ie_down ie) a w1)
             else publish sm ie a d w1)))))"

definition p8_get_initialized :: "dso \<Rightarrow> ('s, 'f) world \<Rightarrow> bool \<times> ('s, 'f) world" where
  "p8_get_initialized d w =
     (case ds_instance d of
        None \<Rightarrow> (False, w)
      | Some a \<Rightarrow>
          (case gw_cores w a of
             None \<Rightarrow> (False, w\<lparr>gw_bad := True\<rparr>)
           | Some (n, ob) \<Rightarrow> (c_initialized (sy_core (co_sys ob)), w)))"

text \<open>
  \<^verbatim>\<open>p8_release\<close> in its three parts, between which other threads run: the handle is closed and the segment
  unlinked; the reference is given back; and only then \<^verbatim>\<open>gp_instance\<close> is cleared.
\<close>

definition release_unlink :: "'s shm_ops \<Rightarrow> dso \<Rightarrow> ('s, 'f) world \<Rightarrow> dso \<times> ('s, 'f) world" where
  "release_unlink sm d w =
     (d\<lparr>ds_handle := False\<rparr>, w\<lparr>gw_shm := sm_unlink sm (if ds_handle d then sm_close sm (gw_shm w) else gw_shm w)\<rparr>)"

definition release_clear :: "dso \<Rightarrow> dso" where
  "release_clear d = d\<lparr>ds_instance := None\<rparr>"

definition p8_release :: "'s shm_ops \<Rightarrow> ('j, 'f) shutdown \<Rightarrow> dso \<Rightarrow> ('s, 'f) world \<Rightarrow> (dso \<times> ('s, 'f) world) option" where
  "p8_release sm sd d w =
     (case ds_instance d of
        None \<Rightarrow> Some (d, w)
      | Some a \<Rightarrow>
          (case release_unlink sm d w of (d1, w1) \<Rightarrow> map_option (\<lambda>w2. (release_clear d1, w2)) (release_ref sd a w1)))"

section \<open>Thread-local objects\<close>

text \<open>
  The constructor of an object looks the core up (\<open>get_global_core\<close>) and then, as a step of its own, that of a
  writer (\<^verbatim>\<open>cp8_log\<close>, \<^verbatim>\<open>cp8_mtk\<close>) takes a reference, the buffer size and a place in the registry through the pointer
  it found; that of \<^verbatim>\<open>cp8_trc\<close> only the reference. \<open>i\<close> is the address of the object.
\<close>

definition map_sys :: "((unit, 'f any_sink) sys \<Rightarrow> (unit, 'f any_sink) sys) \<Rightarrow> 'f core_obj \<Rightarrow> 'f core_obj" where
  "map_sys f ob = ob\<lparr>co_sys := f (co_sys ob)\<rparr>"

definition writer_join :: "nat \<Rightarrow> u32 \<Rightarrow> (unit, 'f any_sink) sys \<Rightarrow> (unit, 'f any_sink) sys" where
  "writer_join i tid sy =
     sy\<lparr>sy_writers := register_writer i ((sy_writers sy)\<lparr>ws_obj := (ws_obj (sy_writers sy))(i := writer_new mz_data_buffer_size tid)\<rparr>)\<rparr>"

definition writer_leave :: "nat \<Rightarrow> (unit, 'f any_sink) sys \<Rightarrow> (unit, 'f any_sink) sys" where
  "writer_leave i sy =
     (case writer_close (ws_obj (sy_writers sy) i, sy_core sy) of (w', c') \<Rightarrow>
        sy\<lparr>sy_core := c', sy_writers := unregister_writer i ((sy_writers sy)\<lparr>ws_obj := (ws_obj (sy_writers sy))(i := w')\<rparr>)\<rparr>)"

definition tls_ctor :: "bool \<Rightarrow> nat \<Rightarrow> u32 \<Rightarrow> addr \<Rightarrow> ('s, 'f) world \<Rightarrow> ('s, 'f) world" where
  "tls_ctor is_writer i tid a w =
     (let w1 = addref a w in if is_writer then use_core a (map_sys (writer_join i tid)) w1 else w1)"

definition tls_dtor :: "bool \<Rightarrow> nat \<Rightarrow> ('j, 'f) shutdown \<Rightarrow> addr \<Rightarrow> ('s, 'f) world \<Rightarrow> ('s, 'f) world option" where
  "tls_dtor is_writer i sd a w =
     release_ref sd a (if is_writer then use_core a (map_sys (writer_leave i)) w else w)"

section \<open>The calls of a module\<close>

text \<open>
  A process with its modules and the thread-local objects alive, each with its kind and its
  \<^verbatim>\<open>mp_core\<close>; objects without a core hold nothing and are left out.
\<close>

record ('s, 'f) process =
  pr_world :: "('s, 'f) world"
  pr_dso :: "nat \<Rightarrow> dso"
  pr_objs :: "nat \<Rightarrow> (bool \<times> addr) option"

datatype ('s, 'j, 'f) api_call =
    Api_init "('s, 'j, 'f) init_env"
  | Api_release "('j, 'f) shutdown"
  | Tls_free nat "('j, 'f) shutdown"

text \<open>
  A call by module \<open>m\<close> that nothing else comes between; the theory \<open>EntryPoints\<close> cuts the calls up. An address in
  use is never handed out again: such a step does not exist (\<open>None\<close>).
\<close>

fun api_step :: "'s shm_ops \<Rightarrow> nat \<times> ('s, 'j, 'f) api_call \<Rightarrow> ('s, 'f) process \<Rightarrow> ('s, 'f) process option" where
  "api_step sm (m, Api_init ie) p =
     (if (case ie_new ie of None \<Rightarrow> False | Some a \<Rightarrow> gw_cores (pr_world p) a \<noteq> None) then None
      else map_option (\<lambda>(r, d, w). p\<lparr>pr_world := w, pr_dso := (pr_dso p)(m := d)\<rparr>) (p8_initialize sm ie (pr_dso p m) (pr_world p)))"
| "api_step sm (m, Api_release sd) p =
     map_option (\<lambda>(d, w). p\<lparr>pr_world := w, pr_dso := (pr_dso p)(m := d)\<rparr>) (p8_release sm sd (pr_dso p m) (pr_world p))"
| "api_step sm (m, Tls_free i sd) p =
     (case pr_objs p i of
        None \<Rightarrow> Some p
      | Some (k, a) \<Rightarrow> map_option (\<lambda>w. p\<lparr>pr_world := w, pr_objs := (pr_objs p)(i := None)\<rparr>) (tls_dtor k i sd a (pr_world p)))"

fun api_run :: "'s shm_ops \<Rightarrow> (nat \<times> ('s, 'j, 'f) api_call) list \<Rightarrow> ('s, 'f) process \<Rightarrow> ('s, 'f) process option" where
  "api_run sm [] p = Some p"
| "api_run sm (x # xs) p = (case api_step sm x p of None \<Rightarrow> None | Some p1 \<Rightarrow> api_run sm xs p1)"

definition process_start :: "'s \<Rightarrow> ('s, 'f) process" where
  "process_start s = \<lparr>pr_world = \<lparr>gw_cores = \<lambda>_. None, gw_dead = [], gw_bad = False, gw_shm = s\<rparr>,
     pr_dso = \<lambda>_. \<lparr>ds_instance = None, ds_handle = False\<rparr>, pr_objs = \<lambda>_. None\<rparr>"

section \<open>Calls into the core\<close>

text \<open>
  A call of a member function through the pointer; \<open>None\<close> as its result when there is no such core. The
  logging calls wait for a core to be published, the attribute calls do not.
\<close>

definition call_core :: "addr \<Rightarrow> (reg_core \<Rightarrow> 'r \<times> reg_core) \<Rightarrow> ('s, 'f) world \<Rightarrow> 'r option \<times> ('s, 'f) world" where
  "call_core a f w =
     (case gw_cores w a of
        None \<Rightarrow> (None, w\<lparr>gw_bad := True\<rparr>)
      | Some (n, ob) \<Rightarrow>
          (case f (sy_core (co_sys ob)) of
             (r, c) \<Rightarrow> (Some r, w\<lparr>gw_cores := (gw_cores w)(a \<mapsto> (n, set_core (\<lambda>_. c) ob))\<rparr>)))"

definition p8_attr_register :: "cstr \<Rightarrow> attr_type \<Rightarrow> dso \<Rightarrow> ('s, 'f) world \<Rightarrow> int option \<times> ('s, 'f) world" where
  "p8_attr_register ip_name ty d w =
     (case ds_instance d of None \<Rightarrow> (Some P8_ATTR_ERROR_NOT_INITIALIZED, w) | Some a \<Rightarrow> call_core a (attr_register ip_name ty) w)"

definition p8_attr_get :: "cstr \<Rightarrow> dso \<Rightarrow> ('s, 'f) world \<Rightarrow> int option \<times> ('s, 'f) world" where
  "p8_attr_get ip_name d w =
     (case ds_instance d of None \<Rightarrow> (Some P8_ATTR_ERROR_NOT_FOUND, w) | Some a \<Rightarrow> call_core a (\<lambda>c. (attr_get ip_name c, c)) w)"

definition with_global :: "(nat \<Rightarrow> addr option) \<Rightarrow> 'r \<Rightarrow> (reg_core \<Rightarrow> 'r \<times> reg_core) \<Rightarrow> dso \<Rightarrow> ('s, 'f) world \<Rightarrow>
    ('r option \<times> dso \<times> ('s, 'f) world) option" where
  "with_global view none f d w =
     map_option (\<lambda>(r, d1). case r of
         None \<Rightarrow> (Some none, d1, w)
       | Some a \<Rightarrow> (case call_core a f w of (x, w1) \<Rightarrow> (x, d1, w1)))
       (get_global_core view P8_CORE_ACQUIRE_TIMEOUT_MS d)"

definition p8_log_set_verbosity :: "(nat \<Rightarrow> addr option) \<Rightarrow> nat option \<Rightarrow> nat \<Rightarrow> dso \<Rightarrow> ('s, 'f) world \<Rightarrow>
    (unit option \<times> dso \<times> ('s, 'f) world) option" where
  "p8_log_set_verbosity view md v = with_global view () (\<lambda>c. ((), set_verbosity md v c))"

definition p8_log_get_verbosity :: "(nat \<Rightarrow> addr option) \<Rightarrow> nat option \<Rightarrow> dso \<Rightarrow> ('s, 'f) world \<Rightarrow>
    (nat option \<times> dso \<times> ('s, 'f) world) option" where
  "p8_log_get_verbosity view md = with_global view 0 (\<lambda>c. (get_verbosity md c, c))"

definition p8_log_register_module :: "(nat \<Rightarrow> addr option) \<Rightarrow> cstr \<Rightarrow> nat \<Rightarrow> bool \<Rightarrow> dso \<Rightarrow> ('s, 'f) world \<Rightarrow>
    ((bool \<times> nat option) option \<times> dso \<times> ('s, 'f) world) option" where
  "p8_log_register_module view ip_name v has_out = with_global view (False, None) (register_module ip_name v has_out)"

definition p8_log_find_module :: "(nat \<Rightarrow> addr option) \<Rightarrow> cstr \<Rightarrow> dso \<Rightarrow> ('s, 'f) world \<Rightarrow>
    (nat option option \<times> dso \<times> ('s, 'f) world) option" where
  "p8_log_find_module view ip_name = with_global view None (\<lambda>c. (find_module ip_name c, c))"

section \<open>Reference counts\<close>

text \<open>\<open>h\<close> tells how many references each core should have; a core without references does not exist.\<close>

definition counts :: "(addr \<Rightarrow> nat) \<Rightarrow> ('s, 'f) world \<Rightarrow> bool" where
  "counts h w \<longleftrightarrow> \<not> gw_bad w \<and>
     (\<forall>a. case gw_cores w a of None \<Rightarrow> h a = 0 | Some (n, ob) \<Rightarrow> unat n = h a \<and> 0 < h a)"

lemma counts_live:
  assumes "counts h w" "0 < h a"
  obtains n ob where "gw_cores w a = Some (n, ob)" "unat n = h a"
  using assms by (auto simp: counts_def split: option.splits dest!: spec [of _ a])

lemma counts_None: "counts h w \<Longrightarrow> gw_cores w a = None \<Longrightarrow> h a = 0"
  by (auto simp: counts_def split: option.splits dest!: spec [of _ a])

lemma counts_Some: "counts h w \<Longrightarrow> gw_cores w a = Some (n, ob) \<Longrightarrow> unat n = h a \<and> 0 < h a"
  by (auto simp: counts_def split: option.splits dest!: spec [of _ a])

lemma counts_shm [simp]: "counts h (w\<lparr>gw_shm := s\<rparr>) = counts h w"
  by (simp add: counts_def)

lemma counts_upd:
  assumes "counts h w" "unat n = k" "0 < k"
  shows "counts (h(a := k)) (w\<lparr>gw_cores := (gw_cores w)(a \<mapsto> (n, ob))\<rparr>)"
  unfolding counts_def
proof (intro conjI allI)
  fix b
  show "case gw_cores (w\<lparr>gw_cores := (gw_cores w)(a \<mapsto> (n, ob))\<rparr>) b of None \<Rightarrow> (h(a := k)) b = 0
    | Some (n, ob) \<Rightarrow> unat n = (h(a := k)) b \<and> 0 < (h(a := k)) b"
    using assms(2,3) spec [OF conjunct2 [OF assms(1) [unfolded counts_def]], of b]
    by (cases "b = a") (auto split: option.splits)
qed (use assms in \<open>simp add: counts_def\<close>)

lemma counts_drop:
  assumes "counts h w"
  shows "counts (h(a := 0)) (w\<lparr>gw_cores := (gw_cores w)(a := None), gw_dead := d\<rparr>)"
  unfolding counts_def
proof (intro conjI allI)
  fix b
  show "case gw_cores (w\<lparr>gw_cores := (gw_cores w)(a := None), gw_dead := d\<rparr>) b of None \<Rightarrow> (h(a := 0)) b = 0
    | Some (n, ob) \<Rightarrow> unat n = (h(a := 0)) b \<and> 0 < (h(a := 0)) b"
    using spec [OF conjunct2 [OF assms [unfolded counts_def]], of b]
    by (cases "b = a") (auto split: option.splits)
qed (use assms in \<open>simp add: counts_def\<close>)

lemma counts_addref:
  assumes "counts h w" "0 < h a" "h a < 2 ^ 32 - 1"
  shows "counts (h(a := h a + 1)) (addref a w)"
proof -
  obtain n ob where n: "gw_cores w a = Some (n, ob)" "unat n = h a" by (rule counts_live [OF assms(1,2)])
  have "unat (n + 1) = h a + 1" using n(2) assms(3) by (subst unat_add_lem [THEN iffD1]) simp_all
  from counts_upd [OF assms(1) this, of a ob] show ?thesis using n(1) by (simp add: addref_def)
qed

lemma counts_use:
  assumes "counts h w" "0 < h a"
  shows "counts h (use_core a f w)"
proof -
  obtain n ob where n: "gw_cores w a = Some (n, ob)" "unat n = h a" by (rule counts_live [OF assms])
  from counts_upd [OF assms(1) n(2) assms(2), of a "f ob"] show ?thesis using n(1) by (simp add: use_core_def)
qed

lemma counts_delete:
  assumes "counts h w" "gw_cores w a \<noteq> None" "delete_core sd a w = Some w'"
  shows "counts (h(a := 0)) w'" "gw_shm w' = gw_shm w"
proof -
  obtain n ob where n: "gw_cores w a = Some (n, ob)" using assms(2) by auto
  then obtain ob' where "w' = w\<lparr>gw_cores := (gw_cores w)(a := None), gw_dead := gw_dead w @ [(a, ob')]\<rparr>"
    using assms(3) by (auto simp: delete_core_def)
  then show "counts (h(a := 0)) w'" "gw_shm w' = gw_shm w" using counts_drop [OF assms(1)] by simp_all
qed

lemma counts_release:
  assumes "counts h w" "0 < h a" "release_ref sd a w = Some w'"
  shows "counts (h(a := h a - 1)) w'" "gw_shm w' = gw_shm w"
proof -
  obtain n ob where n: "gw_cores w a = Some (n, ob)" "unat n = h a" by (rule counts_live [OF assms(1,2)])
  let ?w1 = "w\<lparr>gw_cores := (gw_cores w)(a \<mapsto> (n - 1, ob))\<rparr>"
  have "counts (h(a := h a - 1)) w' \<and> gw_shm w' = gw_shm w"
  proof (cases "n = 1")
    case True
    then obtain ob' where "core_dtor (sd_env sd) (sd_interval sd) (sd_wakes sd) ob = Some ob'"
      "w' = w\<lparr>gw_cores := (gw_cores w)(a := None), gw_dead := gw_dead w @ [(a, ob')]\<rparr>"
      using assms(3) n(1) by (auto simp: release_ref_def delete_core_def)
    then show ?thesis using counts_drop [OF assms(1), of a] True n(2) by simp
  next
    case False
    moreover have "n \<noteq> 0" using n(2) assms(2) by auto
    ultimately have "1 < unat n" by (metis One_nat_def less_one linorder_neqE_nat unat_1 unat_eq_zero word_unat_eq_iff)
    moreover have "unat (n - 1) = unat n - 1" using \<open>n \<noteq> 0\<close> by (metis unat_minus_one)
    ultimately show ?thesis using counts_upd [OF assms(1), of "n - 1" "h a - 1" a ob] False n assms(3)
      by (auto simp: release_ref_def)
  qed
  then show "counts (h(a := h a - 1)) w'" "gw_shm w' = gw_shm w" by simp_all
qed

text \<open>
  What a holder of references relies on: an owner may follow its pointer, a further reference keeps the
  object alive, and giving one back takes exactly one away. \<open>C\<close> relates the world to the counts.
\<close>

locale refcounted =
  fixes C :: "('a \<Rightarrow> nat) \<Rightarrow> 'w \<Rightarrow> bool"
    and add :: "'a \<Rightarrow> 'w \<Rightarrow> 'w"
    and rel :: "'d \<Rightarrow> 'a \<Rightarrow> 'w \<Rightarrow> 'w option"
    and maxref :: nat
  assumes add_counts: "C h w \<Longrightarrow> 0 < h a \<Longrightarrow> h a < maxref \<Longrightarrow> C (h(a := h a + 1)) (add a w)"
    and rel_counts: "C h w \<Longrightarrow> 0 < h a \<Longrightarrow> rel d a w = Some w' \<Longrightarrow> C (h(a := h a - 1)) w'"
begin

text \<open>A reference taken and given back leaves the counts alone; what happens between may use the object.\<close>

lemma hold:
  assumes "C h w" "0 < h a" "h a < maxref" "\<And>w1. C (h(a := h a + 1)) w1 \<Longrightarrow> C (h(a := h a + 1)) (f w1)"
    "rel d a (f (add a w)) = Some w'"
  shows "C h w'"
proof -
  have "C (h(a := h a + 1)) (f (add a w))" by (rule assms(4) [OF add_counts [OF assms(1-3)]])
  from rel_counts [OF this, of a d w'] assms(5) show ?thesis by simp
qed

end

interpretation core_refs: refcounted counts addref release_ref "2 ^ 32 - 1"
  by unfold_locales (fact counts_addref, fact counts_release(1))

text \<open>
  The references of a process with one module: that of its instance pointer, \<open>inst\<close>, as long as it has not been
  given back, and one for every thread-local object.
\<close>

definition refs :: "addr option \<Rightarrow> (nat \<Rightarrow> (bool \<times> addr) option) \<Rightarrow> addr \<Rightarrow> nat" where
  "refs inst objs a = (if inst = Some a then 1 else 0) + card {i. \<exists>k. objs i = Some (k, a)}"

definition life_inv :: "'s shm_ops \<Rightarrow> addr option \<Rightarrow> ('s, 'f) process \<Rightarrow> bool" where
  "life_inv sm inst p \<longleftrightarrow> counts (refs inst (pr_objs p)) (pr_world p) \<and> finite (dom (pr_objs p)) \<and>
     (\<forall>a. sm_read sm (gw_shm (pr_world p)) = Some a \<longrightarrow> inst = Some a)"

lemma objs_finite: "finite (dom objs) \<Longrightarrow> finite {i. \<exists>k. objs i = Some (k, a)}"
  by (rule finite_subset [of _ "dom objs"]) auto

lemma refs_le: "finite (dom objs) \<Longrightarrow> refs inst objs a \<le> 1 + card (dom objs)"
  using card_mono [of "dom objs" "{i. \<exists>k. objs i = Some (k, a)}"] unfolding refs_def by (fastforce simp: dom_def)

lemma refs_inst: "0 < refs (Some a) objs a"
  by (simp add: refs_def)

lemma refs_new:
  assumes "finite (dom objs)" "objs i = None"
  shows "refs inst (objs(i \<mapsto> (k, a))) = (refs inst objs)(a := refs inst objs a + 1)"
proof
  fix b
  have "{j. \<exists>k'. (objs(i \<mapsto> (k, a))) j = Some (k', b)} = (if b = a then insert i {j. \<exists>k. objs j = Some (k, b)}
      else {j. \<exists>k. objs j = Some (k, b)})" using assms(2) by auto
  then show "refs inst (objs(i \<mapsto> (k, a))) b = ((refs inst objs)(a := refs inst objs a + 1)) b"
    using objs_finite [OF assms(1), of a] assms(2) by (auto simp: refs_def)
qed

lemma refs_gone:
  assumes "finite (dom objs)" "objs i = Some (k, a)"
  shows "refs inst (objs(i := None)) = (refs inst objs)(a := refs inst objs a - 1)" and "0 < refs inst objs a"
proof -
  let ?S = "\<lambda>b. {j. \<exists>k. objs j = Some (k, b)}"
  have mem: "i \<in> ?S a" using assms(2) by simp
  have pos: "0 < card (?S a)" using mem objs_finite [OF assms(1), of a] by (auto simp: card_gt_0_iff)
  then show "0 < refs inst objs a" by (simp add: refs_def)
  show "refs inst (objs(i := None)) = (refs inst objs)(a := refs inst objs a - 1)"
  proof
    fix b
    have "{j. \<exists>k. (objs(i := None)) j = Some (k, b)} = (if b = a then ?S a - {i} else ?S b)"
      using assms(2) by auto
    then show "refs inst (objs(i := None)) b = ((refs inst objs)(a := refs inst objs a - 1)) b"
      using mem pos by (simp add: refs_def)
  qed
qed

lemma refs_set: "refs (Some a) objs = (refs None objs)(a := refs None objs a + 1)"
  by (auto simp: refs_def)

lemma refs_clear: "refs None objs = (refs (Some a) objs)(a := refs (Some a) objs a - 1)"
  by (auto simp: refs_def)

section \<open>The parts of a call, with one module\<close>

text \<open>
  Polling ends, if the timeout is not within ten of the 32-bit limit, and yields what the first attempt
  saw that saw anything.
\<close>

lemma poll_core_first:
  assumes "unat t \<le> 2 ^ 32 - 10" "N = (unat t + 9) div 10" "k \<le> N"
  shows "poll_core view t (of_nat (10 * k)) k = Some (case find (\<lambda>r. r \<noteq> None) (map view [k..<N]) of None \<Rightarrow> None | Some r \<Rightarrow> r)"
  using assms(3)
proof (induction rule: inc_induct)
  case base
  have "unat t \<le> 4294967286" using assms(1) by simp
  then have N: "unat t \<le> 10 * N" "10 * N < 4294967296" using assms(2) by linarith+
  have "unat (of_nat (10 * N) :: u32) = 10 * N" unfolding unat_of_nat using N(2) by simp
  then have "\<not> (of_nat (10 * N) :: u32) < t" using N(1) by (simp add: word_less_nat_alt)
  then show ?case by (subst poll_core.simps) simp
next
  case (step j)
  have "unat t \<le> 4294967286" using assms(1) by simp
  then have lt: "10 * j < unat t" "10 * j < 4294967296" using step(2) assms(2) by linarith+
  have "unat (of_nat (10 * j) :: u32) = 10 * j" unfolding unat_of_nat using lt(2) by simp
  then have less: "(of_nat (10 * j) :: u32) < t" using lt(1) by (simp add: word_less_nat_alt)
  have "(of_nat (10 * j) + 10 :: u32) = of_nat (10 * j + 10)" by (simp only: of_nat_add) simp
  then have next_el: "(of_nat (10 * j) + 10 :: u32) = of_nat (10 * Suc j)" by simp
  have upt: "[j..<N] = j # [Suc j..<N]" using step(2) by (rule upt_conv_Cons)
  show ?case
  proof (cases "view j")
    case None
    then show ?thesis using step.IH less unfolding upt by (subst poll_core.simps) (simp only: next_el, simp)
  next
    case (Some a)
    then show ?thesis using less unfolding upt by (subst poll_core.simps) simp
  qed
qed

lemma poll_core_blind: "poll_core (\<lambda>_. None) 100 0 0 = Some None"
  using poll_core_first [of "100 :: u32" 10 0 "\<lambda>_. None"] by (simp add: upt_rec)

lemma get_global_core_blind:
  assumes "\<And>j. view j = None"
  shows "get_global_core view P8_CORE_ACQUIRE_TIMEOUT_MS d = Some (ds_instance d, d)"
proof -
  have "view = (\<lambda>_. None)" using assms by auto
  then show ?thesis using poll_core_blind
    by (auto simp: get_global_core_def P8_CORE_ACQUIRE_TIMEOUT_MS_def split: option.split)
qed

lemma lost_race_alone:
  assumes "shm_law sm" "sm_read sm (gw_shm w) = None"
  shows "\<exists>s. lost_race sm d w = (False, d, w\<lparr>gw_shm := s\<rparr>) \<and> sm_read sm s = None"
proof -
  obtain ok s where l: "sm_lock sm 5000 (gw_shm w) = (ok, s)" by (meson surj_pair)
  have "sm_read sm (snd (sm_lock sm 5000 (gw_shm w))) = None" using assms unfolding shm_law_def by metis
  then have "sm_read sm s = None" using l by simp
  moreover have "sm_read sm (sm_unlock sm s) = sm_read sm s" using assms(1) unfolding shm_law_def by blast
  ultimately show ?thesis using l by (cases ok) (auto simp: lost_race_def)
qed

lemma init_alone:
  assumes "shm_law sm" "life_inv sm (ds_instance (pr_dso p m)) p" "ie_race ie = id" "api_step sm (m, Api_init ie) p = Some p'"
  shows "life_inv sm (ds_instance (pr_dso p' m)) p' \<and> pr_objs p' = pr_objs p \<and>
    (ds_instance (pr_dso p m) \<noteq> None \<longrightarrow> ds_instance (pr_dso p' m) = ds_instance (pr_dso p m))"
proof -
  let ?d = "pr_dso p m" and ?h = "refs (ds_instance (pr_dso p m)) (pr_objs p)" and ?w = "pr_world p"
  have inv: "counts ?h ?w" "finite (dom (pr_objs p))" "\<And>a. sm_read sm (gw_shm ?w) = Some a \<Longrightarrow> ds_instance ?d = Some a"
    using assms(2) unfolding life_inv_def by blast+
  obtain r d w where i: "p8_initialize sm ie ?d ?w = Some (r, d, w)" "p' = p\<lparr>pr_world := w, pr_dso := (pr_dso p)(m := d)\<rparr>"
    and fresh: "\<And>a. ie_new ie = Some a \<Longrightarrow> gw_cores ?w a = None"
    using assms(4) by (auto split: if_splits option.splits)
  have keep: ?thesis if "d = ?d" "counts ?h w" "sm_read sm (gw_shm w) = sm_read sm (gw_shm ?w)"
    using that inv i(2) unfolding life_inv_def by auto
  show ?thesis
  proof (cases "ds_instance ?d")
    case Some
    then show ?thesis using i(1) inv(1) by (intro keep) (auto simp: p8_initialize_def)
  next
    case None
    then have none: "sm_read sm (gw_shm ?w) = None" using inv(3) by (cases "sm_read sm (gw_shm ?w)") auto
    show ?thesis
    proof (cases "ie_config ie = None \<or> ie_new ie = None")
      case True
      then show ?thesis using i(1) None none inv(1) by (intro keep) (auto simp: p8_initialize_def split: option.splits)
    next
      case False
      then obtain cfg a where ca: "ie_config ie = Some cfg" "ie_new ie = Some a" by auto
      then obtain ob where ob: "core_ctor (ie_core ie) cfg = Some ob"
        using i(1) None none by (auto simp: p8_initialize_def split: option.splits)
      let ?w1 = "?w\<lparr>gw_cores := (gw_cores ?w)(a \<mapsto> (1, ob))\<rparr>"
      have h0: "?h a = 0" using fresh [OF ca(2)] inv(1) by (auto simp: counts_def dest!: spec [of _ a])
      have c1: "counts (?h(a := 1)) ?w1" by (rule counts_upd [OF inv(1)]) simp_all
      have del: "counts ?h w'" "gw_shm w' = gw_shm ?w" if "delete_core (ie_down ie) a ?w1 = Some w'" for w'
        using counts_delete [OF c1 _ that] h0 by (simp_all add: fun_upd_idem)
      have init: "p8_initialize sm ie ?d ?w = (if \<not> c_initialized (sy_core (co_sys ob))
          then map_option (\<lambda>w2. (False, ?d, w2)) (delete_core (ie_down ie) a ?w1) else publish sm ie a ?d ?w1)"
        using None none ca ob by (simp add: p8_initialize_def Let_def)
      show ?thesis
      proof (cases "c_initialized (sy_core (co_sys ob))")
        case False
        then show ?thesis using i(1) init del by (intro keep) auto
      next
        case True
        show ?thesis
        proof (cases "sm_create sm a (gw_shm ?w)")
          case s: (Some s)
          then have "d = ?d\<lparr>ds_instance := Some a, ds_handle := True\<rparr>" "w = ?w1\<lparr>gw_shm := s\<rparr>"
            using i(1) init True assms(3) by (auto simp: publish_def)
          moreover have "sm_read sm s = Some a" using s assms(1) unfolding shm_law_def by blast
          moreover have "refs (Some a) (pr_objs p) = ?h(a := 1)" using refs_set [of a "pr_objs p"] h0 None by simp
          ultimately show ?thesis using c1 inv(2) i(2) None by (simp add: life_inv_def)
        next
          case lost: None
          then obtain w2 where w2: "delete_core (ie_down ie) a ?w1 = Some w2" "lost_race sm ?d w2 = (r, d, w)"
            using i(1) init True assms(3) by (auto simp: publish_def)
          have "sm_read sm (gw_shm w2) = None" using del(2) [OF w2(1)] none by simp
          from lost_race_alone [OF assms(1) this, of ?d] w2(2) obtain s where "d = ?d" "w = w2\<lparr>gw_shm := s\<rparr>" "sm_read sm s = None"
            by auto
          then show ?thesis using del(1) [OF w2(1)] none by (intro keep) simp_all
        qed
      qed
    qed
  qed
qed

text \<open>The two accesses of \<^verbatim>\<open>p8_release\<close>; an object built through a pointer to a live core; an object destroyed.\<close>

lemma unlink_life:
  assumes "shm_law sm" "life_inv sm inst p" "release_unlink sm d (pr_world p) = (d1, w1)"
  shows "life_inv sm inst (p\<lparr>pr_world := w1, pr_dso := f\<rparr>) \<and> sm_read sm (gw_shm w1) = None \<and> ds_instance d1 = ds_instance d"
  using assms by (auto simp: release_unlink_def life_inv_def shm_law_def)

lemma drop_life:
  assumes "life_inv sm (Some a) p" "sm_read sm (gw_shm (pr_world p)) = None" "release_ref sd a (pr_world p) = Some w"
  shows "life_inv sm None (p\<lparr>pr_world := w\<rparr>) \<and> sm_read sm (gw_shm w) = None"
proof -
  have "counts (refs (Some a) (pr_objs p)) (pr_world p)" using assms(1) by (simp add: life_inv_def)
  note r = counts_release [OF this refs_inst assms(3)]
  show ?thesis using r refs_clear [of "pr_objs p" a] assms(1,2) by (simp add: life_inv_def)
qed

lemma ctor_life:
  assumes "life_inv sm inst p" "0 < refs inst (pr_objs p) a" "pr_objs p i = None" "card (dom (pr_objs p)) < 2 ^ 32 - 2"
  shows "life_inv sm inst (p\<lparr>pr_world := tls_ctor k i tid a (pr_world p), pr_objs := (pr_objs p)(i \<mapsto> (k, a))\<rparr>)"
proof -
  let ?h = "refs inst (pr_objs p)" and ?w = "tls_ctor k i tid a (pr_world p)"
  have inv: "counts ?h (pr_world p)" "finite (dom (pr_objs p))" using assms(1) by (simp_all add: life_inv_def)
  have "?h a < 2 ^ 32 - 1" using refs_le [OF inv(2), of inst a] assms(4) by simp
  then have "counts (?h(a := ?h a + 1)) ?w"
    using core_refs.add_counts [OF inv(1) assms(2)] counts_use [of "?h(a := ?h a + 1)" "addref a (pr_world p)" a]
    by (simp add: tls_ctor_def Let_def)
  moreover have "gw_shm ?w = gw_shm (pr_world p)" by (simp add: tls_ctor_def addref_def use_core_def Let_def split: option.split)
  ultimately show ?thesis using assms(1) refs_new [OF inv(2) assms(3)] by (simp add: life_inv_def)
qed

lemma free_alone:
  assumes "life_inv sm inst p" "api_step sm (m, Tls_free i sd) p = Some p'"
  shows "life_inv sm inst p' \<and> pr_dso p' = pr_dso p \<and> gw_shm (pr_world p') = gw_shm (pr_world p)"
proof (cases "pr_objs p i")
  case None
  then show ?thesis using assms by simp
next
  case (Some ka)
  obtain k a where ka: "ka = (k, a)" by (cases ka)
  let ?h = "refs inst (pr_objs p)"
  have inv: "counts ?h (pr_world p)" "finite (dom (pr_objs p))" using assms(1) by (simp_all add: life_inv_def)
  note gone = refs_gone [OF inv(2) Some [unfolded ka], of inst]
  let ?w1 = "if k then use_core a (map_sys (writer_leave i)) (pr_world p) else pr_world p"
  have c1: "counts ?h ?w1" using counts_use [OF inv(1) gone(2)] inv(1) by simp
  have shm: "gw_shm ?w1 = gw_shm (pr_world p)" by (simp add: use_core_def split: option.split)
  obtain w where w: "release_ref sd a ?w1 = Some w" "p' = p\<lparr>pr_world := w, pr_objs := (pr_objs p)(i := None)\<rparr>"
    using assms(2) Some ka by (auto simp: tls_dtor_def)
  note r = counts_release [OF c1 gone(2) w(1)]
  show ?thesis using r shm gone(1) w(2) assms(1) by (simp add: life_inv_def)
qed

section \<open>A concrete segment\<close>

text \<open>A segment as the law describes it, and a core whose worker could not be started.\<close>

definition demo_shm :: "addr option shm_ops" where
  "demo_shm = \<lparr>sm_read = id, sm_create = (\<lambda>a s. if s = None then Some (Some a) else None), sm_lock = (\<lambda>n s. (True, s)),
     sm_unlock = id, sm_close = id, sm_unlink = (\<lambda>_. None)\<rparr>"

lemma demo_shm_law: "shm_law demo_shm"
  by (simp add: shm_law_def demo_shm_def)

definition demo_idle :: "((string \<times> string) list, bool \<times> byte list \<times> nat list) core_env" where
  "demo_idle = demo_core_env\<lparr>ce_event_ok := False\<rparr>"

definition demo_down :: "((string \<times> string) list, bool \<times> byte list \<times> nat list) shutdown" where
  "demo_down = \<lparr>sd_env = demo_idle, sd_interval = 0, sd_wakes = []\<rparr>"

definition demo_init :: "ptr \<Rightarrow> (addr option, (string \<times> string) list, bool \<times> byte list \<times> nat list) init_env" where
  "demo_init p = \<lparr>ie_config = Some (Some ''null''), ie_new = p, ie_core = demo_idle, ie_race = id, ie_down = demo_down\<rparr>"

lemma demo_idle_ctor: "\<exists>ob. core_ctor demo_idle (Some ''null'') = Some ob \<and> c_initialized (sy_core (co_sys ob)) \<and> \<not> co_running ob"
proof -
  obtain ob1 where i: "init_buffer_pool demo_idle (nonempty []) (nonempty []) (blank_obj demo_idle) = (True, ob1)"
    by (simp add: demo_idle_def demo_core_env_def init_buffer_pool_def nonempty_def size_or_def mz_data_buffer_size_def Let_def)
  have "\<not> co_running ob1" using init_buffer_pool_frame [OF i] by (simp add: blank_obj_def)
  moreover have "core_ctor demo_idle (Some ''null'') =
      Some (open_sink demo_idle (Null_sink 0) (ob1\<lparr>co_hdr := init_header (ce_bswap demo_idle) (ce_hash demo_idle) (ce_hello demo_idle)\<rparr>))"
    using i by (simp add: core_ctor_def demo_idle_def demo_core_env_def demo_json_def cfg_string_def nonempty_def create_sink_def Let_def)
  ultimately show ?thesis by (simp add: open_sink_def) (simp add: demo_idle_def)
qed

lemma core_dtor_idle: "\<not> co_running ob \<Longrightarrow> \<exists>ob'. core_dtor e interval us ob = Some ob'"
  by (simp add: core_dtor_def stop_worker_def)

lemma map_sys_running [simp]: "co_running (map_sys f ob) = co_running ob"
  by (simp add: map_sys_def)

section \<open>Several modules\<close>

text \<open>
  C16: A module that finds a core published by another one takes the pointer without taking a reference.
  Its own \<open>p8_release\<close> gives one back all the same: once two modules have initialised and each
  releases, the second call follows the pointer of a destroyed core, whatever wakes the workers.
\<close>

theorem shared_release_uses_dead_core:
  fixes p :: "('s, 'f) process"
  assumes "m \<noteq> m'" and "gw_cores (pr_world p) = (\<lambda>_. None)" and "ds_instance (pr_dso p m) = None" and "ds_instance (pr_dso p m') = None"
    and "sm_read sm (gw_shm (pr_world p)) = None" and "shm_law sm"
    and "api_step sm (m, Api_init ie) p = Some p1" and "ds_handle (pr_dso p1 m)" and "\<not> ds_handle (pr_dso p m)"
    and "api_run sm [(m', Api_init ie'), (m, Api_release sd), (m', Api_release sd')] p1 = Some p2"
  shows "gw_bad (pr_world p2)"
proof -
  obtain r d w where i: "p8_initialize sm ie (pr_dso p m) (pr_world p) = Some (r, d, w)" "p1 = p\<lparr>pr_world := w, pr_dso := (pr_dso p)(m := d)\<rparr>"
    using assms(7) by (auto split: if_splits option.splits)
  have h: "ds_handle d" using assms(8) i(2) by simp
  obtain cfg a ob where ca: "ie_config ie = Some cfg" "ie_new ie = Some a" "core_ctor (ie_core ie) cfg = Some ob"
    using i(1) h assms(3,5,9) by (auto simp: p8_initialize_def split: option.splits)
  let ?w1 = "(pr_world p)\<lparr>gw_cores := (gw_cores (pr_world p))(a \<mapsto> (1, ob))\<rparr>"
  have "publish sm ie a (pr_dso p m) ?w1 = Some (r, d, w)"
    using i(1) ca assms(3,5,9) h by (auto simp: p8_initialize_def Let_def split: if_splits)
  moreover have "\<not> ds_handle (fst (snd (lost_race sm (pr_dso p m) w2)))" for w2 :: "('s, 'f) world"
    using assms(9) by (auto simp: lost_race_def split: prod.split option.split bool.split)
  ultimately obtain s where s: "sm_create sm a (ie_race ie (gw_shm (pr_world p))) = Some s"
    "d = (pr_dso p m)\<lparr>ds_instance := Some a, ds_handle := True\<rparr>" "w = ?w1\<lparr>gw_shm := s\<rparr>"
    using h by (auto simp: publish_def split: option.splits) (metis fst_conv snd_conv)
  have read: "sm_read sm s = Some a" using s(1) assms(6) unfolding shm_law_def by blast
  let ?p1 = "p1\<lparr>pr_dso := (pr_dso p1)(m' := (pr_dso p m')\<lparr>ds_instance := Some a\<rparr>)\<rparr>"
  have second: "api_step sm (m', Api_init ie') p1 = Some ?p1 \<or> api_step sm (m', Api_init ie') p1 = None"
    using assms(1,4) read i(2) s(3) by (auto simp: p8_initialize_def)
  then have step2: "api_step sm (m', Api_init ie') p1 = Some ?p1" using assms(10) by auto
  obtain p3 where p3: "api_step sm (m, Api_release sd) ?p1 = Some p3" "api_step sm (m', Api_release sd') p3 = Some p2"
    using assms(10) step2 by (auto split: option.splits)
  have gone: "gw_cores (pr_world p3) a = None" "ds_instance (pr_dso p3 m') = Some a"
    using p3(1) assms(1) i(2) s(2,3) by (auto simp: p8_release_def release_unlink_def release_clear_def release_ref_def delete_core_def Let_def)
  then show ?thesis using p3(2) by (auto simp: p8_release_def release_unlink_def release_clear_def release_ref_def Let_def)
qed

lemma shared_release_uses_dead_core_witness:
  "\<exists>p1 p2. api_step demo_shm (0, Api_init (demo_init (Some 7))) (process_start None) = Some p1 \<and>
     api_run demo_shm [(1, Api_init (demo_init None)), (0, Api_release demo_down), (1, Api_release demo_down)] p1 = Some p2 \<and>
     gw_bad (pr_world p2)"
proof -
  obtain ob where ob: "core_ctor demo_idle (Some ''null'') = Some ob" "c_initialized (sy_core (co_sys ob))" "\<not> co_running ob"
    using demo_idle_ctor by blast
  obtain ob' where dt: "core_dtor demo_idle 0 [] ob = Some ob'" using core_dtor_idle [OF ob(3)] by blast
  obtain p1 where p1: "api_step demo_shm (0, Api_init (demo_init (Some 7))) (process_start None) = Some p1"
    "ds_handle (pr_dso p1 0)" using ob(1,2)
    by (simp add: process_start_def p8_initialize_def publish_def demo_init_def demo_shm_def Let_def)
  moreover obtain p2 where p2: "api_run demo_shm [(1, Api_init (demo_init None)), (0, Api_release demo_down), (1, Api_release demo_down)] p1 = Some p2"
    using p1(1) ob(1,2) dt
    by (auto simp: process_start_def p8_initialize_def publish_def demo_init_def demo_shm_def p8_release_def release_unlink_def release_clear_def
        release_ref_def delete_core_def demo_down_def Let_def)
  ultimately show ?thesis
    using shared_release_uses_dead_core [OF _ _ _ _ _ demo_shm_law p1(1,2) _ p2] by (auto simp: process_start_def demo_shm_def)
qed
section \<open>The last thread\<close>

lemma writer_close_core:
  assumes "writer_close (w, c) = (w', c')"
  shows "c_pool c' = c_pool c" "c_mem c' = c_mem c" "c_svc c' = c_svc c" "c_initialized c' = c_initialized c"
  using assms
  by (auto simp: writer_close_def core_push_def submit_chain_def submit_buffer_def pull_dropped_def
      accumulate_dropped_def notify_def Let_def split: prod.splits option.splits if_splits)

lemma writer_leave_abs:
  assumes "ws_abs (sy_writers sy) xs" "i \<in> set xs" "c_initialized (sy_core sy)"
  shows "ws_abs (sy_writers (writer_leave i sy)) (remove1 i xs)"
    "held_all (sy_writers (writer_leave i sy)) (remove1 i xs) = held_all (sy_writers sy) (remove1 i xs)"
    "c_ready (sy_core (writer_leave i sy)) = c_ready (sy_core sy) @ held_bufs (ws_obj (sy_writers sy) i)"
    "c_pool (sy_core (writer_leave i sy)) = c_pool (sy_core sy)" "c_mem (sy_core (writer_leave i sy)) = c_mem (sy_core sy)"
    "c_svc (sy_core (writer_leave i sy)) = c_svc (sy_core sy)" "c_initialized (sy_core (writer_leave i sy))"
    "sy_sink (writer_leave i sy) = sy_sink sy"
proof -
  obtain w' c' where wc: "writer_close (ws_obj (sy_writers sy) i, sy_core sy) = (w', c')" by (meson surj_pair)
  have lv: "writer_leave i sy = sy\<lparr>sy_core := c', sy_writers := unregister_writer i ((sy_writers sy)\<lparr>ws_obj := (ws_obj (sy_writers sy))(i := w')\<rparr>)\<rparr>"
    by (simp add: writer_leave_def wc)
  have abs: "ws_abs ((sy_writers sy)\<lparr>ws_obj := (ws_obj (sy_writers sy))(i := w')\<rparr>) xs" using assms(1) by (simp add: ws_abs_def)
  show "ws_abs (sy_writers (writer_leave i sy)) (remove1 i xs)" using unregister_writer_abs [OF abs assms(2)] lv by simp
  have "i \<notin> set (remove1 i xs)" using assms(1) by (simp add: ws_abs_def)
  then have "map (\<lambda>j. held_bufs (((ws_obj (sy_writers sy))(i := w')) j)) (remove1 i xs) =
      map (\<lambda>j. held_bufs (ws_obj (sy_writers sy) j)) (remove1 i xs)" by (intro map_cong) auto
  then show "held_all (sy_writers (writer_leave i sy)) (remove1 i xs) = held_all (sy_writers sy) (remove1 i xs)"
    unfolding held_all_def lv by (simp add: unregister_writer_def Let_def del: fun_upd_apply map_eq_conv)
  show "c_ready (sy_core (writer_leave i sy)) = c_ready (sy_core sy) @ held_bufs (ws_obj (sy_writers sy) i)"
    using wc lv assms(3) by (cases "w_frags (ws_obj (sy_writers sy) i)"; cases "w_buffer (ws_obj (sy_writers sy) i)")
      (auto simp: writer_close_def core_push_def submit_chain_def submit_buffer_def pull_dropped_def
        accumulate_dropped_def notify_def held_bufs_def)
  show "c_pool (sy_core (writer_leave i sy)) = c_pool (sy_core sy)" "c_mem (sy_core (writer_leave i sy)) = c_mem (sy_core sy)"
    "c_svc (sy_core (writer_leave i sy)) = c_svc (sy_core sy)" "c_initialized (sy_core (writer_leave i sy))"
    using writer_close_core [OF wc] lv assms(3) by simp_all
  show "sy_sink (writer_leave i sy) = sy_sink sy" using lv by simp
qed

text \<open>
  C14: After \<^verbatim>\<open>p8_release\<close> the core lives on with the threads that still log. When the last of them
  exits, its buffers follow what is already queued, the worker's last pass brings everything to the sink
  with the pending descriptors, and only then the core is destroyed and its memory returned.
\<close>

theorem last_thread_delivers:
  assumes "gw_cores w a = Some (1, ob)" and "co_running ob" and "co_has_pool ob" and "co_has_sink ob" and "sy = co_sys ob"
    and "c_initialized (sy_core sy)" and "ws_abs (sy_writers sy) xs" and "i \<in> set xs"
    and "wq_abs (pl_waitq (c_pool (sy_core sy))) ts" and "budget_exact (c_pool (sy_core sy))"
    and "pl_budget (c_pool (sy_core sy)) = Some b"
    and "data = c_ready (sy_core sy) @ held_bufs (ws_obj (sy_writers sy) i) @ held_all (sy_writers sy) (remove1 i xs)"
    and "sd = \<lparr>sd_env = e, sd_interval = n, sd_wakes = [\<lparr>wu_signal = mu_event_stop, wu_now = t, wu_hooks = quiet\<rparr>]\<rparr>"
  shows "\<exists>w' ob'. tls_dtor True i sd a w = Some w' \<and> gw_cores w' = (gw_cores w)(a := None) \<and> gw_dead w' = gw_dead w @ [(a, ob')] \<and>
    gw_bad w' = gw_bad w \<and>
    sy_sink (co_sys ob') = sk_close (ce_ops e) (snd (sink_run (ce_ops e)
      (pass_calls (svc_view (sy_core sy) (c_svc (sy_core sy))) (map (c_mem (sy_core sy)) data)) (sy_sink sy))) \<and>
    pl_all (c_pool (sy_core (co_sys ob'))) = [] \<and> (\<exists>b'. pl_budget (c_pool (sy_core (co_sys ob'))) = Some b' \<and> bd_used b' = 0)"
proof -
  let ?ob = "map_sys (writer_leave i) ob"
  have sys: "co_sys ?ob = writer_leave i sy" "co_running ?ob" "co_has_pool ?ob" "co_has_sink ?ob"
    using assms(2-5) by (simp_all add: map_sys_def)
  note lv = writer_leave_abs [OF assms(7,8,6)]
  have pre: "c_initialized (sy_core (co_sys ?ob))" "ws_abs (sy_writers (co_sys ?ob)) (remove1 i xs)"
    "wq_abs (pl_waitq (c_pool (sy_core (co_sys ?ob)))) ts" "budget_exact (c_pool (sy_core (co_sys ?ob)))"
    "pl_budget (c_pool (sy_core (co_sys ?ob))) = Some b"
    unfolding sys(1) using lv assms(9-11) by simp_all
  have data: "data = c_ready (sy_core (co_sys ?ob)) @ held_all (sy_writers (co_sys ?ob)) (remove1 i xs)"
    unfolding sys(1) assms(12) using lv(2,3) by simp
  have view: "svc_view (sy_core (co_sys ?ob)) (c_svc (sy_core (co_sys ?ob))) = svc_view (sy_core sy) (c_svc (sy_core sy))"
    "c_mem (sy_core (co_sys ?ob)) = c_mem (sy_core sy)" "sy_sink (co_sys ?ob) = sy_sink sy"
    unfolding sys(1) svc_view_def using lv by simp_all
  obtain ob' where ob': "core_dtor e n [\<lparr>wu_signal = mu_event_stop, wu_now = t, wu_hooks = quiet\<rparr>] ?ob = Some ob'"
    "sy_sink (co_sys ob') = sk_close (ce_ops e) (snd (sink_run (ce_ops e)
      (pass_calls (svc_view (sy_core sy) (c_svc (sy_core sy))) (map (c_mem (sy_core sy)) data)) (sy_sink sy)))"
    "pl_all (c_pool (sy_core (co_sys ob'))) = []" "\<exists>b'. pl_budget (c_pool (sy_core (co_sys ob'))) = Some b' \<and> bd_used b' = 0"
    using shutdown_quiet [OF sys(2-4) refl pre data, of e n t] unfolding view by blast
  then show ?thesis using assms(1)
    by (intro exI [of _ "w\<lparr>gw_cores := (gw_cores w)(a := None), gw_dead := gw_dead w @ [(a, ob')]\<rparr>"] exI [of _ ob'])
      (simp add: tls_dtor_def use_core_def release_ref_def delete_core_def assms(13))
qed

lemma last_thread_delivers_witness:
  "\<exists>w' ob'. tls_dtor True 2 \<lparr>sd_env = demo_core_env, sd_interval = 100,
      sd_wakes = [\<lparr>wu_signal = mu_event_stop, wu_now = 0, wu_hooks = quiet\<rparr>]\<rparr> 7
      \<lparr>gw_cores = [7 \<mapsto> (1, demo_obj)], gw_dead = [], gw_bad = False, gw_shm = ()\<rparr> = Some w' \<and>
    gw_dead w' = [(7, ob')] \<and> pl_all (c_pool (sy_core (co_sys ob'))) = []"
proof -
  let ?w = "\<lparr>gw_cores = [7 \<mapsto> (1 :: u32, demo_obj)], gw_dead = [], gw_bad = False, gw_shm = ()\<rparr>"
  have "gw_cores ?w 7 = Some (1, demo_obj)" "(2 :: nat) \<in> set [3, 2, 1]" by simp_all
  from last_thread_delivers [OF this(1) demo_obj_ok(6-8) refl demo_obj_ok(2,1) this(2) demo_obj_ok(3-5) refl refl,
      of demo_core_env 100 0] show ?thesis by auto
qed

end
