(* ===== verification/RecordStream.thy ===== *)
theory RecordStream
  imports Registry
begin

text \<open>
  The pieces a record is serialised from, as \<^verbatim>\<open>cp8_log::send\<close> uses them
  (\<^verbatim>\<open>engine/p8_log.cpp\<close>, \<^verbatim>\<open>engine/p8_tls_writer.hpp\<close>): a fixed-size piece that is never split
  (\<^verbatim>\<open>P8_ENSURE_SPACE\<close> and a \<^verbatim>\<open>memcpy\<close>) and a length-prefixed byte string that may be
  (\<^verbatim>\<open>copy_fragmented\<close>). A step takes the cursor and the count of bytes written so far; its
  result has no cursor when the code jumps to \<^verbatim>\<open>lbl_discard\<close>.
\<close>

section \<open>Pieces\<close>

type_synonym 'c ser = "(nat option \<times> nat \<times> 'c wc) option"

definition emit_fixed :: "u64 \<Rightarrow> nat \<Rightarrow> byte list \<Rightarrow> nat \<Rightarrow> nat \<Rightarrow> 'c wc \<Rightarrow> 'c ser" where
  "emit_fixed ts sz bs off n wc =
     (case ensure_space sz ts off wc of
        (None, wc1) \<Rightarrow> Some (None, n, wc1)
      | (Some o1, wc1) \<Rightarrow> Some (Some (o1 + sz), n + sz, buf_write o1 bs wc1))"

definition and_then :: "'c ser \<Rightarrow> (nat \<Rightarrow> nat \<Rightarrow> 'c wc \<Rightarrow> 'c ser) \<Rightarrow> 'c ser" where
  "and_then r k = (case r of Some (Some o1, n1, wc1) \<Rightarrow> k o1 n1 wc1 | _ \<Rightarrow> r)"

definition emit_string :: "u64 \<Rightarrow> byte list \<Rightarrow> nat \<Rightarrow> nat \<Rightarrow> 'c wc \<Rightarrow> 'c ser" where
  "emit_string ts bs off n wc =
     and_then (emit_fixed ts 2 (le_bytes 2 (length bs)) off n wc) (copy_fragmented ts bs)"

section \<open>Any record is its pieces in a row\<close>

text \<open>A piece: a block that is kept whole, or bytes that may be split.\<close>

datatype piece = Block "byte list" | Bytes "byte list"

fun piece_bytes :: "piece \<Rightarrow> byte list" where
  "piece_bytes (Block bs) = bs"
| "piece_bytes (Bytes bs) = bs"

fun block_len :: "piece \<Rightarrow> nat" where
  "block_len (Block bs) = length bs"
| "block_len (Bytes bs) = 0"

text \<open>
  What a serialiser of records relies on, over any kind of writer state: emitting a piece that
  can fit a buffer ends; it either appends exactly the bytes of the piece to the stream and
  counts them, or it fails having appended a prefix.
\<close>

locale record_stream =
  fixes emit :: "piece \<Rightarrow> nat \<Rightarrow> nat \<Rightarrow> 's \<Rightarrow> (nat option \<times> nat \<times> 's) option"
    and ext :: "'s \<Rightarrow> nat \<Rightarrow> 's \<Rightarrow> nat \<Rightarrow> byte list \<Rightarrow> bool"
    and brk :: "'s \<Rightarrow> nat \<Rightarrow> 's \<Rightarrow> byte list \<Rightarrow> bool"
    and ok :: "'s \<Rightarrow> nat \<Rightarrow> bool"
    and cap :: "'s \<Rightarrow> nat"
  assumes emit_spec: "ok s off \<Longrightarrow> block_len p \<le> cap s \<Longrightarrow>
      \<exists>r n' s'. emit p off n s = Some (r, n', s') \<and>
        (case r of Some off' \<Rightarrow> ext s off s' off' (piece_bytes p) \<and> n' = n + length (piece_bytes p)
         | None \<Rightarrow> \<exists>k. brk s off s' (take k (piece_bytes p)))"
    and ext_refl: "ok s off \<Longrightarrow> ext s off s off []"
    and ext_ok: "ext s off s' off' bs \<Longrightarrow> ok s' off' \<and> cap s' = cap s"
    and ext_trans: "ok s off \<Longrightarrow> ext s off s1 off1 xs \<Longrightarrow> ext s1 off1 s2 off2 ys \<Longrightarrow> ext s off s2 off2 (xs @ ys)"
    and ext_brk: "ok s off \<Longrightarrow> ext s off s1 off1 xs \<Longrightarrow> brk s1 off1 s2 ys \<Longrightarrow> brk s off s2 (xs @ ys)"
begin

fun emit_all :: "piece list \<Rightarrow> nat \<Rightarrow> nat \<Rightarrow> 's \<Rightarrow> (nat option \<times> nat \<times> 's) option" where
  "emit_all [] off n s = Some (Some off, n, s)"
| "emit_all (p # ps) off n s =
     (case emit p off n s of Some (Some o1, n1, s1) \<Rightarrow> emit_all ps o1 n1 s1 | r \<Rightarrow> r)"

lemma emit_all_append:
  "emit_all (ps @ qs) off n s =
   (case emit_all ps off n s of Some (Some o1, n1, s1) \<Rightarrow> emit_all qs o1 n1 s1 | r \<Rightarrow> r)"
  by (induction ps arbitrary: off n s) (auto split: option.splits)

lemma emit_all_spec:
  assumes "ok s off" "\<forall>p\<in>set ps. block_len p \<le> cap s"
  shows "\<exists>r n' s'. emit_all ps off n s = Some (r, n', s') \<and>
    (case r of Some off' \<Rightarrow> ext s off s' off' (concat (map piece_bytes ps)) \<and> n' = n + length (concat (map piece_bytes ps))
     | None \<Rightarrow> \<exists>k. brk s off s' (take k (concat (map piece_bytes ps))))"
  using assms
proof (induction ps arbitrary: off n s)
  case Nil
  then show ?case using ext_refl by simp
next
  case (Cons p ps)
  have "block_len p \<le> cap s" using Cons.prems(2) by simp
  from emit_spec [OF Cons.prems(1) this, of n] obtain r n1 s1 where e: "emit p off n s = Some (r, n1, s1)"
    and c: "case r of Some off' \<Rightarrow> ext s off s1 off' (piece_bytes p) \<and> n1 = n + length (piece_bytes p)
         | None \<Rightarrow> \<exists>k. brk s off s1 (take k (piece_bytes p))" by blast
  show ?case
  proof (cases r)
    case None
    with c obtain k where "brk s off s1 (take k (piece_bytes p))" by auto
    then have "brk s off s1 (take (min k (length (piece_bytes p))) (concat (map piece_bytes (p # ps))))"
      by (cases "k \<le> length (piece_bytes p)") simp_all
    then have "\<exists>k. brk s off s1 (take k (concat (map piece_bytes (p # ps))))" by blast
    with e None show ?thesis
      by (intro exI [of _ None] exI [of _ n1] exI [of _ s1]) (simp del: take_append concat.simps list.map)
  next
    case (Some o1)
    with c have ex: "ext s off s1 o1 (piece_bytes p)" and n1: "n1 = n + length (piece_bytes p)" by simp_all
    have "ok s1 o1" "cap s1 = cap s" using ext_ok [OF ex] by simp_all
    then obtain r2 n2 s2 where e2: "emit_all ps o1 n1 s1 = Some (r2, n2, s2)"
      and c2: "case r2 of Some off' \<Rightarrow> ext s1 o1 s2 off' (concat (map piece_bytes ps)) \<and> n2 = n1 + length (concat (map piece_bytes ps))
         | None \<Rightarrow> \<exists>k. brk s1 o1 s2 (take k (concat (map piece_bytes ps)))"
      using Cons.IH [of s1 o1 n1] Cons.prems(2) by auto
    have run: "emit_all (p # ps) off n s = Some (r2, n2, s2)" using e Some e2 by simp
    show ?thesis
    proof (cases r2)
      case None
      with c2 obtain k where "brk s1 o1 s2 (take k (concat (map piece_bytes ps)))" by auto
      from ext_brk [OF Cons.prems(1) ex this]
      have "brk s off s2 (take (length (piece_bytes p) + k) (concat (map piece_bytes (p # ps))))" by simp
      then have "\<exists>k. brk s off s2 (take k (concat (map piece_bytes (p # ps))))" by blast
      with run None show ?thesis
        by (intro exI [of _ None] exI [of _ n2] exI [of _ s2]) (simp del: take_append concat.simps list.map emit_all.simps)
    next
      case (Some o2)
      with c2 have "ext s1 o1 s2 o2 (concat (map piece_bytes ps))" by simp
      from ext_trans [OF Cons.prems(1) ex this] run Some c2 n1 show ?thesis by simp
    qed
  qed
qed

end

section \<open>The thread-local writer provides it\<close>

fun emit_piece :: "u64 \<Rightarrow> piece \<Rightarrow> nat \<Rightarrow> nat \<Rightarrow> 'c wc \<Rightarrow> 'c ser" where
  "emit_piece ts (Block bs) off n wc = emit_fixed ts (length bs) bs off n wc"
| "emit_piece ts (Bytes bs) off n wc = copy_fragmented ts bs off n wc"

lemma emit_piece_Bytes: "emit_piece ts (Bytes bs) = copy_fragmented ts bs"
  by (intro ext) simp

lemma emit_string_pieces:
  "emit_string ts bs off n wc = and_then (emit_piece ts (Block (le_bytes 2 (length bs))) off n wc) (emit_piece ts (Bytes bs))"
  by (simp add: emit_string_def emit_piece_Bytes)

lemma emit_fixed_spec:
  assumes "writer_ok wc" "at_cursor wc off" "length bs + 24 \<le> w_max (fst wc)"
  shows "\<exists>r n' wc'. emit_fixed ts (length bs) bs off n wc = Some (r, n', wc') \<and>
    (case r of Some off' \<Rightarrow> extends wc off wc' off' bs \<and> n' = n + length bs | None \<Rightarrow> fails wc off wc' [])"
proof -
  obtain r wc1 where run: "ensure_space (length bs) ts off wc = (r, wc1)" by (meson surj_pair)
  note spec = ensure_space_spec [OF assms run]
  show ?thesis
  proof (cases r)
    case None
    with run spec show ?thesis by (simp add: emit_fixed_def)
  next
    case (Some o1)
    with spec have ext: "extends wc off wc1 o1 []" and fit: "o1 + length bs \<le> w_max (fst wc1)" by simp_all
    obtain w1 c1 where wc1: "wc1 = (w1, c1)" by fastforce
    have "extends wc1 o1 (buf_write o1 bs wc1) (o1 + length bs) bs"
      using buf_write_extends [of w1 c1 o1 bs] extendsD(1,2) [OF ext] fit wc1 by simp
    from extends_trans [OF ext this assms(2)] run Some show ?thesis by (simp add: emit_fixed_def)
  qed
qed

interpretation rs: record_stream "emit_piece ts" extends fails "\<lambda>wc off. writer_ok wc \<and> at_cursor wc off"
  "\<lambda>wc. w_max (fst wc) - 24" for ts
proof (unfold_locales, goal_cases)
  case (1 wc off p n)
  then have ok: "writer_ok wc" "at_cursor wc off" by simp_all
  then have mx: "24 < w_max (fst wc)" by (simp add: writer_ok_def)
  show ?case
  proof (cases p)
    case (Block bs)
    then have "length bs + 24 \<le> w_max (fst wc)" using 1(2) mx by simp
    from emit_fixed_spec [OF ok this, of ts n] obtain r n' wc' where
      "emit_fixed ts (length bs) bs off n wc = Some (r, n', wc')"
      "case r of Some off' \<Rightarrow> extends wc off wc' off' bs \<and> n' = n + length bs | None \<Rightarrow> fails wc off wc' []" by blast
    then show ?thesis using Block by (intro exI [of _ r] exI [of _ n'] exI [of _ wc'])
        (auto split: option.splits intro: exI [of _ 0])
  next
    case (Bytes bs)
    from copy_fragmented_spec [OF ok, of ts bs n] obtain r n' wc' where
      "copy_fragmented ts bs off n wc = Some (r, n', wc')" "copy_post bs off wc n (r, n', wc')" by (metis prod_cases3)
    then show ?thesis using Bytes by (intro exI [of _ r] exI [of _ n'] exI [of _ wc'])
        (auto simp: copy_post_def split: option.splits)
  qed
next
  case (2 wc off)
  then show ?case using extends_refl by blast
next
  case (3 wc off wc' off' bs)
  then show ?case
    using extendsD(1-3) [OF 3] by simp
next
  case (4 wc off wc1 off1 xs wc2 off2 ys)
  then show ?case using extends_trans by blast
next
  case (5 wc off wc1 off1 xs wc2 ys)
  then show ?case using extends_fails by blast
qed

end
