(* ===== verification/LogSend.thy ===== *)
theory LogSend
  imports RecordStream
begin

text \<open>
  \<^verbatim>\<open>cp8_log::send\<close> (\<^verbatim>\<open>engine/p8_log.cpp\<close>): the verbosity gate, the choice of the buffer, the
  record's header, its arguments and attributes with fragmentation, the padding, and the roll-back
  at \<^verbatim>\<open>lbl_discard\<close>. The variadic arguments are a list of the values passed; reading one at a type
  other than it was passed as is undefined and sets \<open>c_ub\<close>. The clock readings, the hash of file
  and line (xxHash) and what other threads do while the writer's lock is released are parameters.
\<close>

section \<open>State and arguments\<close>

text \<open>The members of the logger beside the writer: the core pointer and the two caches.\<close>

record log_state =
  ls_has_core :: bool
  ls_descs :: "u64 \<rightharpoonup> log_desc"
  ls_cache :: "attr_desc list"

datatype va_val = Va_u64 u64 | Va_f64 u64 | Va_ldouble "byte list" |
  Va_str8 cstr | Va_str16 "u16 list option" | Va_wstr "u32 list option"

record log_call =
  lc_level :: nat
  lc_module :: "nat option"
  lc_trace_id :: u64
  lc_line :: u32
  lc_file :: cstr
  lc_function :: cstr
  lc_format :: cstr
  lc_attrs :: "attr_val list"
  lc_args :: "va_val list"

text \<open>
  The environment of a call: what other threads do to this writer and the core between the
  unlock and the acquisition and between it and the relock, how a wait for a buffer ends, and
  the two clock readings.
\<close>

record 'c call_env =
  env_before :: "'c wc \<Rightarrow> 'c wc"
  env_wait :: "'c wc \<Rightarrow> ptr \<times> 'c wc"
  env_after :: "'c wc \<Rightarrow> 'c wc"
  env_now_buf :: u64
  env_now :: u64

definition P8_LOG_MIN_BUFFER_SPACE :: nat where "P8_LOG_MIN_BUFFER_SPACE = 32"

definition mark_ub :: "'c wc \<Rightarrow> 'c wc" where
  "mark_ub wc = (fst wc, (snd wc)\<lparr>c_ub := True\<rparr>)"

section \<open>The current buffer\<close>

text \<open>Park the current buffer if fewer than \<open>need\<close> bytes are left; the difference is a \<^verbatim>\<open>size_t\<close>.\<close>

definition park_below :: "nat \<Rightarrow> 'c wc \<Rightarrow> 'c wc" where
  "park_below need wc =
     (case w_buffer (fst wc) of
        None \<Rightarrow> wc
      | Some b \<Rightarrow>
          (if size_sub (w_max (fst wc)) (w_used (fst wc)) < need
           then ((fst wc)\<lparr>w_frags := w_frags (fst wc) @ [b], w_buffer := None\<rparr>, snd wc) else wc))"

text \<open>Take a fresh buffer into use: its header for packets of type \<open>ty\<close>.\<close>

definition install_buffer :: "u8 \<Rightarrow> u64 \<Rightarrow> addr \<Rightarrow> 'c wc \<Rightarrow> 'c wc" where
  "install_buffer ty ts n wc = ((fst wc)\<lparr>w_buffer := Some n, w_used := sz_buf_hdr\<rparr>,
     mem_write n 0 (enc_buf_hdr (data_hdr ty (w_tid (fst wc)) ts)) (snd wc))"

text \<open>The blocking acquisition, made with the writer's lock released.\<close>

definition acquire_unlocked :: "'c call_env \<Rightarrow> 'c wc \<Rightarrow> ptr \<times> 'c wc" where
  "acquire_unlocked env wc =
     (let wc1 = env_before env wc;
          (r, wc2) = (case acquire_buffer True (snd wc1) of
              (Acquired b, c1) \<Rightarrow> (Some b, fst wc1, c1)
            | (Exhausted, c1) \<Rightarrow> (None, fst wc1, c1)
            | (Must_wait, c1) \<Rightarrow> env_wait env (fst wc1, c1))
      in (r, env_after env wc2))"

text \<open>A current buffer, or none when the core shuts down.\<close>

definition ensure_buffer :: "u8 \<Rightarrow> 'c call_env \<Rightarrow> 'c wc \<Rightarrow> bool \<times> 'c wc" where
  "ensure_buffer ty env wc =
     (if w_buffer (fst wc) \<noteq> None then (True, wc)
      else case acquire_unlocked env wc of
          (None, wc1) \<Rightarrow> (False, wc1)
        | (Some n, wc1) \<Rightarrow> (True, install_buffer ty (env_now_buf env) n wc1))"

section \<open>Arguments\<close>

text \<open>The bytes of a string argument, at most 65535 of them; \<open>None\<close> when it is not of that type.\<close>

fun va_string :: "u8 \<Rightarrow> va_val \<Rightarrow> byte list option" where
  "va_string ty (Va_str8 s) =
     (if ty = P8_LOG_ARG_TYPE_USTR8 \<or> ty = P8_LOG_ARG_TYPE_STRA then Some (str_bytes s) else None)"
| "va_string ty (Va_str16 s) =
     (if ty = P8_LOG_ARG_TYPE_USTR16
      then Some (str_bytes (map_option (\<lambda>us. concat (map (\<lambda>u. le_bytes 2 (unat u)) us)) s)) else None)"
| "va_string ty (Va_wstr s) =
     (if ty = P8_LOG_ARG_TYPE_USTR32
      then Some (str_bytes (map_option (\<lambda>us. concat (map (\<lambda>u. le_bytes 4 (unat u)) us)) s)) else None)"
| "va_string ty _ = None"

text \<open>The bytes of a fixed-size argument as it is read for a descriptor.\<close>

fun va_fixed :: "log_varg \<Rightarrow> va_val \<Rightarrow> byte list option" where
  "va_fixed a (Va_u64 v) =
     (if va_size a = 8 \<and> va_type a \<noteq> P8_LOG_ARG_TYPE_DOUBLE then Some (le_bytes 8 (unat v)) else None)"
| "va_fixed a (Va_f64 v) =
     (if va_size a = 8 \<and> va_type a = P8_LOG_ARG_TYPE_DOUBLE then Some (le_bytes 8 (unat v)) else None)"
| "va_fixed a (Va_ldouble bs) =
     (if va_size a \<noteq> 8 \<and> va_type a = P8_LOG_ARG_TYPE_LDOUBLE then Some bs else None)"
| "va_fixed a _ = None"

definition emit_arg :: "u64 \<Rightarrow> log_varg \<Rightarrow> va_val list \<Rightarrow> nat \<Rightarrow> nat \<Rightarrow> 'c wc \<Rightarrow> 'c ser" where
  "emit_arg ts a vas off n wc =
     (if is_str_type (va_type a) then
        (case vas of [] \<Rightarrow> Some (None, n, mark_ub wc) | v # _ \<Rightarrow>
          (case va_string (va_type a) v of
             None \<Rightarrow> Some (None, n, mark_ub wc)
           | Some bs \<Rightarrow> emit_string ts bs off n wc))
      else if va_size a \<noteq> 8 \<and> va_type a \<noteq> P8_LOG_ARG_TYPE_LDOUBLE then
        emit_fixed ts (unat (va_size a)) [] off n wc
      else
        (case vas of [] \<Rightarrow> Some (None, n, mark_ub wc) | v # _ \<Rightarrow>
          (case va_fixed a v of
             None \<Rightarrow> Some (None, n, mark_ub wc)
           | Some bs \<Rightarrow> emit_fixed ts (unat (va_size a)) bs off n wc)))"

text \<open>An argument of a size the code has no branch for is skipped without reading a value.\<close>

definition reads_va :: "log_varg \<Rightarrow> bool" where
  "reads_va a \<longleftrightarrow> is_str_type (va_type a) \<or> va_size a = 8 \<or> va_type a = P8_LOG_ARG_TYPE_LDOUBLE"

fun emit_args :: "u64 \<Rightarrow> log_varg list \<Rightarrow> va_val list \<Rightarrow> nat \<Rightarrow> nat \<Rightarrow> 'c wc \<Rightarrow> 'c ser" where
  "emit_args ts [] vas off n wc = Some (Some off, n, wc)"
| "emit_args ts (a # as) vas off n wc =
     and_then (emit_arg ts a vas off n wc) (emit_args ts as (if reads_va a then tl vas else vas))"

section \<open>Attributes\<close>

definition emit_attr :: "u64 \<Rightarrow> attr_type \<Rightarrow> attr_val \<Rightarrow> nat \<Rightarrow> nat \<Rightarrow> 'c wc \<Rightarrow> 'c ser" where
  "emit_attr ts ty v off n wc =
     (if ty = e_p8_attr_str then
        and_then (emit_fixed ts 4 (le_bytes 4 (nat (av_id v))) off n wc) (emit_string ts (str_bytes (av_str v)))
      else emit_fixed ts 12 (le_bytes 4 (nat (av_id v)) @ le_bytes 8 (unat (av_u64 v))) off n wc)"

text \<open>
  The loop over the attributes; it also returns the attribute cache and the 8-bit count. Ids
  that are negative or unknown even after a synchronisation are skipped.
\<close>

fun emit_attrs :: "u64 \<Rightarrow> attr_val list \<Rightarrow> attr_desc list \<Rightarrow> u8 \<Rightarrow> nat \<Rightarrow> nat \<Rightarrow> ('a reg_core_ext) wc \<Rightarrow>
    attr_desc list \<times> u8 \<times> ('a reg_core_ext) ser" where
  "emit_attrs ts [] cache cnt off n wc = (cache, cnt, Some (Some off, n, wc))"
| "emit_attrs ts (v # vs) cache cnt off n wc =
     (if av_id v < 0 then emit_attrs ts vs cache cnt off n wc
      else let i = nat (av_id v);
               cache1 = (if length cache \<le> i then sync_attr_cache cache (snd wc) else cache)
           in if length cache1 \<le> i then emit_attrs ts vs cache1 cnt off n wc
              else case emit_attr ts (ad_type (cache1 ! i)) v off n wc of
                  Some (Some o1, n1, wc1) \<Rightarrow> emit_attrs ts vs cache1 (cnt + 1) o1 n1 wc1
                | r \<Rightarrow> (cache1, cnt, r))"

section \<open>The record\<close>

text \<open>Stores to fields of the item header at offset \<open>off\<close> of buffer \<open>b\<close>.\<close>

definition upd_item :: "addr \<Rightarrow> nat \<Rightarrow> (log_item \<Rightarrow> log_item) \<Rightarrow> 'c wc \<Rightarrow> 'c wc" where
  "upd_item b off f wc =
     (fst wc, mem_write b off (enc_log_item (f (dec_log_item (drop off (c_mem (snd wc) b))))) (snd wc))"

definition item_start :: "u64 \<Rightarrow> u64 \<Rightarrow> u64 \<Rightarrow> u32 \<Rightarrow> nat \<Rightarrow> u16 \<Rightarrow> log_item \<Rightarrow> log_item" where
  "item_start hash ts trace tid level modid h = h\<lparr>li_hash := hash, li_timestamp := ts, li_trace_id := trace,
     li_thread_id := tid, li_level := of_nat level, li_processor := 0, li_attrs_count := 0,
     li_mod_id := modid, li_flags := 0\<rparr>"

text \<open>\<^verbatim>\<open>lbl_discard\<close>: the buffers added by this record go back to the pool, last first.\<close>

definition log_discard :: "nat \<Rightarrow> 'c wc \<Rightarrow> 'c wc" where
  "log_discard commit wc = (case wc of (w, c) \<Rightarrow>
     (w\<lparr>w_frags := take commit (w_frags w), w_buffer := None, w_used := 0, w_drop_logs := w_drop_logs w + 1\<rparr>,
      fold (\<lambda>b. release_buffer (Some b)) (rev (drop commit (w_frags w))) c))"

text \<open>
  The end of a record in buffer \<open>b\<close>, common to logs and metrics: its header gets the size and the
  time, and a buffer with fewer than \<open>least\<close> bytes left is parked.
\<close>

definition end_item :: "nat \<Rightarrow> u64 \<Rightarrow> nat \<Rightarrow> addr \<Rightarrow> 'c wc \<Rightarrow> 'c wc" where
  "end_item least ts used b wc =
     (let w = fst wc; c = snd wc;
          c1 = c\<lparr>c_mem := (c_mem c)(b := upd_buf_hdr (\<lambda>h. h\<lparr>bh_size := of_nat used, bh_stop_time := ts\<rparr>) (c_mem c b))\<rparr>
      in if size_sub (w_max w) used < least
         then (w\<lparr>w_frags := w_frags w @ [b], w_buffer := None, w_used := 0\<rparr>, c1)
         else (w\<lparr>w_used := used\<rparr>, c1))"

text \<open>The success path from the padding to the final parking.\<close>

definition log_finish :: "u64 \<Rightarrow> addr \<Rightarrow> nat \<Rightarrow> nat \<Rightarrow> nat \<Rightarrow> u8 \<Rightarrow> nat \<Rightarrow> 'c wc \<Rightarrow> 'c wc" where
  "log_finish ts b0 off0 nargs nattrs cnt off wc =
     (let sz = sz_log_item + nargs + nattrs;
          pad = align_up_8 sz - sz;
          (w, c) = upd_item b0 off0 (\<lambda>h. h\<lparr>li_attrs_count := cnt, li_size := of_nat (sz + pad)\<rparr>) wc;
          used = off + pad
      in case w_buffer w of None \<Rightarrow> mark_ub (w, c) | Some b \<Rightarrow> end_item P8_LOG_MIN_BUFFER_SPACE ts used b (w, c))"

text \<open>Serialisation of one record into the current buffer and its successors.\<close>

definition log_record ::
    "u64 \<Rightarrow> log_call \<Rightarrow> log_desc \<Rightarrow> u16 \<Rightarrow> attr_desc list \<Rightarrow> ('a reg_core_ext) wc \<Rightarrow>
     (bool \<times> attr_desc list \<times> ('a reg_core_ext) wc) option" where
  "log_record ts lc d modid cache wc =
     (case w_buffer (fst wc) of
        None \<Rightarrow> Some (False, cache, mark_ub wc)
      | Some b0 \<Rightarrow>
          (let commit = length (w_frags (fst wc));
               off0 = w_used (fst wc);
               wc1 = upd_item b0 off0 (item_start (ld_hash d) ts (lc_trace_id lc) (w_tid (fst wc)) (lc_level lc) modid) wc;
               discard = (\<lambda>nargs nattrs cnt wc'. log_discard commit (upd_item b0 off0
                  (\<lambda>h. h\<lparr>li_args_size := of_nat nargs, li_attrs_count := cnt, li_size := of_nat (sz_log_item + nargs + nattrs)\<rparr>) wc'))
           in case emit_args ts (ld_args d) (lc_args lc) (off0 + sz_log_item) 0 wc1 of
                None \<Rightarrow> None
              | Some (None, n, wc2) \<Rightarrow> Some (False, cache, discard n 0 0 wc2)
              | Some (Some o2, n, wc2) \<Rightarrow>
                  (case emit_attrs ts (lc_attrs lc) cache 0 o2 0 (upd_item b0 off0 (\<lambda>h. h\<lparr>li_args_size := of_nat n\<rparr>) wc2) of
                     (cache1, cnt, None) \<Rightarrow> None
                   | (cache1, cnt, Some (None, m, wc3)) \<Rightarrow> Some (False, cache1, discard n m cnt wc3)
                   | (cache1, cnt, Some (Some o3, m, wc3)) \<Rightarrow>
                       Some (True, cache1, log_finish ts b0 off0 n m cnt o3 wc3))))"

section \<open>The call\<close>

definition add_drop_log :: "'c wc \<Rightarrow> 'c wc" where
  "add_drop_log wc = ((fst wc)\<lparr>w_drop_logs := w_drop_logs (fst wc) + 1\<rparr>, snd wc)"

text \<open>The threshold a record is compared with, and the module id it carries.\<close>

definition log_gate :: "log_state \<Rightarrow> nat option \<Rightarrow> 'a reg_core_scheme \<Rightarrow> nat \<times> u16" where
  "log_gate ls m c =
     (case m of
        Some i \<Rightarrow> (lm_verb (c_mods c ! i), lm_id (c_mods c ! i))
      | None \<Rightarrow> (if ls_has_core ls then get_verbosity None c else 0, 0xFFFF))"

text \<open>The descriptor, from the logger's own map or else from the core's.\<close>

definition log_lookup :: "(cstr \<Rightarrow> u32 \<Rightarrow> u64) \<Rightarrow> log_call \<Rightarrow> log_state \<Rightarrow> ('a reg_core_ext) wc \<Rightarrow>
    log_desc option \<times> log_state \<times> ('a reg_core_ext) wc" where
  "log_lookup hash lc ls wc =
     (let h = hash (lc_file lc) (lc_line lc)
      in case ls_descs ls h of
           Some d \<Rightarrow> (Some d, ls, wc)
         | None \<Rightarrow>
             (case resolve_log_desc h (lc_file lc) (lc_line lc) (lc_function lc) (lc_format lc) (snd wc) of
                (None, c1) \<Rightarrow> (None, ls, fst wc, c1)
              | (Some d, c1) \<Rightarrow> (Some d, ls\<lparr>ls_descs := (ls_descs ls)(h \<mapsto> d)\<rparr>, fst wc, c1)))"

definition log_send :: "(cstr \<Rightarrow> u32 \<Rightarrow> u64) \<Rightarrow> ('a reg_core_ext) call_env \<Rightarrow> log_call \<Rightarrow>
    log_state \<Rightarrow> ('a reg_core_ext) wc \<Rightarrow> (bool \<times> log_state \<times> ('a reg_core_ext) wc) option" where
  "log_send hash env lc ls wc =
     (let (least, modid) = log_gate ls (lc_module lc) (snd wc)
      in if lc_level lc < least then Some (False, ls, wc)
         else if \<not> ls_has_core ls then Some (False, ls, wc)
         else case ensure_buffer P8_PACKET_LOGS env (park_below (P8_LOG_MIN_BUFFER_SPACE + sz_log_item) wc) of
             (False, wc1) \<Rightarrow> Some (False, ls, add_drop_log wc1)
           | (True, wc1) \<Rightarrow>
               (case log_lookup hash lc ls wc1 of
                  (None, ls1, wc2) \<Rightarrow> Some (False, ls1, wc2)
                | (Some d, ls1, wc2) \<Rightarrow>
                    (case log_record (env_now env) lc d modid (ls_cache ls1) wc2 of
                       None \<Rightarrow> None
                     | Some (ok, cache1, wc3) \<Rightarrow> Some (ok, ls1\<lparr>ls_cache := cache1\<rparr>, wc3))))"

end
