(* ===== verification/LogStream.thy ===== *)
theory LogStream
  imports LogSend
begin

text \<open>
  What \<open>log_record\<close> (\<^verbatim>\<open>cp8_log::send\<close>, \<^verbatim>\<open>engine/p8_log.cpp\<close>) puts on the wire. The record's header is
  written first and patched later, when the buffer it is in may already be parked; \<open>holds_item\<close>
  follows it through the stream of the writer's buffers.
\<close>

section \<open>The stream buffer by buffer\<close>

lemma concat_map_eq: "(\<And>x. x \<in> set xs \<Longrightarrow> f x = g x) \<Longrightarrow> concat (map f xs) = concat (map g xs)"
  by (metis map_cong)

definition content :: "'c wc \<Rightarrow> nat \<Rightarrow> addr \<Rightarrow> byte list" where
  "content wc off b = sub_bytes 24 (live_end wc off b - 24) (c_mem (snd wc) b)"

lemma rec_stream_held:
  assumes "distinct (held_bufs (fst wc))"
  shows "rec_stream wc off = concat (map (content wc off) (held_bufs (fst wc)))"
proof (cases "w_buffer (fst wc)")
  case None
  then have "concat (map (content wc off) (w_frags (fst wc))) = concat (map (payload (snd wc)) (w_frags (fst wc)))"
    by (intro concat_map_eq) (simp add: content_def live_end_def payload_def)
  then show ?thesis using None by (simp add: rec_stream_def held_bufs_def payloads_def)
next
  case (Some d)
  have "concat (map (content wc off) (w_frags (fst wc))) = concat (map (payload (snd wc)) (w_frags (fst wc)))"
    using assms Some
    by (intro concat_map_eq) (auto simp: content_def live_end_def payload_def held_bufs_def)
  then show ?thesis using Some by (simp add: rec_stream_def held_bufs_def payloads_def content_def live_end_def)
qed

text \<open>Moving the cursor over bytes that are already there.\<close>

lemma extends_skip:
  assumes "writer_ok wc" "at_cursor wc off" "off + k \<le> w_max (fst wc)"
  shows "\<exists>xs. length xs = k \<and> extends wc off wc (off + k) xs"
proof -
  obtain b where b: "w_buffer (fst wc) = Some b" and off: "24 \<le> off" using assms(2) by (auto simp: at_cursor_def)
  let ?xs = "sub_bytes off k (c_mem (snd wc) b)"
  have len: "length (c_mem (snd wc) b) = w_max (fst wc)" using assms(1) by (simp add: writer_ok_def core_ok_def)
  have "sub_bytes 24 (off + k - 24) (c_mem (snd wc) b) = sub_bytes 24 (off - 24) (c_mem (snd wc) b) @ ?xs"
    using sub_bytes_split [of 24 "off - 24" k "c_mem (snd wc) b"] off by simp
  then have "extends wc off wc (off + k) ?xs"
    using assms b off by (simp add: extends_def at_cursor_def rec_stream_def live_end_def)
  moreover have "length ?xs = k" using len assms(3) by simp
  ultimately show ?thesis by blast
qed

section \<open>Following a header that is patched in place\<close>

definition before :: "'c wc \<Rightarrow> nat \<Rightarrow> addr \<Rightarrow> byte list" where
  "before wc off b = concat (map (content wc off) (takeWhile (\<lambda>x. x \<noteq> b) (held_bufs (fst wc))))"

text \<open>
  The item header \<open>h\<close> is at offset \<open>off0\<close> of the held buffer \<open>b\<close>; the stream is \<open>A\<close>, the
  header with its two unused bytes, and \<open>rest\<close>.
\<close>

definition holds_item :: "addr \<Rightarrow> nat \<Rightarrow> byte list \<Rightarrow> log_item \<Rightarrow> byte list \<Rightarrow> byte list \<Rightarrow> 'c wc \<Rightarrow> nat \<Rightarrow> bool" where
  "holds_item b off0 A h p rest wc off \<longleftrightarrow> writer_ok wc \<and> at_cursor wc off \<and> b \<in> set (held_bufs (fst wc)) \<and>
     24 \<le> off0 \<and> off0 + 40 \<le> live_end wc off b \<and> length p = 2 \<and>
     rec_stream wc off = A @ enc_log_item h @ p @ rest \<and> length A = length (before wc off b) + (off0 - 24)"

lemma live_end_le:
  assumes "writer_ok wc" "at_cursor wc off" "b \<in> set (held_bufs (fst wc))"
  shows "live_end wc off b \<le> w_max (fst wc)"
proof (cases "w_buffer (fst wc) = Some b")
  case True
  then show ?thesis using assms(2) by (simp add: live_end_def at_cursor_def)
next
  case False
  then have "b \<in> set (w_frags (fst wc))" using assms(3) by (auto simp: held_bufs_def split: option.splits)
  then show ?thesis using assms(1) False by (auto simp: live_end_def writer_ok_def frag_ok_def)
qed

lemma takeWhile_mid: "b \<notin> set xs \<Longrightarrow> takeWhile (\<lambda>x. x \<noteq> b) (xs @ b # ys) = xs"
  by (induction xs) auto

lemma held_split:
  assumes "b \<in> set (held_bufs w)" "distinct (held_bufs w)"
  obtains xs ys where "held_bufs w = xs @ b # ys" "b \<notin> set xs" "b \<notin> set ys"
    "takeWhile (\<lambda>x. x \<noteq> b) (held_bufs w) = xs"
proof -
  obtain xs ys where h: "held_bufs w = xs @ b # ys" using assms(1) by (auto dest: split_list)
  with assms(2) have "b \<notin> set xs" "b \<notin> set ys" by auto
  with h takeWhile_mid that show ?thesis by metis
qed

text \<open>A store to the header changes the header in the stream and nothing else.\<close>

lemma holds_item_upd:
  assumes "holds_item b off0 A h p rest wc off"
  shows "holds_item b off0 A (f h) p rest (upd_item b off0 f wc) off \<and>
    same_writer wc (upd_item b off0 f wc) \<and> fst (upd_item b off0 f wc) = fst wc \<and>
    (\<forall>x. x \<noteq> b \<longrightarrow> c_mem (snd (upd_item b off0 f wc)) x = c_mem (snd wc) x) \<and>
    (\<forall>x. hdr (snd (upd_item b off0 f wc)) x = hdr (snd wc) x)"
proof -
  obtain w c where wc: "wc = (w, c)" by fastforce
  have ok: "writer_ok (w, c)" and cur: "at_cursor (w, c) off" and inb: "b \<in> set (held_bufs w)"
    and off0: "24 \<le> off0" and live: "off0 + 40 \<le> live_end (w, c) off b" and p: "length p = 2"
    and st: "rec_stream (w, c) off = A @ enc_log_item h @ p @ rest" and lenA: "length A = length (before (w, c) off b) + (off0 - 24)"
    using assms wc by (simp_all add: holds_item_def)
  have dist: "distinct (held_bufs w)" using ok by (simp add: writer_ok_def)
  obtain xs ys where held: "held_bufs w = xs @ b # ys" "b \<notin> set xs" "b \<notin> set ys"
    and tw: "takeWhile (\<lambda>x. x \<noteq> b) (held_bufs w) = xs" using held_split [OF inb dist] by blast
  let ?m = "c_mem c b" and ?e = "live_end (w, c) off b"
  have len: "length ?m = w_max w" using ok by (simp add: writer_ok_def core_ok_def)
  have e: "?e \<le> w_max w" using live_end_le [OF ok cur] inb by simp
  have A: "A = before (w, c) off b @ sub_bytes 24 (off0 - 24) ?m" and
    hp: "enc_log_item h @ p = sub_bytes off0 40 ?m" and
    rest: "rest = sub_bytes (off0 + 40) (?e - off0 - 40) ?m @ concat (map (content (w, c) off) ys)"
  proof -
    have parts: "content (w, c) off b = sub_bytes 24 (off0 - 24) ?m @ sub_bytes off0 40 ?m @ sub_bytes (off0 + 40) (?e - off0 - 40) ?m"
      using sub_bytes_split [of 24 "off0 - 24" "40 + (?e - off0 - 40)" ?m] sub_bytes_split [of off0 40 "?e - off0 - 40" ?m]
        live off0 by (simp add: content_def)
    have "A @ (enc_log_item h @ p) @ rest =
        (before (w, c) off b @ sub_bytes 24 (off0 - 24) ?m) @ sub_bytes off0 40 ?m @
        (sub_bytes (off0 + 40) (?e - off0 - 40) ?m @ concat (map (content (w, c) off) ys))"
      using st rec_stream_held [of "(w, c)" off] dist held tw parts by (simp add: before_def)
    moreover have "length A = length (before (w, c) off b @ sub_bytes 24 (off0 - 24) ?m)"
      "length (enc_log_item h @ p) = length (sub_bytes off0 40 ?m)"
      using lenA len live e off0 p by simp_all
    ultimately show "A = before (w, c) off b @ sub_bytes 24 (off0 - 24) ?m" "enc_log_item h @ p = sub_bytes off0 40 ?m"
      "rest = sub_bytes (off0 + 40) (?e - off0 - 40) ?m @ concat (map (content (w, c) off) ys)"
      by (metis append_eq_append_conv)+
  qed
  have dec: "dec_log_item (drop off0 ?m) = h"
  proof -
    have "take 40 (drop off0 ?m) = enc_log_item h @ p" using hp by (simp add: sub_bytes_def)
    then have "drop off0 ?m = enc_log_item h @ p @ drop 40 (drop off0 ?m)" by (metis append.assoc append_take_drop_id)
    then show ?thesis by (metis dec_enc_log_item)
  qed
  let ?m' = "put_bytes off0 (enc_log_item (f h)) ?m" and ?c' = "c\<lparr>c_mem := (c_mem c)(b := put_bytes off0 (enc_log_item (f h)) (c_mem c b))\<rparr>"
  have upd: "upd_item b off0 f wc = (w, ?c')"
    using wc dec live e len by (simp add: upd_item_def mem_write_def)
  have hdr: "hdr ?c' x = hdr c x" for x
    using off0 len ok by (simp add: hdr_def writer_ok_def)
  have ok': "writer_ok (w, ?c')"
  proof -
    have "core_ok ?c'" using ok len live e by (intro core_ok_mem) (simp_all add: writer_ok_def)
    then show ?thesis using ok hdr unfolding writer_ok_def by auto
  qed
  have le: "live_end (w, ?c') off x = live_end (w, c) off x" for x by (simp add: live_end_def hdr)
  have cont: "content (w, ?c') off x = content (w, c) off x" if "x \<noteq> b" for x using that by (simp add: content_def le)
  have bef: "before (w, ?c') off b = before (w, c) off b"
  proof -
    have "concat (map (content (w, ?c') off) xs) = concat (map (content (w, c) off) xs)"
      by (intro concat_map_eq cont) (use held in auto)
    then show ?thesis by (simp only: before_def fst_conv tw)
  qed
  have ysc: "concat (map (content (w, ?c') off) ys) = concat (map (content (w, c) off) ys)"
    by (intro concat_map_eq cont) (use held in auto)
  have "content (w, ?c') off b = sub_bytes 24 (off0 - 24) ?m @ (enc_log_item (f h) @ p) @ sub_bytes (off0 + 40) (?e - off0 - 40) ?m"
  proof -
    have "content (w, ?c') off b = sub_bytes 24 (off0 - 24) ?m' @ sub_bytes off0 38 ?m' @ sub_bytes (off0 + 38) 2 ?m' @ sub_bytes (off0 + 40) (?e - off0 - 40) ?m'"
      using sub_bytes_split [of 24 "off0 - 24" "40 + (?e - off0 - 40)" ?m'] sub_bytes_split [of off0 40 "?e - off0 - 40" ?m']
        sub_bytes_split [of off0 38 2 ?m'] live off0 by (simp add: content_def le)
    moreover have "sub_bytes 24 (off0 - 24) ?m' = sub_bytes 24 (off0 - 24) ?m"
      using off0 len live e by (intro sub_put_below) simp_all
    moreover have "sub_bytes off0 38 ?m' = enc_log_item (f h)"
      using sub_put_same [of off0 "enc_log_item (f h)" ?m] len live e by simp
    moreover have "sub_bytes (off0 + 38) 2 ?m' = sub_bytes (off0 + 38) 2 ?m"
      using len live e by (intro sub_put_above) simp_all
    moreover have "sub_bytes (off0 + 40) (?e - off0 - 40) ?m' = sub_bytes (off0 + 40) (?e - off0 - 40) ?m"
      using len live e by (intro sub_put_above) simp_all
    moreover have "p = sub_bytes (off0 + 38) 2 ?m"
      using hp sub_bytes_split [of off0 38 2 ?m] len live e by (auto simp: append_eq_append_conv)
    ultimately show ?thesis by simp
  qed
  then have "rec_stream (w, ?c') off = A @ enc_log_item (f h) @ p @ rest"
    using rec_stream_held [of "(w, ?c')" off] dist held bef ysc A rest tw by (simp add: before_def)
  then have "holds_item b off0 A (f h) p rest (w, ?c') off"
    using ok' cur inb off0 live p lenA bef le by (simp add: holds_item_def at_cursor_def)
  then show ?thesis using hdr upd wc by (auto simp: same_writer_def)
qed
text \<open>Further serialisation leaves the header where it is.\<close>

lemma holds_item_extends:
  assumes item: "holds_item b off0 A h p rest wc off" and ext: "extends wc off wc' off' bs"
  shows "holds_item b off0 A h p (rest @ bs) wc' off'"
proof -
  have ok: "writer_ok wc" and cur: "at_cursor wc off" and inb: "b \<in> set (held_bufs (fst wc))"
    and live: "off0 + 40 \<le> live_end wc off b"
    using item by (simp_all add: holds_item_def)
  have dist: "distinct (held_bufs (fst wc))" using ok by (simp add: writer_ok_def)
  have ok': "writer_ok wc'" and cur': "at_cursor wc' off'" using extendsD [OF ext] by simp_all
  then have dist': "distinct (held_bufs (fst wc'))" by (simp add: writer_ok_def)
  obtain zs where zs: "held_bufs (fst wc') = held_bufs (fst wc) @ zs" using ext by (auto simp: extends_def)
  obtain d where d: "w_buffer (fst wc) = Some d" using cur by (auto simp: at_cursor_def)
  have frags: "\<forall>x\<in>set (w_frags (fst wc)). c_mem (snd wc') x = c_mem (snd wc) x \<and> w_buffer (fst wc') \<noteq> Some x \<and> w_buffer (fst wc) \<noteq> Some x"
  proof
    fix x
    assume x: "x \<in> set (w_frags (fst wc))"
    then have "x \<in> set (w_frags (fst wc'))" using frags_in_held [OF zs] d by auto
    then show "c_mem (snd wc') x = c_mem (snd wc) x \<and> w_buffer (fst wc') \<noteq> Some x \<and> w_buffer (fst wc) \<noteq> Some x"
      using ext x dist dist' by (auto simp: extends_def held_bufs_def)
  qed
  have le: "live_end wc' off' x = live_end wc off x" if "x \<in> set (w_frags (fst wc))" for x
    using frags that hdr_mem_cong [of "snd wc'" x "snd wc"] by (simp add: live_end_def)
  have cont: "content wc' off' x = content wc off x" if "x \<in> set (w_frags (fst wc))" for x
    using frags that le by (simp add: content_def)
  have "live_end wc off b \<le> live_end wc' off' b"
  proof (cases "b = d")
    case True
    then have "off \<le> live_end wc' off' b" using ext d by (simp add: extends_def)
    then show ?thesis using True d by (simp add: live_end_def)
  next
    case False
    then show ?thesis using inb d le [of b] by (simp add: held_bufs_def)
  qed
  moreover have "before wc' off' b = before wc off b"
  proof -
    obtain xs ys where held: "held_bufs (fst wc) = xs @ b # ys" "b \<notin> set xs" and tw: "takeWhile (\<lambda>x. x \<noteq> b) (held_bufs (fst wc)) = xs"
      using held_split [OF inb dist] by metis
    have tw': "takeWhile (\<lambda>x. x \<noteq> b) (held_bufs (fst wc')) = xs" using zs held by (simp add: takeWhile_mid)
    have "w_frags (fst wc) @ [d] = xs @ b # ys" using held d by (simp add: held_bufs_def)
    then have "w_frags (fst wc) = xs @ butlast (b # ys)" by (metis butlast_append butlast_snoc list.distinct(1))
    then have "set xs \<subseteq> set (w_frags (fst wc))" by auto
    then show ?thesis unfolding before_def tw tw' by (intro concat_map_eq cont) auto
  qed
  ultimately show ?thesis
    using item ext ok' cur' inb zs live by (auto simp: holds_item_def extends_def)
qed

text \<open>Writing the header at the cursor, when the whole struct fits.\<close>

lemma item_start_holds:
  assumes ok: "writer_ok wc" and cur: "at_cursor wc off0" and b: "w_buffer (fst wc) = Some b"
    and fit: "off0 + 40 \<le> w_max (fst wc)"
  shows "\<exists>p. holds_item b off0 (rec_stream wc off0) (f (dec_log_item (drop off0 (c_mem (snd wc) b)))) p []
      (upd_item b off0 f wc) (off0 + 40) \<and>
    extends wc off0 (upd_item b off0 f wc) (off0 + 40) (enc_log_item (f (dec_log_item (drop off0 (c_mem (snd wc) b)))) @ p)"
proof -
  obtain w c where wc: "wc = (w, c)" by fastforce
  let ?h = "f (dec_log_item (drop off0 (c_mem c b)))" and ?wc1 = "upd_item b off0 f wc"
  have eq: "?wc1 = buf_write off0 (enc_log_item ?h) (w, c)" using wc b by (simp add: upd_item_def buf_write_def)
  have e1: "extends (w, c) off0 ?wc1 (off0 + 38) (enc_log_item ?h)"
    using buf_write_extends [of w c off0 "enc_log_item ?h"] ok cur fit wc eq by simp
  have w1: "fst ?wc1 = w" using wc by (simp add: upd_item_def)
  have ok1: "writer_ok ?wc1" "at_cursor ?wc1 (off0 + 38)" using extendsD [OF e1] by simp_all
  have "off0 + 38 + 2 \<le> w_max (fst ?wc1)" using fit wc w1 by simp
  from extends_skip [OF ok1 this] obtain p where p: "length p = 2" "extends ?wc1 (off0 + 38) ?wc1 (off0 + 38 + 2) p" by blast
  have e: "extends wc off0 ?wc1 (off0 + 40) (enc_log_item ?h @ p)"
    using extends_trans [OF e1 p(2)] cur wc by (simp add: add.commute)
  have "off0 \<ge> 24" using cur by (simp add: at_cursor_def)
  moreover have "length (rec_stream wc off0) = length (before ?wc1 (off0 + 40) b) + (off0 - 24)"
  proof -
    have dist: "distinct (held_bufs w)" using ok wc by (simp add: writer_ok_def)
    have notin: "b \<notin> set (w_frags w)" using dist b wc by (simp add: held_bufs_def)
    have held: "held_bufs w = w_frags w @ [b]" using b wc by (simp add: held_bufs_def)
    have "content ?wc1 (off0 + 40) x = payload c x" if x: "x \<in> set (w_frags w)" for x
    proof -
      have m: "c_mem (snd ?wc1) x = c_mem c x" using e x wc by (simp add: extends_def)
      have "w_buffer (fst ?wc1) \<noteq> Some x" using w1 b wc notin x by auto
      then show ?thesis using hdr_mem_cong [OF m] m by (simp add: content_def live_end_def payload_def)
    qed
    then have "before ?wc1 (off0 + 40) b = payloads c (w_frags w)"
      unfolding before_def w1 held takeWhile_mid [OF notin, of "[]"] payloads_def by (intro concat_map_eq)
    moreover have "length (c_mem c b) = w_max w" using ok wc by (simp add: writer_ok_def core_ok_def)
    ultimately show ?thesis using b wc fit \<open>24 \<le> off0\<close> by (simp add: rec_stream_def)
  qed
  ultimately have "holds_item b off0 (rec_stream wc off0) ?h p [] ?wc1 (off0 + 40)"
    using e p(1) b wc w1 by (simp add: holds_item_def extends_def held_bufs_def live_end_def)
  then show ?thesis using e wc by auto
qed

section \<open>Arguments and attributes as pieces\<close>

text \<open>The value passed fits its descriptor.\<close>

definition arg_ok :: "log_varg \<Rightarrow> va_val \<Rightarrow> bool" where
  "arg_ok a v \<longleftrightarrow> valid_varg a \<and>
     (if is_str_type (va_type a) then va_string (va_type a) v \<noteq> None
      else \<exists>bs. va_fixed a v = Some bs \<and> length bs = unat (va_size a))"

definition arg_pieces :: "log_varg \<Rightarrow> va_val \<Rightarrow> piece list" where
  "arg_pieces a v =
     (if is_str_type (va_type a) then (let bs = the (va_string (va_type a) v) in [Block (le_bytes 2 (length bs)), Bytes bs])
      else [Block (the (va_fixed a v))])"

definition arg_bytes :: "log_varg \<Rightarrow> va_val \<Rightarrow> byte list" where
  "arg_bytes a v = concat (map piece_bytes (arg_pieces a v))"

text \<open>What a reader sees: fixed-size values as they are, strings behind a 16-bit length.\<close>

definition args_bytes :: "log_varg list \<Rightarrow> va_val list \<Rightarrow> byte list" where
  "args_bytes as vs = concat (map2 arg_bytes as vs)"

lemma and_then_emit_all:
  "and_then r (\<lambda>o1 n1 wc1. rs.emit_all ts qs o1 n1 wc1) =
   (case r of Some (Some o1, n1, s1) \<Rightarrow> rs.emit_all ts qs o1 n1 s1 | r \<Rightarrow> r)"
  by (auto simp: and_then_def split: option.splits)
lemma emit_all_single: "rs.emit_all ts [p] off n wc = emit_piece ts p off n wc"
  by (auto split: option.splits)

lemma emit_string_all: "emit_string ts bs off n wc = rs.emit_all ts [Block (le_bytes 2 (length bs)), Bytes bs] off n wc"
  unfolding emit_string_pieces and_then_def rs.emit_all.simps(2) [of ts "Block _"] emit_all_single
  by (auto split: option.splits)

lemma emit_arg_all:
  assumes "arg_ok a v"
  shows "emit_arg ts a (v # vs) off n wc = rs.emit_all ts (arg_pieces a v) off n wc"
proof (cases "is_str_type (va_type a)")
  case True
  with assms obtain bs where "va_string (va_type a) v = Some bs" by (auto simp: arg_ok_def)
  then show ?thesis using True by (simp add: emit_arg_def arg_pieces_def emit_string_all Let_def del: rs.emit_all.simps)
next
  case False
  with assms obtain bs where bs: "va_fixed a v = Some bs" "length bs = unat (va_size a)" and val: "valid_varg a"
    by (auto simp: arg_ok_def)
  have "\<not> (va_size a \<noteq> 8 \<and> va_type a \<noteq> P8_LOG_ARG_TYPE_LDOUBLE)" using val False by (auto simp: valid_varg_def split: if_splits)
  then show ?thesis using False bs by (auto simp: emit_arg_def arg_pieces_def emit_all_single simp del: rs.emit_all.simps)
qed

lemma arg_ok_reads: "arg_ok a v \<Longrightarrow> reads_va a"
  by (auto simp: arg_ok_def valid_varg_def reads_va_def split: if_splits)

lemma emit_args_all:
  assumes "list_all2 arg_ok as vs"
  shows "emit_args ts as vs off n wc = rs.emit_all ts (concat (map2 arg_pieces as vs)) off n wc"
  using assms
proof (induction as vs arbitrary: off n wc rule: list_all2_induct)
  case (Cons a as v vs)
  show ?case
    using Cons.hyps(1)
    by (auto simp: emit_arg_all arg_ok_reads Cons.IH rs.emit_all_append and_then_def simp del: rs.emit_all.simps split: option.splits)
qed simp

lemma arg_pieces_fit:
  assumes "arg_ok a v" "p \<in> set (arg_pieces a v)"
  shows "block_len p \<le> 16"
  using assms by (auto simp: arg_ok_def arg_pieces_def valid_varg_def Let_def split: if_splits)

lemma args_pieces_fit:
  assumes "list_all2 arg_ok as vs" "40 \<le> mx"
  shows "\<forall>p\<in>set (concat (map2 arg_pieces as vs)). block_len p \<le> mx - 24"
  using assms(1)
proof (induction as vs rule: list_all2_induct)
  case (Cons a as v vs)
  have "block_len p \<le> mx - 24" if "p \<in> set (arg_pieces a v)" for p
    using arg_pieces_fit [OF Cons.hyps(1) that] assms(2) by simp
  then show ?case using Cons.IH by auto
qed simp

lemma args_bytes_pieces:
  "list_all2 arg_ok as vs \<Longrightarrow> concat (map piece_bytes (concat (map2 arg_pieces as vs))) = args_bytes as vs"
  by (induction as vs rule: list_all2_induct) (simp_all add: args_bytes_def arg_bytes_def)

lemma emit_args_spec:
  assumes "writer_ok wc" "at_cursor wc off" "40 \<le> w_max (fst wc)" "list_all2 arg_ok as vs"
  shows "\<exists>r n' wc'. emit_args ts as vs off n wc = Some (r, n', wc') \<and>
    (case r of Some off' \<Rightarrow> extends wc off wc' off' (args_bytes as vs) \<and> n' = n + length (args_bytes as vs)
     | None \<Rightarrow> \<exists>k. fails wc off wc' (take k (args_bytes as vs)))"
proof -
  note spec = rs.emit_all_spec [of wc off "concat (map2 arg_pieces as vs)" ts n, OF conjI [OF assms(1,2)]
      args_pieces_fit [OF assms(4,3)], unfolded args_bytes_pieces [OF assms(4)]]
  show ?thesis unfolding emit_args_all [OF assms(4)] by (rule spec)
qed

text \<open>An attribute: its id, then 8 bytes or a length-prefixed string.\<close>

definition attr_pieces :: "attr_type \<Rightarrow> attr_val \<Rightarrow> piece list" where
  "attr_pieces ty v =
     (if ty = e_p8_attr_str then [Block (le_bytes 4 (nat (av_id v))), Block (le_bytes 2 (length (str_bytes (av_str v)))), Bytes (str_bytes (av_str v))]
      else [Block (le_bytes 4 (nat (av_id v)) @ le_bytes 8 (unat (av_u64 v)))])"

definition attr_known :: "attr_desc list \<Rightarrow> attr_val \<Rightarrow> bool" where
  "attr_known ds v \<longleftrightarrow> 0 \<le> av_id v \<and> nat (av_id v) < length ds"

definition attrs_bytes :: "attr_desc list \<Rightarrow> attr_val list \<Rightarrow> byte list" where
  "attrs_bytes ds vs = concat (map (\<lambda>v. concat (map piece_bytes (attr_pieces (ad_type (ds ! nat (av_id v))) v))) (filter (attr_known ds) vs))"

lemma emit_attr_all: "emit_attr ts ty v off n wc = rs.emit_all ts (attr_pieces ty v) off n wc"
proof (cases "ty = e_p8_attr_str")
  case True
  let ?i = "le_bytes 4 (nat (av_id v))" and ?s = "str_bytes (av_str v)"
  have "attr_pieces ty v = [Block ?i] @ [Block (le_bytes 2 (length ?s)), Bytes ?s]" using True by (simp add: attr_pieces_def)
  then have "rs.emit_all ts (attr_pieces ty v) off n wc =
      (case rs.emit_all ts [Block ?i] off n wc of
         Some (Some o1, n1, s1) \<Rightarrow> rs.emit_all ts [Block (le_bytes 2 (length ?s)), Bytes ?s] o1 n1 s1 | r \<Rightarrow> r)"
    by (simp only: rs.emit_all_append)
  then show ?thesis using True by (auto simp: emit_attr_def and_then_def emit_string_all emit_all_single simp del: rs.emit_all.simps split: option.splits)
next
  case False
  then show ?thesis by (simp add: emit_attr_def attr_pieces_def emit_all_single del: rs.emit_all.simps)
qed
lemma attr_pieces_fit: "p \<in> set (attr_pieces ty v) \<Longrightarrow> block_len p \<le> 12"
  by (auto simp: attr_pieces_def split: if_splits)

lemma attr_pieces_fits:
  assumes "40 \<le> mx"
  shows "\<forall>p\<in>set (attr_pieces ty v). block_len p \<le> mx - 24"
proof
  fix p
  assume "p \<in> set (attr_pieces ty v)"
  then show "block_len p \<le> mx - 24" using attr_pieces_fit [of p ty v] assms by linarith
qed

text \<open>The attribute registry is not touched by serialisation.\<close>

text \<open>The ghost part of a core: what its record type is extended by; no operation of the code touches it.\<close>

abbreviation ghost :: "'a reg_core_scheme \<Rightarrow> 'a" where
  "ghost c \<equiv> reg_core.more c"

lemma more_c_attrs:
  assumes "core.more c' = core.more c"
  shows "c_attrs c' = c_attrs c"
  using assms by (cases c; cases c') simp

lemma more_ghost:
  assumes "core.more c' = core.more c"
  shows "ghost c' = ghost c"
  using assms by (cases c; cases c') simp

lemma sync_prefix: "prefix cache (c_attrs c) \<Longrightarrow> prefix (sync_attr_cache cache c) (c_attrs c)"
  by (auto simp: sync_attr_cache_def prefix_def)

lemma sync_full: "prefix cache (c_attrs c) \<Longrightarrow> sync_attr_cache cache c = c_attrs c"
  by (auto simp: sync_attr_cache_def prefix_def)

lemma attrs_bytes_Cons:
  "attrs_bytes ds (v # vs) = (if attr_known ds v then concat (map piece_bytes (attr_pieces (ad_type (ds ! nat (av_id v))) v)) else []) @ attrs_bytes ds vs"
  by (simp add: attrs_bytes_def)

lemma emit_attrs_spec:
  assumes "writer_ok wc" "at_cursor wc off" "40 \<le> w_max (fst wc)" "c_attrs (snd wc) = ds" "prefix cache ds"
  shows "\<exists>cache' cnt' r n' wc'. emit_attrs ts vs cache cnt off n wc = (cache', cnt', Some (r, n', wc')) \<and> prefix cache' ds \<and>
    (case r of Some off' \<Rightarrow> extends wc off wc' off' (attrs_bytes ds vs) \<and> n' = n + length (attrs_bytes ds vs) \<and>
         cnt' = cnt + of_nat (length (filter (attr_known ds) vs))
     | None \<Rightarrow> \<exists>k. fails wc off wc' (take k (attrs_bytes ds vs)))"
  using assms
proof (induction vs arbitrary: cache cnt off n wc)
  case Nil
  then show ?case using extends_refl [of wc off] by (simp add: attrs_bytes_def)
next
  case (Cons v vs)
  let ?c1 = "if length cache \<le> nat (av_id v) then sync_attr_cache cache (snd wc) else cache"
  have full: "sync_attr_cache cache (snd wc) = ds" using sync_full [of cache "snd wc"] Cons.prems(4,5) by simp
  have len: "length cache \<le> length ds" using Cons.prems(5) by (rule prefix_length_le)
  have pre: "prefix ?c1 ds" using full Cons.prems(5) by simp
  show ?case
  proof (cases "attr_known ds v")
    case False
    have same: "attrs_bytes ds (v # vs) = attrs_bytes ds vs" "filter (attr_known ds) (v # vs) = filter (attr_known ds) vs"
      using False by (simp_all add: attrs_bytes_Cons)
    show ?thesis
    proof (cases "av_id v < 0")
      case True
      then have "emit_attrs ts (v # vs) cache cnt off n wc = emit_attrs ts vs cache cnt off n wc" by simp
      then show ?thesis unfolding same using Cons.IH [OF Cons.prems] by simp
    next
      case nneg: False
      then have "length ?c1 \<le> nat (av_id v)" using False full len by (auto simp: attr_known_def)
      then have "emit_attrs ts (v # vs) cache cnt off n wc = emit_attrs ts vs ?c1 cnt off n wc" using nneg by (simp add: Let_def)
      then show ?thesis unfolding same using Cons.IH [OF Cons.prems(1-4) pre] by simp
    qed
  next
    case True
    let ?ty = "ad_type (ds ! nat (av_id v))" and ?xs = "concat (map piece_bytes (attr_pieces (ad_type (ds ! nat (av_id v))) v))"
    have in1: "0 \<le> av_id v" "\<not> length ?c1 \<le> nat (av_id v)" using True full by (auto simp: attr_known_def)
    have nth: "?c1 ! nat (av_id v) = ds ! nat (av_id v)" using pre in1(2) by (auto simp: prefix_def nth_append)
    have fit: "\<forall>p\<in>set (attr_pieces ?ty v). block_len p \<le> w_max (fst wc) - 24" by (rule attr_pieces_fits [OF Cons.prems(3)])
    obtain r n1 wc1 where e: "emit_attr ts ?ty v off n wc = Some (r, n1, wc1)"
      and c: "case r of Some off' \<Rightarrow> extends wc off wc1 off' ?xs \<and> n1 = n + length ?xs | None \<Rightarrow> \<exists>k. fails wc off wc1 (take k ?xs)"
      using rs.emit_all_spec [of wc off "attr_pieces ?ty v" ts n, OF conjI [OF Cons.prems(1,2)] fit] unfolding emit_attr_all by blast
    have bytes: "attrs_bytes ds (v # vs) = ?xs @ attrs_bytes ds vs" using True by (simp add: attrs_bytes_Cons)
    show ?thesis
    proof (cases r)
      case None
      with c obtain k where k: "fails wc off wc1 (take k ?xs)" by auto
      have "\<exists>k. fails wc off wc1 (take k (?xs @ attrs_bytes ds vs))"
        using k by (intro exI [of _ "min k (length ?xs)"]) (cases "k \<le> length ?xs"; simp add: min_def)
      moreover have "emit_attrs ts (v # vs) cache cnt off n wc = (?c1, cnt, Some (None, n1, wc1))"
        using e None in1 nth by (subst emit_attrs.simps(2)) (simp add: Let_def del: emit_attrs.simps)
      ultimately show ?thesis using pre unfolding bytes
        by (intro exI [of _ ?c1] exI [of _ cnt] exI [of _ None] exI [of _ n1] exI [of _ wc1]) simp
    next
      case (Some o1)
      with c have ext: "extends wc off wc1 o1 ?xs" and n1: "n1 = n + length ?xs" by simp_all
      have ds: "c_attrs (snd wc1) = ds"
        using more_c_attrs [of "snd wc1" "snd wc"] ext Cons.prems(4) by (simp add: extends_def same_writer_def)
      have run: "emit_attrs ts (v # vs) cache cnt off n wc = emit_attrs ts vs ?c1 (cnt + 1) o1 n1 wc1"
        using e Some in1 nth by (subst emit_attrs.simps(2)) (simp add: Let_def del: emit_attrs.simps)
      have "40 \<le> w_max (fst wc1)" using extendsD(3) [OF ext] Cons.prems(3) by simp
      from Cons.IH [OF extendsD(1,2) [OF ext] this ds pre, of "cnt + 1" n1] obtain cache' cnt' r2 n2 wc2 where
        e2: "emit_attrs ts vs ?c1 (cnt + 1) o1 n1 wc1 = (cache', cnt', Some (r2, n2, wc2))" "prefix cache' ds" and
        c2: "case r2 of Some off' \<Rightarrow> extends wc1 o1 wc2 off' (attrs_bytes ds vs) \<and> n2 = n1 + length (attrs_bytes ds vs) \<and>
            cnt' = cnt + 1 + of_nat (length (filter (attr_known ds) vs))
          | None \<Rightarrow> \<exists>k. fails wc1 o1 wc2 (take k (attrs_bytes ds vs))" by blast
      show ?thesis
      proof (cases r2)
        case None
        with c2 obtain k where "fails wc1 o1 wc2 (take k (attrs_bytes ds vs))" by auto
        from extends_fails [OF ext this Cons.prems(2)]
        have "fails wc off wc2 (take (length ?xs + k) (?xs @ attrs_bytes ds vs))" by simp
        then have "\<exists>k. fails wc off wc2 (take k (?xs @ attrs_bytes ds vs))" by blast
        then show ?thesis unfolding bytes run using e2 None
          by (intro exI [of _ cache'] exI [of _ cnt'] exI [of _ None] exI [of _ n2] exI [of _ wc2]) (simp del: take_append)
      next
        case (Some o2)
        with c2 have "extends wc1 o1 wc2 o2 (attrs_bytes ds vs)" by simp
        from extends_trans [OF ext this Cons.prems(2)] show ?thesis unfolding bytes run using e2 Some c2 n1 True
          by (intro exI [of _ cache'] exI [of _ cnt'] exI [of _ r2] exI [of _ n2] exI [of _ wc2]) simp
      qed
    qed
  qed
qed
section \<open>Giving buffers back\<close>

lemma release_owned:
  assumes "core_ok c" "b \<in> core_owned c"
  shows "core_ok (release_buffer (Some b) c)" "core_owned c - {b} \<subseteq> core_owned (release_buffer (Some b) c)"
    "c_mem (release_buffer (Some b) c) = c_mem c" "c_ub (release_buffer (Some b) c) = c_ub c"
    "pl_bufsz (c_pool (release_buffer (Some b) c)) = pl_bufsz (c_pool c)"
    "core.more (release_buffer (Some b) c) = core.more c"
  using assms
  by (auto simp: release_buffer_def core_ok_def core_owned_def recycle_def pool_ok_def news_ok_def budget_exact_def
      split: option.splits prod.splits)

lemma release_all_owned:
  assumes "core_ok c" "distinct bs" "set bs \<subseteq> core_owned c"
  shows "core_ok (fold (\<lambda>b. release_buffer (Some b)) bs c)"
    "core_owned c - set bs \<subseteq> core_owned (fold (\<lambda>b. release_buffer (Some b)) bs c)"
    "c_mem (fold (\<lambda>b. release_buffer (Some b)) bs c) = c_mem c"
    "c_ub (fold (\<lambda>b. release_buffer (Some b)) bs c) = c_ub c"
    "pl_bufsz (c_pool (fold (\<lambda>b. release_buffer (Some b)) bs c)) = pl_bufsz (c_pool c)"
    "core.more (fold (\<lambda>b. release_buffer (Some b)) bs c) = core.more c"
proof -
  have "core_ok (fold (\<lambda>b. release_buffer (Some b)) bs c) \<and>
    core_owned c - set bs \<subseteq> core_owned (fold (\<lambda>b. release_buffer (Some b)) bs c) \<and>
    c_mem (fold (\<lambda>b. release_buffer (Some b)) bs c) = c_mem c \<and> c_ub (fold (\<lambda>b. release_buffer (Some b)) bs c) = c_ub c \<and>
    pl_bufsz (c_pool (fold (\<lambda>b. release_buffer (Some b)) bs c)) = pl_bufsz (c_pool c) \<and>
    core.more (fold (\<lambda>b. release_buffer (Some b)) bs c) = core.more c"
    using assms
  proof (induction bs arbitrary: c)
    case (Cons b bs)
    have b: "b \<in> core_owned c" "b \<notin> set bs" "set bs \<subseteq> core_owned c" "distinct bs" using Cons.prems by auto
    note r = release_owned [OF Cons.prems(1) b(1)]
    have "set bs \<subseteq> core_owned (release_buffer (Some b) c)" using b r(2) by blast
    from Cons.IH [OF r(1) b(4) this] r show ?case by auto
  qed simp
  then show "core_ok (fold (\<lambda>b. release_buffer (Some b)) bs c)"
    "core_owned c - set bs \<subseteq> core_owned (fold (\<lambda>b. release_buffer (Some b)) bs c)"
    "c_mem (fold (\<lambda>b. release_buffer (Some b)) bs c) = c_mem c"
    "c_ub (fold (\<lambda>b. release_buffer (Some b)) bs c) = c_ub c"
    "pl_bufsz (c_pool (fold (\<lambda>b. release_buffer (Some b)) bs c)) = pl_bufsz (c_pool c)"
    "core.more (fold (\<lambda>b. release_buffer (Some b)) bs c) = core.more c" by blast+
qed
section \<open>Ending a record\<close>

definition log_pad :: "nat \<Rightarrow> nat" where
  "log_pad sz = align_up_8 sz - sz"

text \<open>
  Between calls: there is no current buffer, or the cursor is at its \<^verbatim>\<open>mz_buf_used\<close> and its header
  says so.
\<close>

definition rests :: "'c wc \<Rightarrow> bool" where
  "rests wc \<longleftrightarrow> w_buffer (fst wc) = None \<or> at_cursor wc (w_used (fst wc)) \<and>
     (\<forall>b. w_buffer (fst wc) = Some b \<longrightarrow> unat (bh_size (hdr (snd wc) b)) = w_used (fst wc))"

lemma end_item_ok:
  assumes ok: "writer_ok wc" and cur: "at_cursor wc used" and b: "w_buffer (fst wc) = Some b"
  shows "writer_ok (end_item least ts used b wc)" "rests (end_item least ts used b wc)" "same_writer wc (end_item least ts used b wc)"
    "w_used (fst (end_item least ts used b wc)) = (if w_max (fst wc) - used < least then 0 else used)"
    "rec_stream (end_item least ts used b wc) (w_used (fst (end_item least ts used b wc))) = rec_stream wc used"
proof -
  obtain w c where wc: "wc = (w, c)" by fastforce
  let ?c = "c\<lparr>c_mem := (c_mem c)(b := upd_buf_hdr (\<lambda>h. h\<lparr>bh_size := of_nat used, bh_stop_time := ts\<rparr>) (c_mem c b))\<rparr>"
  have mx: "24 < w_max w" "w_max w < 65536" "used \<le> w_max w" "24 \<le> used"
    using ok cur wc by (simp_all add: writer_ok_def at_cursor_def)
  have len: "length (c_mem c b) = w_max w" using ok wc by (simp add: writer_ok_def core_ok_def)
  have frags: "\<forall>x\<in>set (w_frags w). c_mem ?c x = c_mem c x" using ok b wc by (auto simp: writer_ok_def held_bufs_def)
  have okc: "core_ok ?c" using ok wc len mx by (intro core_ok_mem) (simp_all add: writer_ok_def)
  have hb: "hdr ?c b = (hdr c b)\<lparr>bh_size := of_nat used, bh_stop_time := ts\<rparr>" by (simp add: hdr_def)
  have szb: "unat (bh_size (hdr ?c b)) = used" unfolding hb using mx by (simp add: unat_of_nat_u16)
  have hfr: "\<forall>x\<in>set (w_frags w). hdr ?c x = hdr c x" using frags hdr_mem_cong by blast
  have pl: "payloads ?c (w_frags w) = payloads c (w_frags w)" by (rule payloads_mem_cong [OF frags])
  have sub: "sub_bytes 24 k (c_mem ?c b) = sub_bytes 24 k (c_mem c b)" for k using len mx by (simp add: sub_upd_buf_hdr)
  have sub_eq: "size_sub (w_max w) used = w_max w - used" using mx by simp
  have okw: "writer_ok (w, c)" using ok wc by simp
  let ?r = "end_item least ts used b (w, c)"
  have "writer_ok ?r \<and> rests ?r \<and> same_writer (w, c) ?r \<and> w_used (fst ?r) = (if w_max w - used < least then 0 else used) \<and>
    rec_stream ?r (w_used (fst ?r)) = rec_stream (w, c) used"
  proof (cases "w_max w - used < least")
    case True
    let ?w = "w\<lparr>w_frags := w_frags w @ [b], w_buffer := None, w_used := 0\<rparr>"
    have r: "?r = (?w, ?c)" using True sub_eq by (simp add: end_item_def)
    have "payload ?c b = sub_bytes 24 (used - 24) (c_mem c b)" unfolding payload_def szb by (rule sub)
    then have "rec_stream (?w, ?c) 0 = rec_stream (w, c) used" using pl b wc by (simp add: rec_stream_def)
    moreover have "writer_ok (?w, ?c)"
      using okw okc hfr szb mx b wc unfolding writer_ok_def by (auto simp: held_bufs_def frag_ok_def)
    ultimately show ?thesis using True unfolding r by (auto simp: rests_def same_writer_def)
  next
    case False
    let ?w = "w\<lparr>w_used := used\<rparr>"
    have r: "?r = (?w, ?c)" using False sub_eq by (simp add: end_item_def)
    have "rec_stream (?w, ?c) used = rec_stream (w, c) used" using pl b sub wc by (simp add: rec_stream_def)
    moreover have "writer_ok (?w, ?c)" using okw okc hfr unfolding writer_ok_def by (auto simp: held_bufs_def)
    moreover have "rests (?w, ?c)" using cur szb b wc by (simp add: rests_def at_cursor_def)
    ultimately show ?thesis using False unfolding r by (auto simp: same_writer_def)
  qed
  then show "writer_ok (end_item least ts used b wc)" "rests (end_item least ts used b wc)" "same_writer wc (end_item least ts used b wc)"
    "w_used (fst (end_item least ts used b wc)) = (if w_max (fst wc) - used < least then 0 else used)"
    "rec_stream (end_item least ts used b wc) (w_used (fst (end_item least ts used b wc))) = rec_stream wc used"
    unfolding wc fst_conv by blast+
qed

lemma log_finish_ok:
  assumes item: "holds_item b0 off0 A h p rest wc off"
    and fit: "off + log_pad (40 + na + nt) \<le> w_max (fst wc)"
  shows "\<exists>pad. length pad = log_pad (40 + na + nt) \<and> writer_ok (log_finish ts b0 off0 na nt cnt off wc) \<and>
    rests (log_finish ts b0 off0 na nt cnt off wc) \<and> same_writer wc (log_finish ts b0 off0 na nt cnt off wc) \<and>
    w_used (fst (log_finish ts b0 off0 na nt cnt off wc)) =
      (if w_max (fst wc) - (off + log_pad (40 + na + nt)) < 32 then 0 else off + log_pad (40 + na + nt)) \<and>
    rec_stream (log_finish ts b0 off0 na nt cnt off wc) (w_used (fst (log_finish ts b0 off0 na nt cnt off wc))) =
      A @ enc_log_item (h\<lparr>li_attrs_count := cnt, li_size := of_nat (align_up_8 (40 + na + nt))\<rparr>) @ p @ rest @ pad"
proof -
  let ?f = "\<lambda>h. h\<lparr>li_attrs_count := cnt, li_size := of_nat (align_up_8 (40 + na + nt))\<rparr>"
  let ?pad = "log_pad (40 + na + nt)"
  have szpad: "40 + na + nt + (align_up_8 (40 + na + nt) - (40 + na + nt)) = align_up_8 (40 + na + nt)"
    using align_up_8_bounds(1) [of "40 + na + nt"] by simp
  obtain w c where wc1: "upd_item b0 off0 ?f wc = (w, c)" by (meson surj_pair)
  have upd: "holds_item b0 off0 A (?f h) p rest (w, c) off" "same_writer wc (w, c)" "w = fst wc"
    using holds_item_upd [OF item, of ?f] unfolding wc1 fst_conv snd_conv by blast+
  have ok: "writer_ok (w, c)" and cur: "at_cursor (w, c) off" using upd(1) by (simp_all add: holds_item_def)
  obtain pad where pad: "length pad = ?pad" "extends (w, c) off (w, c) (off + ?pad) pad"
    using extends_skip [OF ok cur] fit upd(3) by auto
  have cur2: "at_cursor (w, c) (off + ?pad)" and st: "rec_stream (w, c) (off + ?pad) = A @ enc_log_item (?f h) @ p @ rest @ pad"
    using pad(2) upd(1) by (simp_all add: extends_def holds_item_def)
  obtain b where b: "w_buffer w = Some b" using cur by (auto simp: at_cursor_def)
  have fin: "log_finish ts b0 off0 na nt cnt off wc = end_item P8_LOG_MIN_BUFFER_SPACE ts (off + ?pad) b (w, c)"
    using wc1 b unfolding log_finish_def Let_def szpad log_pad_def by (simp only: prod.case option.case)
  note e = end_item_ok [OF ok cur2, of b P8_LOG_MIN_BUFFER_SPACE ts]
  have "same_writer wc (end_item P8_LOG_MIN_BUFFER_SPACE ts (off + ?pad) b (w, c))"
    using e(3) b upd(2) same_writer_trans by simp blast
  then show ?thesis
    using e b pad(1) st upd(3) unfolding fin by (intro exI [of _ pad]) (simp add: P8_LOG_MIN_BUFFER_SPACE_def)
qed

text \<open>When the padding does not fit, the cursor ends up behind the buffer.\<close>

lemma log_finish_overrun:
  assumes item: "holds_item b0 off0 A h p rest wc off"
    and over: "w_max (fst wc) < off + log_pad (40 + na + nt)"
  shows "w_buffer (fst (log_finish ts b0 off0 na nt cnt off wc)) = w_buffer (fst wc) \<and>
    w_used (fst (log_finish ts b0 off0 na nt cnt off wc)) = off + log_pad (40 + na + nt) \<and>
    w_max (fst (log_finish ts b0 off0 na nt cnt off wc)) = w_max (fst wc) \<and>
    c_ub (snd (log_finish ts b0 off0 na nt cnt off wc)) = c_ub (snd wc) \<and>
    (\<forall>x. length (c_mem (snd (log_finish ts b0 off0 na nt cnt off wc)) x) = w_max (fst wc))"
proof -
  let ?f = "\<lambda>h. h\<lparr>li_attrs_count := cnt, li_size := of_nat (align_up_8 (40 + na + nt))\<rparr>"
  let ?pad = "log_pad (40 + na + nt)"
  have szpad: "40 + na + nt + (align_up_8 (40 + na + nt) - (40 + na + nt)) = align_up_8 (40 + na + nt)"
    using align_up_8_bounds(1) [of "40 + na + nt"] by simp
  obtain w c where wc1: "upd_item b0 off0 ?f wc = (w, c)" by (meson surj_pair)
  have upd: "holds_item b0 off0 A (?f h) p rest (w, c) off" "same_writer wc (w, c)" "w = fst wc"
    using holds_item_upd [OF item, of ?f] unfolding wc1 fst_conv snd_conv by blast+
  have ok: "writer_ok (w, c)" and cur: "at_cursor (w, c) off" using upd(1) by (simp_all add: holds_item_def)
  obtain b where b: "w_buffer w = Some b" using cur by (auto simp: at_cursor_def)
  have len: "length (c_mem c x) = w_max w" for x using ok by (simp add: writer_ok_def core_ok_def)
  have mx: "24 < w_max w" "w_max w < 65536" "off \<le> w_max w" using ok cur by (simp_all add: writer_ok_def at_cursor_def)
  have p8: "?pad < 8" using align_up_8_bounds [of "40 + na + nt"] by (simp add: log_pad_def)
  have "\<not> size_sub (w_max w) (off + ?pad) < P8_LOG_MIN_BUFFER_SPACE"
    using size_sub_wrap [of "w_max w" "off + ?pad"] over upd(3) mx p8 by (simp add: P8_LOG_MIN_BUFFER_SPACE_def)
  then have fin: "log_finish ts b0 off0 na nt cnt off wc = (w\<lparr>w_used := off + ?pad\<rparr>,
      c\<lparr>c_mem := (c_mem c)(b := upd_buf_hdr (\<lambda>h. h\<lparr>bh_size := of_nat (off + ?pad), bh_stop_time := ts\<rparr>) (c_mem c b))\<rparr>)"
    using wc1 b unfolding log_finish_def Let_def szpad log_pad_def end_item_def
    by (simp only: prod.case option.case fst_conv snd_conv if_False)
  show ?thesis unfolding fin using len mx upd(2,3) by (simp add: same_writer_def)
qed
section \<open>Rolling back\<close>

text \<open>Buffers are only added behind the current one, and the parked ones are left alone.\<close>

definition grows :: "'c wc \<Rightarrow> 'c wc \<Rightarrow> bool" where
  "grows wc wc' \<longleftrightarrow> writer_ok wc' \<and> same_writer wc wc' \<and> (\<exists>ys. held_bufs (fst wc') = held_bufs (fst wc) @ ys) \<and>
     (\<forall>b\<in>set (w_frags (fst wc)). c_mem (snd wc') b = c_mem (snd wc) b)"

lemma extends_grows: "extends wc off wc' off' bs \<Longrightarrow> grows wc wc'"
  unfolding extends_def grows_def by blast

lemma fails_grows: "fails wc off wc' bs \<Longrightarrow> grows wc wc'"
  unfolding fails_def grows_def by blast

lemma grows_trans:
  assumes 1: "grows wc wc1" and 2: "grows wc1 wc2" and b: "w_buffer (fst wc) \<noteq> None"
  shows "grows wc wc2"
proof -
  obtain ys where ys: "held_bufs (fst wc1) = held_bufs (fst wc) @ ys" using 1 by (auto simp: grows_def)
  obtain zs where zs: "held_bufs (fst wc2) = held_bufs (fst wc1) @ zs" using 2 by (auto simp: grows_def)
  have "set (w_frags (fst wc)) \<subseteq> set (w_frags (fst wc1))" by (rule frags_in_held [OF ys b])
  then have "\<forall>b\<in>set (w_frags (fst wc)). c_mem (snd wc2) b = c_mem (snd wc) b"
    using 1 2 by (auto simp: grows_def)
  moreover have "same_writer wc wc2" using 1 2 same_writer_trans unfolding grows_def by blast
  ultimately show ?thesis using 2 ys zs by (simp add: grows_def)
qed

text \<open>Patching the header of the record keeps that, since it is in a buffer that was current.\<close>

lemma grows_upd:
  assumes 1: "grows wc wc1" and item: "holds_item b0 off0 A h p rest wc1 off" and b0: "b0 \<notin> set (w_frags (fst wc))"
  shows "grows wc (upd_item b0 off0 f wc1)"
proof -
  note upd = holds_item_upd [OF item, of f]
  have "writer_ok (upd_item b0 off0 f wc1)" using upd by (simp add: holds_item_def)
  moreover have "same_writer wc (upd_item b0 off0 f wc1)"
    using 1 upd same_writer_trans unfolding grows_def by blast
  moreover have "\<forall>b\<in>set (w_frags (fst wc)). c_mem (snd (upd_item b0 off0 f wc1)) b = c_mem (snd wc) b"
    using 1 upd b0 unfolding grows_def by metis
  ultimately show ?thesis using 1 upd by (simp add: grows_def)
qed

lemma log_discard_ok:
  fixes f :: "log_item \<Rightarrow> log_item"
  assumes ok: "writer_ok wc" and b0: "w_buffer (fst wc) = Some b0" and fit: "off0 + 40 \<le> w_max (fst wc)" and off0: "24 \<le> off0"
    and fl: "grows wc wc1" "w_buffer (fst wc1) = None"
  defines "wc2 \<equiv> log_discard (length (w_frags (fst wc))) (upd_item b0 off0 f wc1)"
  shows "writer_ok wc2" "w_frags (fst wc2) = w_frags (fst wc)" "w_buffer (fst wc2) = None"
    "w_drop_logs (fst wc2) = w_drop_logs (fst wc) + 1" "c_ub (snd wc2) = c_ub (snd wc)"
    "rec_stream wc2 0 = payloads (snd wc) (w_frags (fst wc))" "core.more (snd wc2) = core.more (snd wc)"
proof -
  obtain w c where wc: "wc = (w, c)" by fastforce
  obtain w1 c1 where wc1: "wc1 = (w1, c1)" by fastforce
  have ok1: "writer_ok (w1, c1)" and nob: "w_buffer w1 = None" and same: "same_writer (w, c) (w1, c1)"
    and mem: "\<forall>b\<in>set (w_frags w). c_mem c1 b = c_mem c b" using fl wc wc1 by (simp_all add: grows_def)
  obtain ys where "held_bufs w1 = held_bufs w @ ys" using fl wc wc1 by (auto simp: grows_def)
  then have fr1: "w_frags w1 = w_frags w @ b0 # ys" using nob b0 wc by (simp add: held_bufs_def)
  have dist: "distinct (w_frags w @ b0 # ys)" and own: "set (w_frags w @ b0 # ys) \<subseteq> core_owned c1"
    using ok1 fr1 nob by (simp_all add: writer_ok_def held_bufs_def)
  have mx: "w_max w1 = w_max w" using same by (simp add: same_writer_def)
  have len: "length (c_mem c1 b0) = w_max w" using ok1 mx by (simp add: writer_ok_def core_ok_def)
  let ?x = "enc_log_item (f (dec_log_item (drop off0 (c_mem c1 b0))))"
  let ?c2 = "c1\<lparr>c_mem := (c_mem c1)(b0 := put_bytes off0 ?x (c_mem c1 b0))\<rparr>"
  have upd: "upd_item b0 off0 f wc1 = (w1, ?c2)" using wc1 wc fit len by (simp add: upd_item_def mem_write_def)
  have okc2: "core_ok ?c2" using ok1 len fit wc by (intro core_ok_mem) (simp_all add: writer_ok_def)
  let ?rel = "rev (b0 # ys)"
  have rel: "distinct ?rel" "set ?rel \<subseteq> core_owned ?c2" using dist own by auto
  note r = release_all_owned [OF okc2 rel]
  let ?c3 = "fold (\<lambda>b. release_buffer (Some b)) ?rel ?c2"
  let ?w2 = "w1\<lparr>w_frags := w_frags w, w_buffer := None, w_used := 0, w_drop_logs := w_drop_logs w1 + 1\<rparr>"
  have wc2: "wc2 = (?w2, ?c3)" unfolding wc2_def upd using fr1 wc by (simp add: log_discard_def)
  have mem3: "\<forall>b\<in>set (w_frags w). c_mem ?c3 b = c_mem c b" using r(3) mem dist by auto
  then have hd3: "\<forall>b\<in>set (w_frags w). hdr ?c3 b = hdr c b" using hdr_mem_cong by blast
  have "set (w_frags w) \<subseteq> core_owned ?c3" using r(2) own dist by auto
  moreover have "\<forall>b\<in>set (w_frags w). frag_ok (w_max w) (hdr c b)" using ok unfolding wc writer_ok_def fst_conv snd_conv by blast
  moreover have "24 < w_max w" "w_max w < 65536" using ok wc by (simp_all add: writer_ok_def)
  moreover have "w_max w = pl_bufsz (c_pool ?c3)" using r(5) ok1 mx by (simp add: writer_ok_def)
  ultimately show "writer_ok wc2"
    unfolding wc2 writer_ok_def using r(1) dist hd3 mx by (auto simp: held_bufs_def)
  show "w_frags (fst wc2) = w_frags (fst wc)" "w_buffer (fst wc2) = None"
    "w_drop_logs (fst wc2) = w_drop_logs (fst wc) + 1" "c_ub (snd wc2) = c_ub (snd wc)"
    using wc2 wc same r(4) by (simp_all add: same_writer_def)
  show "rec_stream wc2 0 = payloads (snd wc) (w_frags (fst wc))"
    using wc2 wc payloads_mem_cong [OF mem3] by (simp add: rec_stream_def)
  show "core.more (snd wc2) = core.more (snd wc)" using wc2 wc same r(6) by (simp add: same_writer_def)
qed

section \<open>One record\<close>

definition log_header :: "u64 \<Rightarrow> log_call \<Rightarrow> log_desc \<Rightarrow> u16 \<Rightarrow> u32 \<Rightarrow> nat \<Rightarrow> nat \<Rightarrow> nat \<Rightarrow> log_item" where
  "log_header ts lc d modid tid nargs nattrs cnt =
     \<lparr>li_hash = ld_hash d, li_timestamp = ts, li_trace_id = lc_trace_id lc, li_thread_id = tid,
      li_level = of_nat (lc_level lc), li_processor = 0, li_args_size = of_nat nargs,
      li_size = of_nat (align_up_8 (40 + nargs + nattrs)), li_mod_id = modid, li_attrs_count = of_nat cnt, li_flags = 0\<rparr>"

text \<open>The three outcomes of a record, over the bytes its arguments and attributes come to.\<close>

definition written :: "('a reg_core_ext) wc \<Rightarrow> byte list \<Rightarrow> byte list \<Rightarrow> ('a reg_core_ext) wc \<Rightarrow> bool" where
  "written wc item body wc' \<longleftrightarrow> writer_ok wc' \<and> rests wc' \<and> ghost (snd wc') = ghost (snd wc) \<and> (\<exists>p pad. length p = 2 \<and>
     length pad = log_pad (40 + length body) \<and>
     rec_stream wc' (w_used (fst wc')) = rec_stream wc (w_used (fst wc)) @ item @ p @ body @ pad)"

definition overran :: "'c wc \<Rightarrow> 'c wc \<Rightarrow> bool" where
  "overran wc wc' \<longleftrightarrow> w_buffer (fst wc') \<noteq> None \<and> w_max (fst wc') = w_max (fst wc) \<and>
     w_max (fst wc) < w_used (fst wc') \<and> w_used (fst wc') < w_max (fst wc) + 8 \<and>
     (\<forall>x. length (c_mem (snd wc') x) = w_max (fst wc))"

definition rolled_back :: "('a reg_core_ext) wc \<Rightarrow> ('a reg_core_ext) wc \<Rightarrow> bool" where
  "rolled_back wc wc' \<longleftrightarrow> writer_ok wc' \<and> ghost (snd wc') = ghost (snd wc) \<and> w_buffer (fst wc') = None \<and> w_frags (fst wc') = w_frags (fst wc) \<and>
     w_drop_logs (fst wc') = w_drop_logs (fst wc) + 1 \<and>
     rec_stream wc' 0 = payloads (snd wc) (w_frags (fst wc))"

text \<open>A record can start: there is a current buffer with room for an item header.\<close>

definition can_start :: "'c wc \<Rightarrow> bool" where
  "can_start wc \<longleftrightarrow> writer_ok wc \<and> at_cursor wc (w_used (fst wc)) \<and> w_used (fst wc) + 40 \<le> w_max (fst wc)"
section \<open>A record that fits the current buffer\<close>

lemma copy_fragmented_Nil: "copy_fragmented ts [] off n wc = Some (Some off, n, wc)"
  by (subst copy_fragmented.simps) simp

lemma copy_fragmented_fits:
  assumes "src \<noteq> []" "off + length src \<le> w_max (fst wc)"
  shows "copy_fragmented ts src off n wc = Some (Some (off + length src), n + length src, buf_write off src wc)"
proof -
  have space: "size_sub (w_max (fst wc)) off = w_max (fst wc) - off" using assms(2) by simp
  have "min (length src) (w_max (fst wc) - off) = length src" "w_max (fst wc) - off \<noteq> 0" using assms by (cases src; simp)+
  then show ?thesis
    by (subst copy_fragmented.simps) (simp only: space assms(1) if_False Let_def drop_all order_refl take_all copy_fragmented_Nil)
qed

lemma emit_piece_fits:
  assumes "writer_ok wc" "at_cursor wc off" "off + length (piece_bytes p) \<le> w_max (fst wc)"
  shows "\<exists>wc'. emit_piece ts p off n wc = Some (Some (off + length (piece_bytes p)), n + length (piece_bytes p), wc')"
proof (cases p)
  case (Block bs)
  then show ?thesis using assms(3) by (simp add: emit_fixed_def ensure_space_def)
next
  case (Bytes bs)
  show ?thesis
  proof (cases "bs = []")
    case True
    then show ?thesis using Bytes copy_fragmented_Nil [of ts off n wc] by (intro exI [of _ wc]) simp
  next
    case False
    then show ?thesis using Bytes copy_fragmented_fits [of bs off wc ts n] assms(3) by simp
  qed
qed

lemma emit_all_fits:
  assumes "writer_ok wc" "at_cursor wc off" "off + length (concat (map piece_bytes ps)) \<le> w_max (fst wc)"
    and "\<forall>p\<in>set ps. block_len p \<le> w_max (fst wc) - 24"
  shows "\<exists>wc'. rs.emit_all ts ps off n wc =
    Some (Some (off + length (concat (map piece_bytes ps))), n + length (concat (map piece_bytes ps)), wc')"
  using assms
proof (induction ps arbitrary: off n wc)
  case (Cons p ps)
  let ?k = "length (piece_bytes p)"
  have fit: "off + ?k \<le> w_max (fst wc)" using Cons.prems(3) by simp
  obtain wc1 where e: "emit_piece ts p off n wc = Some (Some (off + ?k), n + ?k, wc1)"
    using emit_piece_fits [OF Cons.prems(1,2) fit, of ts n] by blast
  have "extends wc off wc1 (off + ?k) (piece_bytes p)"
    using rs.emit_spec [of wc off p ts n] Cons.prems e by simp
  note ext = extendsD [OF this]
  have "off + ?k + length (concat (map piece_bytes ps)) \<le> w_max (fst wc1)" using Cons.prems(3) ext(3) by simp
  then obtain wc2 where "rs.emit_all ts ps (off + ?k) (n + ?k) wc1 =
      Some (Some (off + ?k + length (concat (map piece_bytes ps))), n + ?k + length (concat (map piece_bytes ps)), wc2)"
    using Cons.IH [OF ext(1,2)] Cons.prems(4) ext(3) by fastforce
  then show ?case using e by (simp add: add.assoc)
qed simp
lemma emit_args_fits:
  assumes "writer_ok wc" "at_cursor wc off" "40 \<le> w_max (fst wc)" "list_all2 arg_ok as vs"
    and "off + length (args_bytes as vs) \<le> w_max (fst wc)"
  shows "\<exists>wc'. emit_args ts as vs off n wc = Some (Some (off + length (args_bytes as vs)), n + length (args_bytes as vs), wc')"
proof -
  have fit: "\<forall>p\<in>set (concat (map2 arg_pieces as vs)). block_len p \<le> w_max (fst wc) - 24"
    by (rule args_pieces_fit [OF assms(4,3)])
  note spec = emit_all_fits [OF assms(1,2) _ fit, unfolded args_bytes_pieces [OF assms(4)], OF assms(5), of ts n]
  show ?thesis unfolding emit_args_all [OF assms(4)] by (rule spec)
qed

lemma emit_attrs_fits:
  assumes "writer_ok wc" "at_cursor wc off" "40 \<le> w_max (fst wc)" "c_attrs (snd wc) = ds" "prefix cache ds"
    and "off + length (attrs_bytes ds vs) \<le> w_max (fst wc)"
  shows "\<exists>cache' cnt' n' wc'. emit_attrs ts vs cache cnt off n wc = (cache', cnt', Some (Some (off + length (attrs_bytes ds vs)), n', wc'))"
  using assms
proof (induction vs arbitrary: cache cnt off n wc)
  case Nil
  then show ?case by (auto simp: attrs_bytes_def)
next
  case (Cons v vs)
  let ?c1 = "if length cache \<le> nat (av_id v) then sync_attr_cache cache (snd wc) else cache"
  have full: "sync_attr_cache cache (snd wc) = ds" using sync_full [of cache "snd wc"] Cons.prems(4,5) by simp
  have len: "length cache \<le> length ds" using Cons.prems(5) by (rule prefix_length_le)
  have pre: "prefix ?c1 ds" using full Cons.prems(5) by simp
  show ?case
  proof (cases "attr_known ds v")
    case False
    have same: "attrs_bytes ds (v # vs) = attrs_bytes ds vs" using False by (simp add: attrs_bytes_Cons)
    show ?thesis
    proof (cases "av_id v < 0")
      case True
      then have "emit_attrs ts (v # vs) cache cnt off n wc = emit_attrs ts vs cache cnt off n wc" by simp
      then show ?thesis using Cons.IH [OF Cons.prems(1-5)] Cons.prems(6) unfolding same by simp
    next
      case nneg: False
      then have "length ?c1 \<le> nat (av_id v)" using False full len by (auto simp: attr_known_def)
      then have "emit_attrs ts (v # vs) cache cnt off n wc = emit_attrs ts vs ?c1 cnt off n wc" using nneg by (simp add: Let_def)
      then show ?thesis using Cons.IH [OF Cons.prems(1-4) pre] Cons.prems(6) unfolding same by simp
    qed
  next
    case True
    let ?ty = "ad_type (ds ! nat (av_id v))" and ?xs = "concat (map piece_bytes (attr_pieces (ad_type (ds ! nat (av_id v))) v))"
    have in1: "0 \<le> av_id v" "\<not> length ?c1 \<le> nat (av_id v)" using True full by (auto simp: attr_known_def)
    have nth: "?c1 ! nat (av_id v) = ds ! nat (av_id v)" using pre in1(2) by (auto simp: prefix_def nth_append)
    have bytes: "attrs_bytes ds (v # vs) = ?xs @ attrs_bytes ds vs" using True by (simp add: attrs_bytes_Cons)
    have fit: "\<forall>p\<in>set (attr_pieces ?ty v). block_len p \<le> w_max (fst wc) - 24" by (rule attr_pieces_fits [OF Cons.prems(3)])
    obtain wc1 where e: "emit_attr ts ?ty v off n wc = Some (Some (off + length ?xs), n + length ?xs, wc1)"
      using emit_all_fits [OF Cons.prems(1,2) _ fit, of ts n] Cons.prems(6) unfolding bytes emit_attr_all by auto
    have ext: "extends wc off wc1 (off + length ?xs) ?xs"
      using rs.emit_all_spec [of wc off "attr_pieces ?ty v" ts n, OF conjI [OF Cons.prems(1,2)] fit] e unfolding emit_attr_all by simp
    have ds: "c_attrs (snd wc1) = ds"
      using more_c_attrs [of "snd wc1" "snd wc"] ext Cons.prems(4) by (simp add: extends_def same_writer_def)
    have run: "emit_attrs ts (v # vs) cache cnt off n wc = emit_attrs ts vs ?c1 (cnt + 1) (off + length ?xs) (n + length ?xs) wc1"
      using e in1 nth by (subst emit_attrs.simps(2)) (simp add: Let_def del: emit_attrs.simps)
    have mx: "w_max (fst wc1) = w_max (fst wc)" by (rule extendsD(3) [OF ext])
    have "40 \<le> w_max (fst wc1)" "off + length ?xs + length (attrs_bytes ds vs) \<le> w_max (fst wc1)"
      using Cons.prems(3,6) mx unfolding bytes by simp_all
    then show ?thesis using Cons.IH [OF extendsD(1,2) [OF ext] _ ds pre, of "cnt + 1" "n + length ?xs"]
      unfolding run bytes by (simp add: add.assoc)
  qed
qed

text \<open>How a record that is reported as sent came about.\<close>

definition record_sent :: "u64 \<Rightarrow> log_call \<Rightarrow> log_desc \<Rightarrow> u16 \<Rightarrow> attr_desc list \<Rightarrow> ('a reg_core_ext) wc \<Rightarrow>
    attr_desc list \<Rightarrow> ('a reg_core_ext) wc \<Rightarrow> bool" where
  "record_sent ts lc d modid cache wc cache' wc' \<longleftrightarrow>
     (let ab = args_bytes (ld_args d) (lc_args lc); tb = attrs_bytes (c_attrs (snd wc)) (lc_attrs lc);
          cnt = length (filter (attr_known (c_attrs (snd wc))) (lc_attrs lc)) in
      \<exists>b0 h p f wc1 wc2 o2 wc3 o4 wc4 cnt'. length p = 2 \<and>
        h\<lparr>li_attrs_count := cnt', li_size := of_nat (align_up_8 (40 + length ab + length tb))\<rparr> =
          log_header ts lc d modid (w_tid (fst wc)) (length ab) (length tb) cnt \<and>
        extends wc (w_used (fst wc)) wc1 (w_used (fst wc) + 40) f \<and>
        emit_args ts (ld_args d) (lc_args lc) (w_used (fst wc) + 40) 0 wc1 = Some (Some o2, length ab, wc2) \<and>
        writer_ok wc3 \<and> at_cursor wc3 o2 \<and> w_max (fst wc3) = w_max (fst wc) \<and> c_attrs (snd wc3) = c_attrs (snd wc) \<and>
        emit_attrs ts (lc_attrs lc) cache 0 o2 0 wc3 = (cache', cnt', Some (Some o4, length tb, wc4)) \<and>
        grows wc wc4 \<and> holds_item b0 (w_used (fst wc)) (rec_stream wc (w_used (fst wc))) h p (ab @ tb) wc4 o4 \<and>
        wc' = log_finish ts b0 (w_used (fst wc)) (length ab) (length tb) cnt' o4 wc4 \<and>
        (w_used (fst wc) + 40 + length (ab @ tb) \<le> w_max (fst wc) \<longrightarrow> o4 = w_used (fst wc) + 40 + length (ab @ tb)))"

lemma log_record_parts:
  assumes start: "can_start wc" and args: "list_all2 arg_ok (ld_args d) (lc_args lc)"
    and cache: "prefix cache (c_attrs (snd wc))"
  defines "ab \<equiv> args_bytes (ld_args d) (lc_args lc)" and "tb \<equiv> attrs_bytes (c_attrs (snd wc)) (lc_attrs lc)"
    and "cnt \<equiv> length (filter (attr_known (c_attrs (snd wc))) (lc_attrs lc))"
  shows "\<exists>ok cache' wc'. log_record ts lc d modid cache wc = Some (ok, cache', wc') \<and> prefix cache' (c_attrs (snd wc)) \<and>
    (if ok then record_sent ts lc d modid cache wc cache' wc'
     else rolled_back wc wc' \<and> c_ub (snd wc') = c_ub (snd wc) \<and> w_max (fst wc) < w_used (fst wc) + 40 + length (ab @ tb))"
proof -
  let ?off0 = "w_used (fst wc)" and ?ds = "c_attrs (snd wc)"
  have ok: "writer_ok wc" and cur: "at_cursor wc ?off0" and fit: "?off0 + 40 \<le> w_max (fst wc)"
    using start by (simp_all add: can_start_def)
  obtain b0 where b0: "w_buffer (fst wc) = Some b0" and off0: "24 \<le> ?off0" using cur by (auto simp: at_cursor_def)
  let ?f1 = "item_start (ld_hash d) ts (lc_trace_id lc) (w_tid (fst wc)) (lc_level lc) modid"
  let ?h0 = "dec_log_item (drop ?off0 (c_mem (snd wc) b0))"
  let ?wc1 = "upd_item b0 ?off0 ?f1 wc"
  obtain p where item1: "holds_item b0 ?off0 (rec_stream wc ?off0) (?f1 ?h0) p [] ?wc1 (?off0 + 40)"
    and ext1: "extends wc ?off0 ?wc1 (?off0 + 40) (enc_log_item (?f1 ?h0) @ p)"
    using item_start_holds [OF ok cur b0 fit, of ?f1] by blast
  have lp: "length p = 2" using item1 by (simp add: holds_item_def)
  let ?disc = "\<lambda>na nt cn wc'. log_discard (length (w_frags (fst wc))) (upd_item b0 ?off0
     (\<lambda>h. h\<lparr>li_args_size := of_nat na, li_attrs_count := cn, li_size := of_nat (40 + na + nt)\<rparr>) wc')"
  have roll: "rolled_back wc (?disc na nt cn wc') \<and> c_ub (snd (?disc na nt cn wc')) = c_ub (snd wc)"
    if "grows wc wc'" "w_buffer (fst wc') = None" for na nt cn wc'
    using log_discard_ok [OF ok b0 fit off0 that] more_ghost [OF log_discard_ok(7) [OF ok b0 fit off0 that]] by (simp add: rolled_back_def)
  have nfr: "b0 \<notin> set (w_frags (fst wc))" using ok b0 by (simp add: writer_ok_def held_bufs_def)
  have cb: "w_buffer (fst wc) \<noteq> None" using b0 by simp
  have mx1: "40 \<le> w_max (fst ?wc1)" using fit extendsD(3) [OF ext1] by simp
  obtain r n wc2 where e2: "emit_args ts (ld_args d) (lc_args lc) (?off0 + 40) 0 ?wc1 = Some (r, n, wc2)"
    and c2: "case r of Some off' \<Rightarrow> extends ?wc1 (?off0 + 40) wc2 off' ab \<and> n = 0 + length ab
      | None \<Rightarrow> \<exists>k. fails ?wc1 (?off0 + 40) wc2 (take k ab)"
    using emit_args_spec [OF extendsD(1,2) [OF ext1] mx1 args, of ts 0] unfolding ab_def by blast
  have mxw1: "w_max (fst ?wc1) = w_max (fst wc)" by (rule extendsD(3) [OF ext1])
  have afit: "r = Some (?off0 + 40 + length ab)" if "?off0 + 40 + length (ab @ tb) \<le> w_max (fst wc)"
    using emit_args_fits [OF extendsD(1,2) [OF ext1] mx1 args, of ts 0] that mxw1 e2 unfolding ab_def by auto
  show ?thesis
  proof (cases r)
    case None
    then have long: "w_max (fst wc) < ?off0 + 40 + length (ab @ tb)" using afit by (meson not_le option.distinct(1))
    from None c2 obtain k where dry: "fails ?wc1 (?off0 + 40) wc2 (take k ab)" by auto
    then have "w_buffer (fst wc2) = None" by (simp add: fails_def)
    from roll [OF grows_trans [OF extends_grows [OF ext1] fails_grows [OF dry] cb] this]
    have "rolled_back wc (?disc n 0 0 wc2)" "c_ub (snd (?disc n 0 0 wc2)) = c_ub (snd wc)" by blast+
    moreover have "log_record ts lc d modid cache wc = Some (False, cache, ?disc n 0 0 wc2)"
      using e2 None b0 by (simp add: log_record_def Let_def)
    ultimately show ?thesis using cache long by (intro exI [of _ False] exI [of _ cache] exI [of _ "?disc n 0 0 wc2"]) simp
  next
    case (Some o2)
    with c2 have ext2: "extends ?wc1 (?off0 + 40) wc2 o2 ab" and n: "n = length ab" by simp_all
    let ?f2 = "\<lambda>h. h\<lparr>li_args_size := of_nat n\<rparr>"
    let ?wc3 = "upd_item b0 ?off0 ?f2 wc2"
    have item2: "holds_item b0 ?off0 (rec_stream wc ?off0) (?f1 ?h0) p ab wc2 o2"
      using holds_item_extends [OF item1 ext2] by simp
    note upd3 = holds_item_upd [OF item2, of ?f2]
    then have item3: "holds_item b0 ?off0 (rec_stream wc ?off0) (?f2 (?f1 ?h0)) p ab ?wc3 o2" by blast
    have g3: "grows wc ?wc3"
      by (rule grows_upd [OF grows_trans [OF extends_grows [OF ext1] extends_grows [OF ext2] cb] item2 nfr])
    then have ds: "c_attrs (snd ?wc3) = ?ds"
      using more_c_attrs [of "snd ?wc3" "snd wc"] by (simp add: grows_def same_writer_def)
    have ok3: "writer_ok ?wc3" "at_cursor ?wc3 o2" using item3 by (simp_all add: holds_item_def)
    have mx3: "w_max (fst ?wc3) = w_max (fst wc)" using upd3 extendsD(3) [OF ext1] extendsD(3) [OF ext2] by simp
    obtain cache' cnt' r4 m wc4 where
      e4: "emit_attrs ts (lc_attrs lc) cache 0 o2 0 ?wc3 = (cache', cnt', Some (r4, m, wc4))" and pre: "prefix cache' ?ds" and
      c4: "case r4 of Some off' \<Rightarrow> extends ?wc3 o2 wc4 off' tb \<and> m = 0 + length tb \<and> cnt' = 0 + of_nat cnt
        | None \<Rightarrow> \<exists>k. fails ?wc3 o2 wc4 (take k tb)"
      using emit_attrs_spec [OF ok3 _ ds cache, of ts "lc_attrs lc" 0 0] fit mx3 unfolding tb_def cnt_def by force
    have tfit: "r4 = Some (?off0 + 40 + length (ab @ tb))" if f: "?off0 + 40 + length (ab @ tb) \<le> w_max (fst wc)"
    proof -
      have "o2 = ?off0 + 40 + length ab" using afit [OF f] Some by simp
      then show ?thesis
        using emit_attrs_fits [OF ok3 _ ds cache, of "lc_attrs lc" ts 0 0] f fit mx3 e4 unfolding tb_def by (auto simp: add.assoc)
    qed
    show ?thesis
    proof (cases r4)
      case None
      then have long: "w_max (fst wc) < ?off0 + 40 + length (ab @ tb)" using tfit by (meson not_le option.distinct(1))
      from None c4 obtain k where dry: "fails ?wc3 o2 wc4 (take k tb)" by auto
      then have "w_buffer (fst wc4) = None" by (simp add: fails_def)
      from roll [OF grows_trans [OF g3 fails_grows [OF dry] cb] this]
      have "rolled_back wc (?disc n m cnt' wc4)" "c_ub (snd (?disc n m cnt' wc4)) = c_ub (snd wc)" by blast+
      moreover have "log_record ts lc d modid cache wc = Some (False, cache', ?disc n m cnt' wc4)"
        using e2 e4 \<open>r = Some o2\<close> None b0 by (simp add: log_record_def Let_def)
      ultimately show ?thesis using pre long by (intro exI [of _ False] exI [of _ cache'] exI [of _ "?disc n m cnt' wc4"]) simp
    next
      case (Some o4)
      with c4 have ext4: "extends ?wc3 o2 wc4 o4 tb" and m: "m = length tb" and cn: "cnt' = of_nat cnt" by simp_all
      have item4: "holds_item b0 ?off0 (rec_stream wc ?off0) (?f2 (?f1 ?h0)) p (ab @ tb) wc4 o4"
        by (rule holds_item_extends [OF item3 ext4])
      have mx4: "w_max (fst wc4) = w_max (fst wc)" using extendsD(3) [OF ext4] mx3 by simp
      let ?fin = "log_finish ts b0 ?off0 n m cnt' o4 wc4"
      have run: "log_record ts lc d modid cache wc = Some (True, cache', ?fin)"
        using e2 e4 \<open>r = Some o2\<close> Some b0 by (simp add: log_record_def Let_def)
      let ?hf = "log_header ts lc d modid (w_tid (fst wc)) (length ab) (length tb) cnt"
      have hf: "(?f2 (?f1 ?h0))\<lparr>li_attrs_count := cnt', li_size := of_nat (align_up_8 (40 + n + m))\<rparr> = ?hf"
        using n m cn by (simp add: log_header_def item_start_def)
      have "grows wc wc4" by (rule grows_trans [OF g3 extends_grows [OF ext4] cb])
      then have fine: "length p = 2 \<and> (?f2 (?f1 ?h0))\<lparr>li_attrs_count := cnt', li_size := of_nat (align_up_8 (40 + length ab + length tb))\<rparr> = ?hf \<and>
        extends wc ?off0 ?wc1 (?off0 + 40) (enc_log_item (?f1 ?h0) @ p) \<and>
        emit_args ts (ld_args d) (lc_args lc) (?off0 + 40) 0 ?wc1 = Some (Some o2, length ab, wc2) \<and>
        writer_ok ?wc3 \<and> at_cursor ?wc3 o2 \<and> w_max (fst ?wc3) = w_max (fst wc) \<and> c_attrs (snd ?wc3) = ?ds \<and>
        emit_attrs ts (lc_attrs lc) cache 0 o2 0 ?wc3 = (cache', cnt', Some (Some o4, length tb, wc4)) \<and>
        grows wc wc4 \<and> holds_item b0 ?off0 (rec_stream wc ?off0) (?f2 (?f1 ?h0)) p (ab @ tb) wc4 o4 \<and>
        (?off0 + 40 + length (ab @ tb) \<le> w_max (fst wc) \<longrightarrow> o4 = ?off0 + 40 + length (ab @ tb))"
        using lp hf n m ext1 e2 e4 \<open>r = Some o2\<close> Some ok3 mx3 ds item4 tfit by simp
      have "record_sent ts lc d modid cache wc cache' ?fin"
        unfolding record_sent_def Let_def ab_def [symmetric] tb_def [symmetric] cnt_def [symmetric]
        using fine n m by blast
      then show ?thesis
        using run pre by (intro exI [of _ True] exI [of _ cache'] exI [of _ ?fin]) simp
    qed
  qed
qed

lemma log_record_outcome:
  assumes start: "can_start wc" and args: "list_all2 arg_ok (ld_args d) (lc_args lc)"
    and cache: "prefix cache (c_attrs (snd wc))"
  defines "ab \<equiv> args_bytes (ld_args d) (lc_args lc)" and "tb \<equiv> attrs_bytes (c_attrs (snd wc)) (lc_attrs lc)"
    and "cnt \<equiv> length (filter (attr_known (c_attrs (snd wc))) (lc_attrs lc))"
  shows "\<exists>ok cache' wc'. log_record ts lc d modid cache wc = Some (ok, cache', wc') \<and>
    prefix cache' (c_attrs (snd wc)) \<and> c_ub (snd wc') = c_ub (snd wc) \<and>
    (if ok then written wc (enc_log_item (log_header ts lc d modid (w_tid (fst wc)) (length ab) (length tb) cnt)) (ab @ tb) wc' \<or> overran wc wc'
     else rolled_back wc wc')"
proof -
  let ?off0 = "w_used (fst wc)"
  let ?hf = "log_header ts lc d modid (w_tid (fst wc)) (length ab) (length tb) cnt"
  obtain ok cache' wc' where run: "log_record ts lc d modid cache wc = Some (ok, cache', wc')" "prefix cache' (c_attrs (snd wc))" and
    c: "if ok then record_sent ts lc d modid cache wc cache' wc'
      else rolled_back wc wc' \<and> c_ub (snd wc') = c_ub (snd wc) \<and> w_max (fst wc) < ?off0 + 40 + length (ab @ tb)"
    using log_record_parts [OF start args cache, of ts modid] unfolding ab_def tb_def cnt_def by blast
  show ?thesis
  proof (cases ok)
    case False
    with run c show ?thesis by (intro exI [of _ False] exI [of _ cache'] exI [of _ wc']) simp
  next
    case True
    with c obtain b0 h p o4 wc4 cnt' where lp: "length p = 2" and
      hf: "h\<lparr>li_attrs_count := cnt', li_size := of_nat (align_up_8 (40 + length ab + length tb))\<rparr> = ?hf" and
      g: "grows wc wc4" and item: "holds_item b0 ?off0 (rec_stream wc ?off0) h p (ab @ tb) wc4 o4" and
      wc': "wc' = log_finish ts b0 ?off0 (length ab) (length tb) cnt' o4 wc4" by (simp only: if_True record_sent_def Let_def ab_def [symmetric] tb_def [symmetric] cnt_def [symmetric]) blast
    have mx: "w_max (fst wc4) = w_max (fst wc)" and ub: "c_ub (snd wc4) = c_ub (snd wc)" and gh: "ghost (snd wc4) = ghost (snd wc)"
      using g more_ghost [of "snd wc4" "snd wc"] by (simp_all add: grows_def same_writer_def)
    have "(written wc (enc_log_item ?hf) (ab @ tb) wc' \<or> overran wc wc') \<and> c_ub (snd wc') = c_ub (snd wc)"
    proof (cases "o4 + log_pad (40 + length ab + length tb) \<le> w_max (fst wc4)")
      case True
      from log_finish_ok [OF item this, of ts cnt'] show ?thesis
        unfolding hf wc' using lp ub gh by (auto simp: written_def add.assoc same_writer_def dest: more_ghost)
    next
      case False
      then have "w_max (fst wc4) < o4 + log_pad (40 + length ab + length tb)" by simp
      from log_finish_overrun [OF item this, of ts cnt'] show ?thesis
        unfolding wc' using item mx ub align_up_8_bounds [of "40 + length ab + length tb"] False
        by (auto simp: overran_def holds_item_def at_cursor_def log_pad_def)
    qed
    with run True show ?thesis by (intro exI [of _ True] exI [of _ cache'] exI [of _ wc']) simp
  qed
qed

lemma log_record_fits:
  assumes start: "can_start wc" and args: "list_all2 arg_ok (ld_args d) (lc_args lc)"
    and cache: "prefix cache (c_attrs (snd wc))"
  defines "ab \<equiv> args_bytes (ld_args d) (lc_args lc)" and "tb \<equiv> attrs_bytes (c_attrs (snd wc)) (lc_attrs lc)"
  assumes fit: "w_used (fst wc) + 40 + length (ab @ tb) \<le> w_max (fst wc)"
  shows "\<exists>cache' b0 h p wc4 cnt'. log_record ts lc d modid cache wc =
      Some (True, cache', log_finish ts b0 (w_used (fst wc)) (length ab) (length tb) cnt' (w_used (fst wc) + 40 + length (ab @ tb)) wc4) \<and>
    w_max (fst wc4) = w_max (fst wc) \<and> c_ub (snd wc4) = c_ub (snd wc) \<and> length p = 2 \<and>
    holds_item b0 (w_used (fst wc)) (rec_stream wc (w_used (fst wc))) h p (ab @ tb) wc4 (w_used (fst wc) + 40 + length (ab @ tb))"
proof -
  obtain ok cache' wc' where run: "log_record ts lc d modid cache wc = Some (ok, cache', wc')" and
    c: "if ok then record_sent ts lc d modid cache wc cache' wc'
      else rolled_back wc wc' \<and> c_ub (snd wc') = c_ub (snd wc) \<and> w_max (fst wc) < w_used (fst wc) + 40 + length (ab @ tb)"
    using log_record_parts [OF start args cache, of ts modid] unfolding ab_def tb_def by blast
  have ok: ok using c fit by (cases ok) simp_all
  with c obtain b0 h p o4 wc4 cnt' where lp: "length p = 2" and g: "grows wc wc4" and
    item: "holds_item b0 (w_used (fst wc)) (rec_stream wc (w_used (fst wc))) h p (ab @ tb) wc4 o4" and
    wc': "wc' = log_finish ts b0 (w_used (fst wc)) (length ab) (length tb) cnt' o4 wc4" and
    o4: "w_used (fst wc) + 40 + length (ab @ tb) \<le> w_max (fst wc) \<longrightarrow> o4 = w_used (fst wc) + 40 + length (ab @ tb)"
    by (simp only: if_True record_sent_def Let_def ab_def [symmetric] tb_def [symmetric]) blast
  have eq: "o4 = w_used (fst wc) + 40 + length (ab @ tb)" using o4 fit by blast
  have "w_max (fst wc4) = w_max (fst wc)" "c_ub (snd wc4) = c_ub (snd wc)"
    using g by (simp_all add: grows_def same_writer_def)
  then show ?thesis using run ok lp item wc' unfolding eq
    by (intro exI [of _ cache'] exI [of _ b0] exI [of _ h] exI [of _ p] exI [of _ wc4] exI [of _ cnt']) simp
qed


section \<open>Properties of a record\<close>

text \<open>A writer with one current buffer of 128 bytes, filled up to \<open>u\<close>, and one more in the pool.\<close>

definition demo_log :: "nat \<Rightarrow> unit reg_core_ext wc" where
  "demo_log u = ((writer_new 128 7)\<lparr>w_buffer := Some 1, w_used := u\<rparr>,
     demo_reg\<lparr>c_pool := (pool_new 128 (Some \<lparr>bd_used = 128, bd_max = 256\<rparr>) [Some 2])\<lparr>pl_all := [1]\<rparr>,
       c_mem := (\<lambda>_. replicate 128 0)\<rparr>)"

lemma demo_log_start:
  assumes "24 \<le> u" "u + 40 \<le> 128"
  shows "can_start (demo_log u)" "c_attrs (snd (demo_log u)) = []" "w_used (fst (demo_log u)) = u" "w_max (fst (demo_log u)) = 128"
    "w_buffer (fst (demo_log u)) = Some 1"
  using assms
  by (simp_all add: can_start_def demo_log_def writer_ok_def core_ok_def core_owned_def demo_reg_def writer_new_def held_bufs_def
      pool_ok_def news_ok_def budget_exact_def budget_ok_def at_cursor_def pool_new_def List.map_filter_simps)

definition demo_call :: "nat \<Rightarrow> log_call" where
  "demo_call n = \<lparr>lc_level = 3, lc_module = None, lc_trace_id = 0, lc_line = 1, lc_file = Some [97], lc_function = None,
     lc_format = Some [37, 115, 37, 100], lc_attrs = [], lc_args = [Va_str8 (Some (replicate n 97)), Va_u64 5]\<rparr>"

definition demo_desc :: log_desc where
  "demo_desc = \<lparr>ld_hash = 9, ld_format = Some [37, 115, 37, 100], ld_file = Some [97], ld_function = None, ld_line = 1,
     ld_args = [\<lparr>va_type = P8_LOG_ARG_TYPE_USTR8, va_size = 0\<rparr>, \<lparr>va_type = P8_LOG_ARG_TYPE_INT32, va_size = 8\<rparr>],
     ld_fixed_args_size = 8\<rparr>"

lemma demo_args:
  assumes "n < 65536"
  shows "list_all2 arg_ok (ld_args demo_desc) (lc_args (demo_call n))"
    "length (args_bytes (ld_args demo_desc) (lc_args (demo_call n))) = n + 10"
    "lc_attrs (demo_call n) = []"
  using assms
  by (simp_all add: demo_desc_def demo_call_def arg_ok_def valid_varg_def is_str_type_def arg_type_defs args_bytes_def
      arg_bytes_def arg_pieces_def str_bytes_def clamp16_def Let_def)

text \<open>
  C2: A record, once it can start, always comes to an end (\<^verbatim>\<open>send\<close> terminates), no byte is written
  outside a buffer while it is serialised, and it has one of three outcomes. Reported as sent: the
  stream a reader recovers from the writer's buffers has grown by exactly the item header with
  the record's fields, the arguments, the attributes the registry knows and the padding, or else
  the padding did not fit and the cursor has run past the buffer. Reported as not sent: the pool
  is exhausted, the drop is counted, and only the buffers parked before survive.
\<close>

theorem log_record_wire:
  assumes "can_start wc" and "list_all2 arg_ok (ld_args d) (lc_args lc)" and "prefix cache (c_attrs (snd wc))"
  shows "\<exists>ok cache' wc'. log_record ts lc d modid cache wc = Some (ok, cache', wc') \<and> c_ub (snd wc') = c_ub (snd wc) \<and>
    (if ok then
       written wc (enc_log_item (log_header ts lc d modid (w_tid (fst wc)) (length (args_bytes (ld_args d) (lc_args lc)))
           (length (attrs_bytes (c_attrs (snd wc)) (lc_attrs lc))) (length (filter (attr_known (c_attrs (snd wc))) (lc_attrs lc)))))
         (args_bytes (ld_args d) (lc_args lc) @ attrs_bytes (c_attrs (snd wc)) (lc_attrs lc)) wc' \<or> overran wc wc'
     else rolled_back wc wc')"
  using log_record_outcome [OF assms, of ts modid] by blast

lemma log_record_wire_witness:
  "\<exists>ok cache' wc'. log_record 5 (demo_call 90) demo_desc 0 [] (demo_log 24) = Some (ok, cache', wc') \<and> \<not> c_ub (snd wc')"
proof -
  have st: "can_start (demo_log 24)" by (rule demo_log_start) simp_all
  have "prefix [] (c_attrs (snd (demo_log 24)))" "\<not> c_ub (snd (demo_log 24))" by (simp_all add: demo_log_def demo_reg_def)
  with log_record_wire [OF st demo_args(1) [of 90], of "[]" 5 0] show ?thesis by auto
qed

text \<open>
  While the cursor is 8-aligned and a record fits the current buffer with its padding, the
  record is sent in place: the stream grows by it, and the cursor is 8-aligned again behind it
  (or the buffer is parked because too little is left).
\<close>

theorem log_record_in_place:
  assumes "can_start wc" and "list_all2 arg_ok (ld_args d) (lc_args lc)" and "prefix cache (c_attrs (snd wc))"
    and "ab = args_bytes (ld_args d) (lc_args lc)" and "tb = attrs_bytes (c_attrs (snd wc)) (lc_attrs lc)"
    and "8 dvd w_used (fst wc)" and "8 dvd w_max (fst wc)"
    and "w_used (fst wc) + 40 + length (ab @ tb) \<le> w_max (fst wc)"
  shows "\<exists>cache' wc'. log_record ts lc d modid cache wc = Some (True, cache', wc') \<and> 8 dvd w_used (fst wc') \<and>
    written wc (enc_log_item (log_header ts lc d modid (w_tid (fst wc)) (length ab) (length tb)
      (length (filter (attr_known (c_attrs (snd wc))) (lc_attrs lc))))) (ab @ tb) wc'"
proof -
  let ?sz = "40 + length ab + length tb" and ?off0 = "w_used (fst wc)"
  have fit: "?off0 + 40 + length (ab @ tb) \<le> w_max (fst wc)" by (rule assms(8))
  obtain cache' b0 h p wc4 cnt' where run: "log_record ts lc d modid cache wc =
      Some (True, cache', log_finish ts b0 ?off0 (length ab) (length tb) cnt' (?off0 + 40 + length (ab @ tb)) wc4)"
    and mx: "w_max (fst wc4) = w_max (fst wc)"
    and item: "holds_item b0 ?off0 (rec_stream wc ?off0) h p (ab @ tb) wc4 (?off0 + 40 + length (ab @ tb))"
    using log_record_fits [OF assms(1-3) fit [unfolded assms(4,5)], of ts modid] unfolding assms(4,5) by blast
  have tot: "?off0 + 40 + length (ab @ tb) + log_pad ?sz = ?off0 + align_up_8 ?sz"
    using align_up_8_bounds(1) [of ?sz] by (simp add: log_pad_def)
  have al: "?off0 + align_up_8 ?sz \<le> w_max (fst wc)"
  proof -
    have "?sz \<le> w_max (fst wc) - ?off0" "8 dvd w_max (fst wc) - ?off0" using fit assms(6,7) by (simp_all add: dvd_diff_nat)
    then have "align_up_8 ?sz \<le> w_max (fst wc) - ?off0" by (rule align_up_8_le)
    then show ?thesis using fit by simp
  qed
  then have "?off0 + 40 + length (ab @ tb) + log_pad ?sz \<le> w_max (fst wc4)" using tot mx by simp
  from log_finish_ok [OF item this, of ts cnt'] have used: "w_used (fst (log_finish ts b0 ?off0 (length ab) (length tb) cnt' (?off0 + 40 + length (ab @ tb)) wc4)) =
      (if w_max (fst wc) - (?off0 + align_up_8 ?sz) < 32 then 0 else ?off0 + align_up_8 ?sz)"
    unfolding tot mx by blast
  have "8 dvd ?off0 + align_up_8 ?sz" using assms(6) by (intro dvd_add) simp_all
  then show ?thesis
    using log_record_outcome [OF assms(1-3), of ts modid] run used al unfolding assms(4,5) [symmetric]
    by (auto simp: overran_def split: if_splits)
qed

lemma log_record_in_place_witness:
  "\<exists>cache' wc'. log_record 5 (demo_call 3) demo_desc 0 [] (demo_log 24) = Some (True, cache', wc') \<and> 8 dvd w_used (fst wc')"
proof -
  have st: "can_start (demo_log 24)" by (rule demo_log_start) simp_all
  have "prefix [] (c_attrs (snd (demo_log 24)))" by simp
  from log_record_in_place [OF st demo_args(1) [of 3] this refl refl, of 5 0] show ?thesis
    using demo_log_start(3,4) [of 24] demo_args(2,3) [of 3] by (auto simp: attrs_bytes_def)
qed
text \<open>
  C37: The padding is not checked against the buffer: a record that ends inside the buffer less than
  its padding before the end is still reported as sent and moves the cursor past the end. The
  next call keeps that buffer, because the room left is a wrapped \<^verbatim>\<open>size_t\<close>, and its first store, the
  item header, is out of bounds.
\<close>

theorem log_pad_overrun:
  assumes "can_start wc" and "list_all2 arg_ok (ld_args d) (lc_args lc)" and "prefix cache (c_attrs (snd wc))"
    and "ab = args_bytes (ld_args d) (lc_args lc)" and "tb = attrs_bytes (c_attrs (snd wc)) (lc_attrs lc)"
    and "w_used (fst wc) + 40 + length (ab @ tb) \<le> w_max (fst wc)"
    and "w_max (fst wc) < w_used (fst wc) + align_up_8 (40 + length ab + length tb)"
  shows "\<exists>cache' wc'. log_record ts lc d modid cache wc = Some (True, cache', wc') \<and>
    w_max (fst wc') < w_used (fst wc') \<and> park_below 72 wc' = wc' \<and> w_buffer (fst wc') \<noteq> None \<and>
    (\<forall>b f. c_ub (snd (upd_item b (w_used (fst wc')) f wc')))"
proof -
  let ?sz = "40 + length ab + length tb" and ?off0 = "w_used (fst wc)"
  obtain cache' b0 h p wc4 cnt' where run: "log_record ts lc d modid cache wc =
      Some (True, cache', log_finish ts b0 ?off0 (length ab) (length tb) cnt' (?off0 + 40 + length (ab @ tb)) wc4)"
    and mx: "w_max (fst wc4) = w_max (fst wc)"
    and item: "holds_item b0 ?off0 (rec_stream wc ?off0) h p (ab @ tb) wc4 (?off0 + 40 + length (ab @ tb))"
    using log_record_fits [OF assms(1-3) assms(6) [unfolded assms(4,5)], of ts modid] unfolding assms(4,5) by blast
  let ?wc' = "log_finish ts b0 ?off0 (length ab) (length tb) cnt' (?off0 + 40 + length (ab @ tb)) wc4"
  have tot: "?off0 + 40 + length (ab @ tb) + log_pad ?sz = ?off0 + align_up_8 ?sz"
    using align_up_8_bounds(1) [of ?sz] by (simp add: log_pad_def)
  have "w_max (fst wc4) < ?off0 + 40 + length (ab @ tb) + log_pad ?sz" using assms(7) mx tot by simp
  from log_finish_overrun [OF item this, of ts cnt'] have w': "w_buffer (fst ?wc') = w_buffer (fst wc4)"
    "w_used (fst ?wc') = ?off0 + align_up_8 ?sz" "w_max (fst ?wc') = w_max (fst wc)"
    "\<forall>x. length (c_mem (snd ?wc') x) = w_max (fst wc)" unfolding tot mx by blast+
  have b: "w_buffer (fst ?wc') \<noteq> None" using item w'(1) by (auto simp: holds_item_def at_cursor_def)
  have lt: "w_max (fst wc) < 65536" using assms(1) by (simp add: can_start_def writer_ok_def)
  have "?off0 + align_up_8 ?sz < w_max (fst wc) + 8" using assms(6) align_up_8_bounds(2) [of ?sz] by simp
  then have "\<not> size_sub (w_max (fst ?wc')) (w_used (fst ?wc')) < 72"
    unfolding w'(2,3) using size_sub_wrap [OF assms(7)] lt by simp
  then have "park_below 72 ?wc' = ?wc'" using b by (simp add: park_below_def split: option.splits)
  moreover have "c_ub (snd (upd_item b (w_used (fst ?wc')) f ?wc'))" for b f
    using w'(2,4) assms(7) by (simp add: upd_item_def mem_write_def)
  ultimately show ?thesis using run w'(2,3) assms(7) b by (intro exI [of _ cache'] exI [of _ ?wc']) simp
qed

lemma log_pad_overrun_witness:
  "\<exists>cache' wc'. log_record 5 (demo_call 41) demo_desc 0 [] (demo_log 36) = Some (True, cache', wc') \<and>
     w_max (fst wc') < w_used (fst wc') \<and> park_below 72 wc' = wc' \<and>
     (\<forall>b f. c_ub (snd (upd_item b (w_used (fst wc')) f wc')))"
proof -
  have st: "can_start (demo_log 36)" by (rule demo_log_start) simp_all
  have "prefix [] (c_attrs (snd (demo_log 36)))" by simp
  from log_pad_overrun [OF st demo_args(1) [of 41] this refl refl, of 5 0] show ?thesis
    using demo_log_start(3,4) [of 36] demo_args(2,3) [of 41] by (auto simp: attrs_bytes_def align_up_8_def)
qed

text \<open>A block that does not fit the rest of the buffer starts a fresh one, if there is one.\<close>

lemma emit_fixed_skips:
  assumes ok: "writer_ok wc" "at_cursor wc off" and short: "w_max (fst wc) < off + k"
    and run: "emit_fixed ts k bs off n wc = Some (Some o2, n', wc')"
  shows "o2 = 24 + k"
proof -
  obtain w c where wc: "wc = (w, c)" by fastforce
  obtain g wc1 where rot: "rotate_fragment_buffer ts (w\<lparr>w_used := off\<rparr>, c) = (g, wc1)" by (meson surj_pair)
  have g: g using run rot wc short by (cases g) (simp_all add: emit_fixed_def ensure_space_def)
  then have rotT: "rotate_fragment_buffer ts (w\<lparr>w_used := off\<rparr>, c) = (True, wc1)" using rot by simp
  have "w_used (fst wc1) = 24" by (rule rotate_ok(2) [OF ok [unfolded wc] rotT])
  then show ?thesis using run rotT wc short by (simp add: emit_fixed_def ensure_space_def)
qed

lemma emit_two_args_skip:
  assumes ok: "writer_ok wc" "at_cursor wc off" "40 \<le> w_max (fst wc)" and args: "arg_ok a1 v1" "arg_ok a2 v2"
    and a2: "va_size a2 = 8" "\<not> is_str_type (va_type a2)"
    and fit: "off + length (arg_bytes a1 v1) \<le> w_max (fst wc)" "w_max (fst wc) < off + length (arg_bytes a1 v1) + 8"
    and run: "emit_args ts [a1, a2] [v1, v2] off n wc = Some (Some o2, n', wc')"
  shows "o2 = 32"
proof -
  let ?e = "off + length (arg_bytes a1 v1)"
  have bl: "\<forall>p\<in>set (arg_pieces a1 v1). block_len p \<le> w_max (fst wc) - 24"
    using args_pieces_fit [of "[a1]" "[v1]" "w_max (fst wc)"] args(1) ok(3) by simp
  obtain wc1 where e1: "emit_arg ts a1 [v1, v2] off n wc = Some (Some ?e, n + length (arg_bytes a1 v1), wc1)"
    using emit_all_fits [OF ok(1,2) _ bl, of ts n] fit(1) unfolding emit_arg_all [OF args(1)] arg_bytes_def by blast
  have ext: "extends wc off wc1 ?e (arg_bytes a1 v1)"
    using rs.emit_all_spec [of wc off "arg_pieces a1 v1" ts n, OF conjI [OF ok(1,2)] bl] e1
    unfolding emit_arg_all [OF args(1)] arg_bytes_def by simp
  obtain bs where bs: "va_fixed a2 v2 = Some bs" using args(2) a2(2) by (auto simp: arg_ok_def)
  have e2: "emit_arg ts a2 [v2] o1 m x = emit_fixed ts 8 bs o1 m x" for o1 m and x :: "'a wc"
    using a2 bs by (simp add: emit_arg_def)
  have "emit_args ts [a1, a2] [v1, v2] off n wc = emit_args ts [a2] [v2] ?e (n + length (arg_bytes a1 v1)) wc1"
    using e1 arg_ok_reads [OF args(1)] by (simp add: and_then_def)
  also have "\<dots> = emit_fixed ts 8 bs ?e (n + length (arg_bytes a1 v1)) wc1"
    by (auto simp: and_then_def e2 split: option.splits)
  finally have "emit_fixed ts 8 bs ?e (n + length (arg_bytes a1 v1)) wc1 = Some (Some o2, n', wc')" using run by simp
  then show ?thesis
    using emit_fixed_skips [OF extendsD(1,2) [OF ext], of 8 ts bs "n + length (arg_bytes a1 v1)" o2 n' wc'] extendsD(3) [OF ext] fit(2) by simp
qed

text \<open>
  C38: The cursor does get misaligned: a string argument that ends fewer than 8 bytes before the end
  of the buffer makes the integer after it skip to a fresh buffer, but the padding is still
  computed from the record's logical size, so the cursor behind the record is no multiple of 8
  although every record before it ended at one.
\<close>

theorem log_skip_misaligns:
  assumes "can_start wc" and "list_all2 arg_ok (ld_args d) (lc_args lc)" and "prefix cache (c_attrs (snd wc))"
    and "ld_args d = [a1, a2]" and "lc_args lc = [v1, v2]" and "va_size a2 = 8" and "\<not> is_str_type (va_type a2)" and "lc_attrs lc = []"
    and "8 dvd w_used (fst wc)" and "8 dvd w_max (fst wc)" and "72 \<le> w_max (fst wc)"
    and "w_used (fst wc) + 40 + length (arg_bytes a1 v1) < w_max (fst wc)"
    and "w_max (fst wc) < w_used (fst wc) + 40 + length (arg_bytes a1 v1) + 8"
  shows "\<exists>ok cache' wc'. log_record ts lc d modid cache wc = Some (ok, cache', wc') \<and>
    (ok \<longrightarrow> w_used (fst wc') = 32 + log_pad (48 + length (arg_bytes a1 v1)) \<and> \<not> 8 dvd w_used (fst wc'))"
proof -
  let ?off0 = "w_used (fst wc)" and ?ab = "args_bytes (ld_args d) (lc_args lc)" and ?tb = "attrs_bytes (c_attrs (snd wc)) (lc_attrs lc)"
  let ?k = "length (arg_bytes a1 v1)"
  have args: "arg_ok a1 v1" "arg_ok a2 v2" using assms(2) unfolding assms(4,5) by simp_all
  have "length (arg_bytes a2 v2) = 8"
    using args(2) assms(6,7) by (auto simp: arg_ok_def arg_bytes_def arg_pieces_def)
  then have lens: "length ?ab = ?k + 8" "length ?tb = 0" using assms(8) by (simp_all add: assms(4,5) args_bytes_def attrs_bytes_def)
  obtain ok cache' wc' where run: "log_record ts lc d modid cache wc = Some (ok, cache', wc')" and
    c: "ok \<Longrightarrow> record_sent ts lc d modid cache wc cache' wc'"
    using log_record_parts [OF assms(1-3), of ts modid] by (metis (full_types))
  have "w_used (fst wc') = 32 + log_pad (48 + ?k) \<and> \<not> 8 dvd w_used (fst wc')" if ok
  proof -
    from c [OF that] obtain b0 h p f wc1 wc2 o2 wc3 o4 wc4 cnt' where ext: "extends wc ?off0 wc1 (?off0 + 40) f" and
      ea: "emit_args ts [a1, a2] [v1, v2] (?off0 + 40) 0 wc1 = Some (Some o2, length ?ab, wc2)" and
      et: "emit_attrs ts (lc_attrs lc) cache 0 o2 0 wc3 = (cache', cnt', Some (Some o4, length ?tb, wc4))" and
      g: "grows wc wc4" and item: "holds_item b0 ?off0 (rec_stream wc ?off0) h p (?ab @ ?tb) wc4 o4" and
      wc': "wc' = log_finish ts b0 ?off0 (length ?ab) (length ?tb) cnt' o4 wc4"
      unfolding record_sent_def Let_def assms(4,5) by blast
    have mx1: "w_max (fst wc1) = w_max (fst wc)" by (rule extendsD(3) [OF ext])
    have "o2 = 32"
      using emit_two_args_skip [OF extendsD(1,2) [OF ext] _ args assms(6,7) _ _ ea] mx1 assms(11-13) by simp
    then have o4: "o4 = 32" using et assms(8) by simp
    have sz: "40 + length ?ab + length ?tb = 48 + ?k" using lens by simp
    have pad: "log_pad (48 + ?k) < 8" using align_up_8_bounds [of "48 + ?k"] by (simp add: log_pad_def)
    have mx4: "w_max (fst wc4) = w_max (fst wc)" using g by (simp add: grows_def same_writer_def)
    have "o4 + log_pad (40 + length ?ab + length ?tb) \<le> w_max (fst wc4)" unfolding sz o4 mx4 using pad assms(11) by simp
    from log_finish_ok [OF item this, of ts cnt'] have "w_used (fst wc') =
        (if w_max (fst wc4) - (o4 + log_pad (40 + length ?ab + length ?tb)) < 32 then 0 else o4 + log_pad (40 + length ?ab + length ?tb))"
      unfolding wc' by blast
    also have "\<dots> = 32 + log_pad (48 + ?k)" unfolding sz mx4 o4 using assms(11) pad by simp
    finally have used: "w_used (fst wc') = 32 + log_pad (48 + ?k)" .
    have "\<not> 8 dvd ?k" using assms(9,10,12,13) by presburger
    then have "\<not> 8 dvd 48 + ?k" by presburger
    then have "log_pad (48 + ?k) \<noteq> 0"
      unfolding log_pad_def using align_up_8_bounds(1) [of "48 + ?k"] by (metis align_up_8_dvd diff_is_0_eq le_antisym)
    then have "\<not> 8 dvd 32 + log_pad (48 + ?k)" using pad by presburger
    then show ?thesis using used by simp
  qed
  then show ?thesis using run by blast
qed

lemma log_skip_misaligns_witness:
  "\<exists>ok cache' wc'. log_record 5 (demo_call 59) demo_desc 0 [] (demo_log 24) = Some (ok, cache', wc') \<and>
     (ok \<longrightarrow> w_used (fst wc') = 35)"
proof -
  have st: "can_start (demo_log 24)" by (rule demo_log_start) simp_all
  have cache: "prefix [] (c_attrs (snd (demo_log 24)))" by simp
  have args: "ld_args demo_desc = [\<lparr>va_type = P8_LOG_ARG_TYPE_USTR8, va_size = 0\<rparr>, \<lparr>va_type = P8_LOG_ARG_TYPE_INT32, va_size = 8\<rparr>]"
    "lc_args (demo_call 59) = [Va_str8 (Some (replicate 59 97)), Va_u64 5]" "lc_attrs (demo_call 59) = []"
    by (simp_all add: demo_desc_def demo_call_def)
  have len: "length (arg_bytes \<lparr>va_type = P8_LOG_ARG_TYPE_USTR8, va_size = 0\<rparr> (Va_str8 (Some (replicate 59 97)))) = 61"
    by (simp add: arg_bytes_def arg_pieces_def is_str_type_def arg_type_defs str_bytes_def clamp16_def Let_def)
  show ?thesis
    using log_skip_misaligns [OF st demo_args(1) [of 59] cache args(1,2) _ _ args(3), of 5 0] demo_log_start(3,4) [of 24] len
    by (auto simp: is_str_type_def arg_type_defs log_pad_def align_up_8_def)
qed

end
