(* ===== verification/CallEnv.thy ===== *)
theory CallEnv
  imports LogStream
begin

text \<open>
  What a call of a writer meets while it waits for a buffer with its lock released
  (\<^verbatim>\<open>cp8_log::send\<close> and \<^verbatim>\<open>cp8_mtk::emit\<close>), and what getting a buffer does to the stream of the writer. The
  worker may take the writer's parked buffers during the wait; so the stream is followed together with a
  history of what has been taken. The history is read from the ghost part of the core.
\<close>

section \<open>The rest of the process\<close>

definition full_stream :: "('a \<Rightarrow> byte list) \<Rightarrow> ('a reg_core_ext) wc \<Rightarrow> byte list" where
  "full_stream hist wc = hist (ghost (snd wc)) @ rec_stream wc (w_used (fst wc))"

text \<open>The service buffers are in order and none of them is the writer's.\<close>

definition svc_clear :: "('a reg_core_ext) wc \<Rightarrow> bool" where
  "svc_clear wc \<longleftrightarrow> svc_ok (snd wc) \<and> set (held_bufs (fst wc)) \<inter> set (map fst (c_svc (snd wc))) = {}"

text \<open>
  What the rest of the process may do during the wait: the worker may take parked buffers in order (the history
  and the stream together stay the same), pending descriptors may come and go, buffers circulate; the
  registries that the call has looked at stay, and the buffer handed over was nobody's here.
\<close>

definition env_ok :: "('a \<Rightarrow> byte list) \<Rightarrow> ('a reg_core_ext) call_env \<Rightarrow> bool" where
  "env_ok hist env \<longleftrightarrow> (\<forall>wc. writer_ok wc \<and> w_buffer (fst wc) = None \<longrightarrow>
     (case acquire_unlocked env wc of (r, wc') \<Rightarrow>
        (\<exists>fr. fst wc' = (fst wc)\<lparr>w_frags := fr\<rparr>) \<and> writer_ok wc' \<and> full_stream hist wc' = full_stream hist wc \<and>
        c_ub (snd wc') = c_ub (snd wc) \<and> c_mtk_count (snd wc') = c_mtk_count (snd wc) \<and>
        c_attrs (snd wc') = c_attrs (snd wc) \<and> c_log_descs (snd wc') = c_log_descs (snd wc) \<and>
        (svc_clear wc \<longrightarrow> svc_clear wc') \<and>
        (\<forall>n. r = Some n \<longrightarrow> n \<notin> set (w_frags (fst wc')) \<and> n \<in> core_owned (snd wc') \<and>
          (svc_clear wc \<longrightarrow> n \<notin> set (map fst (c_svc (snd wc')))))))"

section \<open>Getting a buffer\<close>

lemma park_below_rests:
  assumes ok: "writer_ok wc" and rest: "rests wc"
  shows "writer_ok (park_below k wc)" "rests (park_below k wc)" "snd (park_below k wc) = snd wc"
    "held_bufs (fst (park_below k wc)) = held_bufs (fst wc)" "same_writer wc (park_below k wc)"
    "rec_stream (park_below k wc) (w_used (fst (park_below k wc))) = rec_stream wc (w_used (fst wc))"
    "w_buffer (fst (park_below k wc)) = None \<or> park_below k wc = wc \<and> k \<le> w_max (fst wc) - w_used (fst wc)"
proof -
  obtain w c where wc: "wc = (w, c)" by fastforce
  have *: "writer_ok (park_below k wc) \<and> rests (park_below k wc) \<and> snd (park_below k wc) = snd wc \<and>
    held_bufs (fst (park_below k wc)) = held_bufs (fst wc) \<and> same_writer wc (park_below k wc) \<and>
    rec_stream (park_below k wc) (w_used (fst (park_below k wc))) = rec_stream wc (w_used (fst wc)) \<and>
    (w_buffer (fst (park_below k wc)) = None \<or> park_below k wc = wc \<and> k \<le> w_max (fst wc) - w_used (fst wc))"
  proof (cases "w_buffer w")
    case None
    then show ?thesis using ok rest wc by (simp add: park_below_def)
  next
    case (Some b)
    have cur: "24 \<le> w_used w" "w_used w \<le> w_max w" and sz: "unat (bh_size (hdr c b)) = w_used w"
      using rest Some wc by (simp_all add: rests_def at_cursor_def)
    show ?thesis
    proof (cases "size_sub (w_max w) (w_used w) < k")
      case False
      then have "park_below k wc = wc" using Some wc by (simp add: park_below_def)
      then show ?thesis using ok rest wc False cur by simp
    next
      case True
      let ?w = "w\<lparr>w_frags := w_frags w @ [b], w_buffer := None\<rparr>"
      have p: "park_below k (w, c) = (?w, c)" using Some True by (simp add: park_below_def)
      have "writer_ok (?w, c)"
        using ok sz cur Some unfolding wc writer_ok_def by (auto simp: held_bufs_def frag_ok_def)
      moreover have "rec_stream (?w, c) (w_used w) = rec_stream (w, c) (w_used w)"
        using Some sz by (simp add: rec_stream_def payload_def)
      ultimately show ?thesis using Some unfolding wc p by (simp add: rests_def held_bufs_def same_writer_def)
    qed
  qed
  then show "writer_ok (park_below k wc)" "rests (park_below k wc)" "snd (park_below k wc) = snd wc"
    "held_bufs (fst (park_below k wc)) = held_bufs (fst wc)" "same_writer wc (park_below k wc)"
    "rec_stream (park_below k wc) (w_used (fst (park_below k wc))) = rec_stream wc (w_used (fst wc))"
    "w_buffer (fst (park_below k wc)) = None \<or> park_below k wc = wc \<and> k \<le> w_max (fst wc) - w_used (fst wc)" by blast+
qed
lemma install_buffer_rests:
  fixes ty :: u8 and ts :: u64
  assumes ok: "writer_ok wc" and nob: "w_buffer (fst wc) = None" and n: "n \<notin> set (w_frags (fst wc))" "n \<in> core_owned (snd wc)"
  defines "wc' \<equiv> install_buffer ty ts n wc"
  shows "writer_ok wc'" "rests wc'" "w_buffer (fst wc') = Some n" "w_used (fst wc') = 24"
    "same_writer wc wc'" "rec_stream wc' 24 = rec_stream wc off"
proof -
  obtain w c where wc: "wc = (w, c)" by fastforce
  have len: "length (c_mem c n) = w_max w" and mx: "24 < w_max w" using ok wc by (simp_all add: writer_ok_def core_ok_def)
  let ?h = "data_hdr ty (w_tid w) ts"
  let ?c = "c\<lparr>c_mem := (c_mem c)(n := put_bytes 0 (enc_buf_hdr ?h) (c_mem c n))\<rparr>"
  have wc': "wc' = (w\<lparr>w_buffer := Some n, w_used := 24\<rparr>, ?c)"
    using wc len mx by (simp add: wc'_def install_buffer_def mem_write_def)
  have mem: "\<forall>x\<in>set (w_frags w). c_mem ?c x = c_mem c x" using n(1) wc by auto
  then have hd: "\<forall>x\<in>set (w_frags w). hdr ?c x = hdr c x" using hdr_mem_cong by blast
  have hn: "hdr ?c n = ?h" by (simp add: hdr_def put_bytes_def)
  have "core_ok ?c" using ok wc len mx by (intro core_ok_mem) (simp_all add: writer_ok_def)
  then show "writer_ok wc'"
    using ok nob n hd unfolding wc' wc writer_ok_def by (auto simp: held_bufs_def)
  show "rests wc'" unfolding wc' using hn mx by (simp add: rests_def at_cursor_def data_hdr_def)
  show "w_buffer (fst wc') = Some n" "w_used (fst wc') = 24" "same_writer wc wc'" using wc wc' by (simp_all add: same_writer_def)
  show "rec_stream wc' 24 = rec_stream wc off"
    using wc nob payloads_mem_cong [OF mem] unfolding wc' by (simp add: rec_stream_def)
qed


lemma install_buffer_svc:
  assumes "svc_clear wc" "w_buffer (fst wc) = None" "n \<notin> set (map fst (c_svc (snd wc)))" "24 \<le> pl_bufsz (c_pool (snd wc))"
  shows "svc_clear (install_buffer ty ts n wc)"
proof -
  obtain w c where wc: "wc = (w, c)" by fastforce
  let ?bs = "enc_buf_hdr (data_hdr ty (w_tid w) ts)"
  have len: "length (c_mem c n) = pl_bufsz (c_pool c)" using assms(1) wc by (simp add: svc_clear_def svc_ok_def core_ok_def)
  let ?c = "c\<lparr>c_mem := (c_mem c)(n := put_bytes 0 ?bs (c_mem c n))\<rparr>"
  have i: "install_buffer ty ts n wc = (w\<lparr>w_buffer := Some n, w_used := 24\<rparr>, ?c)"
    using wc len assms(4) by (simp add: install_buffer_def mem_write_def)
  have "core_ok ?c" using assms(1,4) wc len by (intro core_ok_mem) (simp_all add: svc_clear_def svc_ok_def)
  then have "svc_ok ?c" using assms(1) wc by (simp add: svc_clear_def svc_ok_def core_owned_def)
  then show ?thesis using assms(1-3) wc unfolding i svc_clear_def by (auto simp: held_bufs_def)
qed

text \<open>
  With any buffer size that has room for \<open>k\<close> bytes behind a header: either a current buffer with that
  much room, the stream unchanged, or none, the stream unchanged and nothing lost.
\<close>

lemma ensure_buffer_rests:
  assumes ok: "writer_ok wc" and rest: "rests wc" and env: "env_ok hist env" and k: "24 + k \<le> w_max (fst wc)"
    and run: "ensure_buffer ty env (park_below k wc) = (g, wc')"
  shows "writer_ok wc' \<and> rests wc' \<and> c_ub (snd wc') = c_ub (snd wc) \<and> w_max (fst wc') = w_max (fst wc) \<and>
    c_mtk_count (snd wc') = c_mtk_count (snd wc) \<and> c_attrs (snd wc') = c_attrs (snd wc) \<and>
    c_log_descs (snd wc') = c_log_descs (snd wc) \<and> (svc_clear wc \<longrightarrow> svc_clear wc') \<and>
    w_drop_logs (fst wc') = w_drop_logs (fst wc) \<and>
    w_drop_metrics (fst wc') = w_drop_metrics (fst wc) \<and> w_tid (fst wc') = w_tid (fst wc) \<and>
    full_stream hist wc' = full_stream hist wc \<and>
    (if g then w_buffer (fst wc') \<noteq> None \<and> w_used (fst wc') + k \<le> w_max (fst wc') else w_buffer (fst wc') = None)"
proof -
  let ?p = "park_below k wc"
  note p = park_below_rests [OF ok rest, of k]
  have pm: "w_max (fst ?p) = w_max (fst wc)" "w_drop_metrics (fst ?p) = w_drop_metrics (fst wc)"
    "w_drop_logs (fst ?p) = w_drop_logs (fst wc)" "w_tid (fst ?p) = w_tid (fst wc)"
    using p(5) by (simp_all add: same_writer_def)
  have ptot: "full_stream hist ?p = full_stream hist wc" and psvc: "svc_clear ?p = svc_clear wc"
    using p(3,4,6) by (simp_all add: full_stream_def svc_clear_def)
  show ?thesis
  proof (cases "w_buffer (fst ?p)")
    case (Some b)
    then have "g" "wc' = wc" "k \<le> w_max (fst wc) - w_used (fst wc)" "w_buffer (fst wc) \<noteq> None" "?p = wc"
      using run p(7) by (auto simp: ensure_buffer_def)
    then show ?thesis using ok rest by (auto simp: rests_def at_cursor_def)
  next
    case None
    obtain r wc1 where acq: "acquire_unlocked env ?p = (r, wc1)" by (meson surj_pair)
    have e: "\<exists>fr. fst wc1 = (fst ?p)\<lparr>w_frags := fr\<rparr>" "writer_ok wc1" "full_stream hist wc1 = full_stream hist ?p"
      "c_ub (snd wc1) = c_ub (snd ?p)" "c_mtk_count (snd wc1) = c_mtk_count (snd ?p)" "c_attrs (snd wc1) = c_attrs (snd ?p)"
      "c_log_descs (snd wc1) = c_log_descs (snd ?p)" "svc_clear ?p \<Longrightarrow> svc_clear wc1"
      "r = Some n \<Longrightarrow> n \<notin> set (w_frags (fst wc1)) \<and> n \<in> core_owned (snd wc1)"
      "r = Some n \<Longrightarrow> svc_clear ?p \<Longrightarrow> n \<notin> set (map fst (c_svc (snd wc1)))" for n
      using spec [OF env [unfolded env_ok_def], of ?p] p(1) None acq by auto
    have w1: "w_buffer (fst wc1) = None" "w_max (fst wc1) = w_max (fst wc)" "w_drop_logs (fst wc1) = w_drop_logs (fst wc)"
      "w_drop_metrics (fst wc1) = w_drop_metrics (fst wc)" "w_tid (fst wc1) = w_tid (fst wc)"
      using e(1) None pm by auto
    show ?thesis
    proof (cases r)
      case None
      then have "g = False" "wc' = wc1" using run acq \<open>w_buffer (fst ?p) = None\<close> by (simp_all add: ensure_buffer_def)
      then show ?thesis using e(2-8) w1 ptot psvc p(3) by (simp add: rests_def)
    next
      case (Some n)
      then have g: "g = True" "wc' = install_buffer ty (env_now_buf env) n wc1"
        using run acq \<open>w_buffer (fst ?p) = None\<close> by (simp_all add: ensure_buffer_def)
      note i = install_buffer_rests [OF e(2) w1(1) e(9) [OF Some, THEN conjunct1] e(9) [OF Some, THEN conjunct2], of ty "env_now_buf env"]
      have regs: "c_mtk_count (snd wc') = c_mtk_count (snd wc1)" "c_attrs (snd wc') = c_attrs (snd wc1)"
        "c_log_descs (snd wc') = c_log_descs (snd wc1)" "ghost (snd wc') = ghost (snd wc1)"
        unfolding g(2) by (simp_all add: install_buffer_def mem_write_def)
      have "rec_stream wc1 (w_used (fst wc1)) = rec_stream wc' 24" unfolding g(2) using i(6) [of "w_used (fst wc1)"] by simp
      then have tot: "full_stream hist wc' = full_stream hist wc" using e(3) ptot regs(4) i(4) unfolding g(2) by (simp add: full_stream_def)
      have "24 \<le> pl_bufsz (c_pool (snd wc1))" using e(2) by (simp add: writer_ok_def)
      then have svc: "svc_clear wc \<Longrightarrow> svc_clear wc'"
        using install_buffer_svc [OF e(8) w1(1) e(10) [OF Some]] psvc unfolding g(2) by simp
      show ?thesis using i(1-5) tot svc regs e(4-7) w1 p(3) k unfolding g by (simp add: same_writer_def)
    qed
  qed
qed

section \<open>Two environments\<close>

text \<open>Nothing happens to the writer while it waits, and a wait ends without a buffer.\<close>

definition demo_env :: "'c call_env" where
  "demo_env = \<lparr>env_before = id, env_wait = (\<lambda>wc. (None, wc)), env_after = id, env_now_buf = 4, env_now = 5\<rparr>"

text \<open>Acquiring a buffer, whoever has taken what before.\<close>

lemma acquire_keeps_env:
  assumes "writer_ok (w, c)" "w_buffer w = None" "acquire_buffer True c = (r, c1)"
  shows "writer_ok (w, c1)" "full_stream hist (w, c1) = full_stream hist (w, c)" "c_ub c1 = c_ub c" "c_mtk_count c1 = c_mtk_count c"
    "c_attrs c1 = c_attrs c" "c_log_descs c1 = c_log_descs c" "svc_clear (w, c) \<Longrightarrow> svc_clear (w, c1)"
    "r = Acquired n \<Longrightarrow> n \<notin> set (w_frags w) \<and> n \<in> core_owned c1"
    "r = Acquired n \<Longrightarrow> svc_clear (w, c) \<Longrightarrow> n \<notin> set (map fst (c_svc c1))"
proof -
  have ok: "core_ok c" and sub: "set (w_frags w) \<subseteq> core_owned c"
    using assms(1,2) by (simp_all add: writer_ok_def held_bufs_def)
  have mem: "c_mem c1 = c_mem c" "c_ub c1 = c_ub c" using acquire_buffer_pool(1,2) [OF assms(3)] by simp_all
  have "core.more c1 = core.more c" by (rule acquire_buffer_more [OF assms(3)])
  then have regs: "c_mtk_count c1 = c_mtk_count c" "c_attrs c1 = c_attrs c" "c_log_descs c1 = c_log_descs c"
    "c_svc c1 = c_svc c" "ghost c1 = ghost c" by (cases c; cases c1; simp)+
  have c1: "core_ok c1 \<and> core_owned c \<subseteq> core_owned c1 \<and> pl_bufsz (c_pool c1) = pl_bufsz (c_pool c) \<and>
      (\<forall>b. r = Acquired b \<longrightarrow> b \<notin> core_owned c \<and> b \<in> core_owned c1)"
  proof (cases "\<exists>b. r = Acquired b")
    case True
    then obtain b where b: "acquire_buffer True c = (Acquired b, c1)" "r = Acquired b" using assms(3) by auto
    have "acquire_no_lock (c_pool c) = (Some b, c_pool c1)" using acquire_buffer_pool(5) [OF b(1)] by simp
    then have "pl_bufsz (c_pool c1) = pl_bufsz (c_pool c)" by (rule acquire_no_lock_frame)
    then show ?thesis using core_acquired [OF ok b(1)] b(2) by auto
  next
    case False
    then have no: "\<forall>b. r \<noteq> Acquired b" by simp
    have "pl_bufsz (c_pool c1) = pl_bufsz (c_pool c)"
      using acquire_buffer_pool(6) [OF assms(3) no] acquire_no_lock_frame(3) by auto
    then show ?thesis using core_refused [OF ok assms(3) no] no by auto
  qed
  have "\<forall>b\<in>set (w_frags w). hdr c1 b = hdr c b" using mem(1) by (simp add: hdr_def)
  then show "writer_ok (w, c1)" using assms(1) c1 unfolding writer_ok_def by (auto simp: held_bufs_def)
  have "payloads c1 (w_frags w) = payloads c (w_frags w)" using mem(1) by (intro payloads_mem_cong) simp
  then show "full_stream hist (w, c1) = full_stream hist (w, c)" using regs(5) assms(2) by (simp add: full_stream_def rec_stream_def)
  show "c_ub c1 = c_ub c" "c_mtk_count c1 = c_mtk_count c" "c_attrs c1 = c_attrs c" "c_log_descs c1 = c_log_descs c"
    using mem regs by simp_all
  show "svc_clear (w, c1)" if "svc_clear (w, c)"
    using that c1 regs(4) by (auto simp: svc_clear_def svc_ok_def)
  show "n \<notin> set (w_frags w) \<and> n \<in> core_owned c1" if "r = Acquired n" using that c1 sub by auto
  show "n \<notin> set (map fst (c_svc c1))" if "r = Acquired n" "svc_clear (w, c)"
    using that c1 regs(4) by (auto simp: svc_clear_def svc_ok_def)
qed

lemma demo_env_ok: "env_ok hist demo_env"
  unfolding env_ok_def
proof (intro allI impI)
  fix wc :: "'a reg_core_ext wc"
  assume h: "writer_ok wc \<and> w_buffer (fst wc) = None"
  obtain w c where wc: "wc = (w, c)" by fastforce
  obtain r c1 where acq: "acquire_buffer True c = (r, c1)" by (meson surj_pair)
  have w: "writer_ok (w, c)" "w_buffer w = None" using h wc by simp_all
  have "acquire_unlocked demo_env wc = ((case r of Acquired b \<Rightarrow> Some b | _ \<Rightarrow> None), w, c1)"
    using acq wc by (cases r) (simp_all add: acquire_unlocked_def demo_env_def)
  moreover have "\<exists>fr. w = w\<lparr>w_frags := fr\<rparr>" by (intro exI [of _ "w_frags w"]) simp
  ultimately show "case acquire_unlocked demo_env wc of (r, wc') \<Rightarrow>
      (\<exists>fr. fst wc' = (fst wc)\<lparr>w_frags := fr\<rparr>) \<and> writer_ok wc' \<and> full_stream hist wc' = full_stream hist wc \<and>
      c_ub (snd wc') = c_ub (snd wc) \<and> c_mtk_count (snd wc') = c_mtk_count (snd wc) \<and>
      c_attrs (snd wc') = c_attrs (snd wc) \<and> c_log_descs (snd wc') = c_log_descs (snd wc) \<and>
      (svc_clear wc \<longrightarrow> svc_clear wc') \<and>
      (\<forall>n. r = Some n \<longrightarrow> n \<notin> set (w_frags (fst wc')) \<and> n \<in> core_owned (snd wc') \<and>
        (svc_clear wc \<longrightarrow> n \<notin> set (map fst (c_svc (snd wc')))))"
    using acquire_keeps_env [OF w acq] wc by (auto split: acquire_result.splits)
qed

text \<open>Before the wait the worker takes all parked buffers; the ghost part records their payloads.\<close>

definition pull_env :: "(byte list reg_core_ext) call_env" where
  "pull_env = demo_env\<lparr>env_before := (\<lambda>(w, c). (w\<lparr>w_frags := []\<rparr>, reg_core.more_update (\<lambda>h. h @ payloads c (w_frags w)) c))\<rparr>"

lemma pull_env_ok: "env_ok id pull_env"
  unfolding env_ok_def
proof (intro allI impI)
  fix wc :: "byte list reg_core_ext wc"
  assume h: "writer_ok wc \<and> w_buffer (fst wc) = None"
  obtain w c where wc: "wc = (w, c)" by fastforce
  let ?w = "w\<lparr>w_frags := []\<rparr>" and ?c = "reg_core.more_update (\<lambda>h. h @ payloads c (w_frags w)) c"
  have c: "c_pool ?c = c_pool c" "c_mem ?c = c_mem c" "c_ub ?c = c_ub c" "c_mtk_count ?c = c_mtk_count c" "c_attrs ?c = c_attrs c"
    "c_log_descs ?c = c_log_descs c" "c_svc ?c = c_svc c" "ghost ?c = ghost c @ payloads c (w_frags w)"
    by (cases c; simp)+
  obtain r c1 where acq: "acquire_buffer True ?c = (r, c1)" by (meson surj_pair)
  have ok: "writer_ok (?w, ?c)" using h wc c(1,2) by (simp add: writer_ok_def held_bufs_def core_ok_def core_owned_def)
  have tot: "full_stream id (?w, ?c) = full_stream id wc" using h wc c(8) by (simp add: full_stream_def rec_stream_def payloads_def)
  have svc: "svc_clear wc \<Longrightarrow> svc_clear (?w, ?c)" using h wc c(1,2,7)
    by (simp add: svc_clear_def svc_ok_def core_ok_def core_owned_def held_bufs_def)
  have "w_buffer ?w = None" using h wc by simp
  note k = acquire_keeps_env [OF ok this acq]
  have run: "acquire_unlocked pull_env wc = ((case r of Acquired b \<Rightarrow> Some b | _ \<Rightarrow> None), ?w, c1)"
    using acq wc by (cases r) (simp_all add: acquire_unlocked_def demo_env_def pull_env_def)
  show "case acquire_unlocked pull_env wc of (r, wc') \<Rightarrow>
      (\<exists>fr. fst wc' = (fst wc)\<lparr>w_frags := fr\<rparr>) \<and> writer_ok wc' \<and> full_stream id wc' = full_stream id wc \<and>
      c_ub (snd wc') = c_ub (snd wc) \<and> c_mtk_count (snd wc') = c_mtk_count (snd wc) \<and>
      c_attrs (snd wc') = c_attrs (snd wc) \<and> c_log_descs (snd wc') = c_log_descs (snd wc) \<and>
      (svc_clear wc \<longrightarrow> svc_clear wc') \<and>
      (\<forall>n. r = Some n \<longrightarrow> n \<notin> set (w_frags (fst wc')) \<and> n \<in> core_owned (snd wc') \<and>
        (svc_clear wc \<longrightarrow> n \<notin> set (map fst (c_svc (snd wc')))))"
    using k c tot svc wc unfolding run by (auto split: acquire_result.splits)
qed

end
