(* ===== verification/LogCall.thy ===== *)
theory LogCall
  imports CallEnv
begin

text \<open>
  The whole call (\<^verbatim>\<open>cp8_log::send\<close>, \<^verbatim>\<open>engine/p8_log.cpp\<close>): the gate, the buffer, the descriptor and the
  record together. Looking a new call site up serialises its descriptor into the service buffers
  of the core; the first section shows that this leaves the writer's buffers alone.
\<close>

section \<open>Service entries and the writer's buffers\<close>

text \<open>What any service operation leaves as it was for buffers \<open>H\<close> that are out of the pool.\<close>

definition svc_apart :: "addr set \<Rightarrow> 'a reg_core_scheme \<Rightarrow> bool" where
  "svc_apart H c \<longleftrightarrow> H \<subseteq> core_owned c \<and> H \<inter> set (map fst (c_svc c)) = {}"

definition svc_keeps :: "addr set \<Rightarrow> 'a reg_core_scheme \<Rightarrow> 'a reg_core_scheme \<Rightarrow> bool" where
  "svc_keeps H c c' \<longleftrightarrow> svc_apart H c' \<and> core_owned c \<subseteq> core_owned c' \<and> (\<forall>a\<in>H. c_mem c' a = c_mem c a)"

lemma svc_keeps_trans: "svc_keeps H c c1 \<Longrightarrow> svc_keeps H c1 c2 \<Longrightarrow> svc_keeps H c c2"
  by (auto simp: svc_keeps_def)

lemma svc_acquire_keeps:
  assumes "svc_ok c" "svc_apart H c" "svc_acquire_new c = (r, c')"
  shows "svc_keeps H c c'"
proof -
  obtain a c1 where acq: "acquire_buffer False c = (a, c1)" by (meson surj_pair)
  have ok: "core_ok c" using assms(1) by (simp add: svc_ok_def)
  have svc: "c_svc c1 = c_svc c"
    using acquire_buffer_more [OF acq] by (cases c; cases c1) simp
  show ?thesis
  proof (cases "\<exists>b. a = Acquired b")
    case True
    then obtain b where b: "acquire_buffer False c = (Acquired b, c1)" using acq by auto
    note new = core_acquired [OF ok b]
    have "c' = c1\<lparr>c_svc := c_svc c1 @ [(b, 0)]\<rparr>" using assms(3) b by (simp add: svc_acquire_new_def)
    moreover have "c_mem c1 = c_mem c" by (rule acquire_buffer_pool(1) [OF acq])
    ultimately show ?thesis using assms(2) new(2,3) svc by (auto simp: svc_keeps_def svc_apart_def core_owned_def)
  next
    case False
    then have "c' = c1\<lparr>c_drop_svc := c_drop_svc c1 + 1\<rparr>"
      using assms(3) acq by (auto simp: svc_acquire_new_def split: acquire_result.splits)
    moreover have "core_owned c1 = core_owned c" "c_mem c1 = c_mem c" using refused_writer [OF ok acq] False by auto
    ultimately show ?thesis using assms(2) svc by (auto simp: svc_keeps_def svc_apart_def core_owned_def)
  qed
qed

lemma svc_write_mem_keeps:
  assumes "svc_apart H c" "b \<in> set (map fst (c_svc c))"
  shows "svc_keeps H c (mem_write b u bs c)" "c_svc (mem_write b u bs c) = c_svc c"
  using assms by (auto simp: svc_keeps_def svc_apart_def mem_write_def core_owned_def)

lemma svc_take_keeps:
  assumes "svc_apart H c" "cur = last (c_svc c)" "c_svc c \<noteq> []" "svc_take n cur c = (Some (b, u), c')"
  shows "svc_keeps H c c' \<and> b \<in> set (map fst (c_svc c'))"
proof -
  obtain u' where cur: "cur = (b, u')" and c': "c' = mem_write b u' (replicate n 0) (c\<lparr>c_svc := butlast (c_svc c) @ [(b, u' + n)]\<rparr>)"
    using assms(4) by (auto simp: svc_take_def split: prod.splits)
  have "c_svc c = butlast (c_svc c) @ [(b, u')]" using assms(2,3) unfolding cur [symmetric] by simp
  from arg_cong [OF this, of "\<lambda>xs. set (map fst xs)"]
  have "set (map fst (butlast (c_svc c) @ [(b, u' + n)])) = set (map fst (c_svc c))" by simp
  then have ap: "svc_apart H (c\<lparr>c_svc := butlast (c_svc c) @ [(b, u' + n)]\<rparr>)"
    using assms(1) by (simp add: svc_apart_def core_owned_def)
  let ?c1 = "c\<lparr>c_svc := butlast (c_svc c) @ [(b, u' + n)]\<rparr>"
  have "b \<in> set (map fst (c_svc ?c1))" by simp
  note w = svc_write_mem_keeps [OF ap this, of u' "replicate n 0"]
  have "svc_keeps H c ?c1" using ap by (simp add: svc_keeps_def core_owned_def)
  from svc_keeps_trans [OF this w(1)] show ?thesis unfolding c' w(2) by simp
qed

lemma svc_reserve_keeps:
  assumes ok: "svc_ok c" and ap: "svc_apart H c" and run: "svc_reserve n c = (r, c')"
  shows "svc_keeps H c c' \<and> (case r of None \<Rightarrow> True | Some (b, u) \<Rightarrow> b \<in> set (map fst (c_svc c')))"
proof (cases "mz_data_buffer_size < n")
  case True
  then show ?thesis using run ap by (auto simp: svc_reserve_def svc_keeps_def)
next
  case False
  obtain q c1 where q: "(if c_svc c = [] then svc_acquire_new c else (Some (last (c_svc c)), c)) = (q, c1)" by (meson surj_pair)
  have k1: "svc_keeps H c c1" and ok1: "svc_ok c1"
    using q ap svc_acquire_keeps [OF ok ap] svc_acquire_new_ok [OF ok] ok by (auto simp: svc_keeps_def split: if_splits)
  have last1: "cur = last (c_svc c1) \<and> c_svc c1 \<noteq> []" if "q = Some cur" for cur
    using q that svc_acquire_new_ok [OF ok, of q c1] by (auto split: if_splits)
  have ap1: "svc_apart H c1" using k1 by (simp add: svc_keeps_def)
  show ?thesis
  proof (cases q)
    case None
    then show ?thesis using run q k1 False by (simp add: svc_reserve_def)
  next
    case (Some cur)
    obtain q2 c2 where q2: "svc_acquire_new c1 = (q2, c2)" by (meson surj_pair)
    note n2 = svc_acquire_new_ok [OF ok1 q2] and k2 = svc_acquire_keeps [OF ok1 ap1 q2]
    have ap2: "svc_apart H c2" using k2 by (simp add: svc_keeps_def)
    show ?thesis
    proof (cases "mz_data_buffer_size < snd cur + n")
      case fits: False
      then have "svc_take n cur c1 = (r, c')" using run q Some False by (simp add: svc_reserve_def)
      moreover from this obtain b u where "r = Some (b, u)" by (auto simp: svc_take_def split: prod.splits)
      ultimately show ?thesis using svc_take_keeps [OF ap1, of cur n b u c'] last1 [OF Some] k1 svc_keeps_trans by auto
    next
      case True
      show ?thesis
      proof (cases q2)
        case None
        then show ?thesis using run q q2 Some False True svc_keeps_trans [OF k1 k2] by (simp add: svc_reserve_def)
      next
        case cur2: (Some cur2)
        then have "svc_take n cur2 c2 = (r, c')" using run q q2 Some False True by (simp add: svc_reserve_def)
        moreover from this obtain b u where "r = Some (b, u)" by (auto simp: svc_take_def split: prod.splits)
        moreover have "cur2 = last (c_svc c2)" "c_svc c2 \<noteq> []" using n2 cur2 by simp_all
        ultimately show ?thesis
          using svc_take_keeps [OF ap2, of cur2 n b u c'] svc_keeps_trans [OF svc_keeps_trans [OF k1 k2]] by auto
      qed
    qed
  qed
qed

lemma svc_write_keeps:
  assumes "svc_ok c" "svc_apart H c"
  shows "svc_keeps H c (svc_write hsz head body c)"
proof -
  obtain r c1 where r: "svc_reserve (align_up_8 (hsz + length body)) c = (r, c1)" by (meson surj_pair)
  note k1 = svc_reserve_keeps [OF assms r]
  show ?thesis
  proof (cases r)
    case None
    then show ?thesis using r k1 by (simp add: svc_write_def Let_def)
  next
    case (Some p)
    obtain b u where p: "p = (b, u)" by (cases p)
    have ap1: "svc_apart H c1" and b1: "b \<in> set (map fst (c_svc c1))" using k1 Some p by (simp_all add: svc_keeps_def)
    let ?c2 = "mem_write b u (head (align_up_8 (hsz + length body))) c1"
    note k2 = svc_write_mem_keeps [OF ap1 b1, of u "head (align_up_8 (hsz + length body))"]
    have "svc_apart H ?c2" "b \<in> set (map fst (c_svc ?c2))" using k2 b1 by (simp_all add: svc_keeps_def)
    note k3 = svc_write_mem_keeps(1) [OF this, of "u + hsz" body]
    have "svc_keeps H c (mem_write b (u + hsz) body ?c2)"
      using svc_keeps_trans [OF svc_keeps_trans [OF _ k2(1)] k3] k1 by blast
    then show ?thesis using r Some p by (simp add: svc_write_def Let_def)
  qed
qed
text \<open>No service operation touches the ghost part.\<close>

lemma svc_acquire_ghost: "svc_acquire_new c = (r, c') \<Longrightarrow> ghost c' = ghost c"
  by (auto simp: svc_acquire_new_def split: acquire_result.splits prod.splits dest!: acquire_buffer_more more_ghost)

lemma svc_write_ghost: "ghost (svc_write hsz head body c) = ghost c"
proof -
  have take: "svc_take n cur c = (r, c') \<Longrightarrow> ghost c' = ghost c" for n cur c and c' :: "'a reg_core_scheme" and r
    by (auto simp: svc_take_def mem_write_def split: prod.splits)
  have "svc_reserve n c = (r, c') \<Longrightarrow> ghost c' = ghost c" for n r c'
    by (auto simp: svc_reserve_def split: if_splits prod.splits option.splits dest!: svc_acquire_ghost take)
  then show ?thesis by (auto simp: svc_write_def mem_write_def Let_def split: prod.split option.split)
qed

section \<open>Looking up the descriptor\<close>

lemma svc_ok_frame:
  assumes "c_pool c' = c_pool c" "c_mem c' = c_mem c" "c_svc c' = c_svc c"
  shows "svc_ok c' = svc_ok c" "svc_apart H c' = svc_apart H c" "svc_keeps H c' x = svc_keeps H c x"
  using assms by (simp_all add: svc_ok_def core_ok_def core_owned_def svc_apart_def svc_keeps_def)

lemma resolve_log_desc_keeps:
  assumes "svc_ok c" "svc_apart H c" "resolve_log_desc h file line func fmt c = (r, c')"
  shows "svc_ok c' \<and> svc_keeps H c c' \<and> c_ub c' = c_ub c \<and> c_attrs c' = c_attrs c \<and> ghost c' = ghost c"
proof (cases "c_log_descs c h")
  case (Some d)
  then show ?thesis using assms by (simp add: resolve_log_desc_def svc_keeps_def)
next
  case None
  obtain g c1 where g: "alloc c = (g, c1)" by (meson surj_pair)
  have c1: "c_pool c1 = c_pool c" "c_mem c1 = c_mem c" "c_svc c1 = c_svc c" "c_ub c1 = c_ub c" "c_attrs c1 = c_attrs c"
    "ghost c1 = ghost c"
    using g by (auto simp: alloc_def split: list.splits)
  show ?thesis
  proof (cases g)
    case False
    then have "c' = c1" using assms(3) None g by (simp add: resolve_log_desc_def)
    then show ?thesis using assms(1,2) c1 svc_ok_frame [of c1 c] by (simp add: svc_keeps_def core_owned_def)
  next
    case True
    let ?vs = "parse_format_string P8_LOG_MAX_ARGS (map_option to_string fmt)"
    let ?d = "\<lparr>ld_hash = h, ld_format = fmt, ld_file = file, ld_function = func, ld_line = line,
      ld_args = ?vs, ld_fixed_args_size = fixed_args_size ?vs\<rparr>"
    let ?c2 = "c1\<lparr>c_log_descs := (c_log_descs c1)(h \<mapsto> ?d)\<rparr>"
    have c': "c' = serialize_log_desc ?d ?c2" using arg_cong [OF assms(3), of snd] None g True by (simp add: resolve_log_desc_def Let_def)
    have c2: "c_pool ?c2 = c_pool c" "c_mem ?c2 = c_mem c" "c_svc ?c2 = c_svc c" using c1 by simp_all
    have ok2: "svc_ok ?c2" "svc_apart H ?c2" using assms(1,2) svc_ok_frame(1,2) [OF c2] by simp_all
    have "svc_ok c' \<and> c_ub c' = c_ub ?c2" unfolding c' using serialize_item_appends [OF ok2(1), of "SI_log ?d"] by auto
    moreover have "svc_keeps H ?c2 c'" unfolding c' serialize_log_desc_def by (rule svc_write_keeps [OF ok2])
    moreover have "ghost c' = ghost c" using c1 unfolding c' serialize_log_desc_def svc_write_ghost by simp
    ultimately show ?thesis using svc_ok_frame(3) [OF c2] c1 by (simp add: c')
  qed
qed

text \<open>The writer's buffers and its stream are the same after the lookup.\<close>

lemma log_lookup_keeps:
  assumes ok: "writer_ok wc" and svc: "svc_ok (snd wc)" and ap: "set (held_bufs (fst wc)) \<inter> set (map fst (c_svc (snd wc))) = {}"
    and run: "log_lookup hash lc ls wc = (r, ls1, wc2)"
  shows "writer_ok wc2 \<and> fst wc2 = fst wc \<and> ls_cache ls1 = ls_cache ls \<and> c_ub (snd wc2) = c_ub (snd wc) \<and> c_attrs (snd wc2) = c_attrs (snd wc) \<and>
    ghost (snd wc2) = ghost (snd wc) \<and> (\<forall>off. rec_stream wc2 off = rec_stream wc off) \<and> payloads (snd wc2) (w_frags (fst wc)) = payloads (snd wc) (w_frags (fst wc))"
proof (cases "ls_descs ls (hash (lc_file lc) (lc_line lc))")
  case (Some d)
  then show ?thesis using run ok by (auto simp: log_lookup_def)
next
  case None
  obtain w c where wc: "wc = (w, c)" by fastforce
  obtain q c1 where q: "resolve_log_desc (hash (lc_file lc) (lc_line lc)) (lc_file lc) (lc_line lc) (lc_function lc) (lc_format lc) c = (q, c1)"
    by (meson surj_pair)
  have wc2: "wc2 = (w, c1)" and cache: "ls_cache ls1 = ls_cache ls" using run None q wc by (auto simp: log_lookup_def Let_def split: option.splits)
  have apart: "svc_apart (set (held_bufs w)) c" using ok ap wc by (simp add: svc_apart_def writer_ok_def)
  have r: "svc_ok c1" "svc_keeps (set (held_bufs w)) c c1" "c_ub c1 = c_ub c" "c_attrs c1 = c_attrs c" "ghost c1 = ghost c"
    using resolve_log_desc_keeps [OF _ apart q] svc wc by simp_all
  have mem: "\<forall>a\<in>set (held_bufs w). c_mem c1 a = c_mem c a" using r(2) by (simp add: svc_keeps_def)
  then have hd: "\<forall>a\<in>set (held_bufs w). hdr c1 a = hdr c a" using hdr_mem_cong by blast
  have fr: "\<forall>a\<in>set (w_frags w). c_mem c1 a = c_mem c a" "\<forall>a\<in>set (w_frags w). hdr c1 a = hdr c a"
    using mem hd by (simp_all add: held_bufs_def)
  have "pl_bufsz (c_pool c1) = pl_bufsz (c_pool c)" using r(1) svc wc by (simp add: svc_ok_def)
  moreover have "core_ok c1" "set (held_bufs w) \<subseteq> core_owned c1" using r(1,2) by (simp_all add: svc_ok_def svc_keeps_def svc_apart_def)
  ultimately have "writer_ok (w, c1)" using ok fr(2) unfolding wc writer_ok_def fst_conv snd_conv by auto
  moreover have "rec_stream (w, c1) off = rec_stream (w, c) off" for off
    using payloads_mem_cong [OF fr(1)] mem by (auto simp: rec_stream_def held_bufs_def split: option.splits)
  ultimately show ?thesis using wc wc2 cache r payloads_mem_cong [OF fr(1)] by simp
qed
lemma log_lookup_hdr:
  assumes ok: "writer_ok wc" and svc: "svc_ok (snd wc)" and ap: "set (held_bufs (fst wc)) \<inter> set (map fst (c_svc (snd wc))) = {}"
    and run: "log_lookup hash lc ls wc = (r, ls1, wc2)" and b: "w_buffer (fst wc) = Some b"
  shows "hdr (snd wc2) b = hdr (snd wc) b"
proof (cases "ls_descs ls (hash (lc_file lc) (lc_line lc))")
  case (Some d)
  then show ?thesis using run by (auto simp: log_lookup_def)
next
  case None
  obtain q c1 where q: "resolve_log_desc (hash (lc_file lc) (lc_line lc)) (lc_file lc) (lc_line lc) (lc_function lc) (lc_format lc) (snd wc) = (q, c1)"
    by (meson surj_pair)
  have wc2: "snd wc2 = c1" using run None q by (auto simp: log_lookup_def Let_def split: option.splits)
  have apart: "svc_apart (set (held_bufs (fst wc))) (snd wc)" using ok ap by (simp add: svc_apart_def writer_ok_def)
  have "b \<in> set (held_bufs (fst wc))" using b by (simp add: held_bufs_def)
  then have "c_mem c1 b = c_mem (snd wc) b" using resolve_log_desc_keeps [OF svc apart q] by (simp add: svc_keeps_def)
  then show ?thesis unfolding wc2 by (rule hdr_mem_cong)
qed

text \<open>The arguments of the call fit the descriptor of its call site, known or still to be made.\<close>

definition typed_call :: "(cstr \<Rightarrow> u32 \<Rightarrow> u64) \<Rightarrow> log_call \<Rightarrow> log_state \<Rightarrow> 'a reg_core_scheme \<Rightarrow> bool" where
  "typed_call hash lc ls c \<longleftrightarrow>
     (\<forall>d. ls_descs ls (hash (lc_file lc) (lc_line lc)) = Some d \<or> c_log_descs c (hash (lc_file lc) (lc_line lc)) = Some d \<longrightarrow>
        list_all2 arg_ok (ld_args d) (lc_args lc)) \<and>
     list_all2 arg_ok (parse_format_string P8_LOG_MAX_ARGS (map_option to_string (lc_format lc))) (lc_args lc)"

lemma log_lookup_typed:
  assumes "typed_call hash lc ls (snd wc)" "log_lookup hash lc ls wc = (Some d, ls1, wc2)"
  shows "list_all2 arg_ok (ld_args d) (lc_args lc) \<and> ls_descs ls1 (hash (lc_file lc) (lc_line lc)) = Some d"
proof (cases "ls_descs ls (hash (lc_file lc) (lc_line lc))")
  case (Some d')
  then show ?thesis using assms by (simp add: log_lookup_def typed_call_def)
next
  case None
  let ?h = "hash (lc_file lc) (lc_line lc)"
  obtain c1 where r: "resolve_log_desc ?h (lc_file lc) (lc_line lc) (lc_function lc) (lc_format lc) (snd wc) = (Some d, c1)"
    "ls_descs ls1 ?h = Some d"
    using assms(2) None by (auto simp: log_lookup_def Let_def split: option.splits prod.splits)
  have "c_log_descs (snd wc) ?h = Some d \<or> ld_args d = parse_format_string P8_LOG_MAX_ARGS (map_option to_string (lc_format lc))"
    using r(1) by (auto simp: resolve_log_desc_def Let_def split: option.splits prod.splits bool.splits)
  then show ?thesis using assms(1) r(2) by (auto simp: typed_call_def)
qed

section \<open>Calls that write nothing\<close>

definition let_through :: "log_call \<Rightarrow> log_state \<Rightarrow> ('a reg_core_ext) wc \<Rightarrow> bool" where
  "let_through lc ls wc \<longleftrightarrow> fst (log_gate ls (lc_module lc) (snd wc)) \<le> lc_level lc \<and> ls_has_core ls"

definition needs_buffer :: "'c wc \<Rightarrow> bool" where
  "needs_buffer wc \<longleftrightarrow> w_buffer (fst wc) = None \<or> size_sub (w_max (fst wc)) (w_used (fst wc)) < 72"

text \<open>
  A wait of thread \<open>i\<close> that does not park: the answer of \<^verbatim>\<open>acquire_wait\<close>, which tries the pool a second time
  under the lock; nobody else touches the writer.
\<close>

definition stop_env :: "nat \<Rightarrow> 'c call_env \<Rightarrow> bool" where
  "stop_env i env \<longleftrightarrow> (\<forall>wc. env_before env wc = wc \<and> env_after env wc = wc) \<and>
     (\<forall>w c r p. acquire_wait_enter i (c_pool c) = (r, p) \<and> r \<noteq> Parked \<longrightarrow>
        env_wait env (w, c) = (case r of Got b \<Rightarrow> Some b | _ \<Rightarrow> None, w, c\<lparr>c_pool := p\<rparr>))"

lemma park_needs:
  assumes "needs_buffer wc"
  shows "w_buffer (fst (park_below 72 wc)) = None" "held_bufs (fst (park_below 72 wc)) = held_bufs (fst wc)"
    "w_drop_logs (fst (park_below 72 wc)) = w_drop_logs (fst wc)" "snd (park_below 72 wc) = snd wc"
  using assms by (auto simp: needs_buffer_def park_below_def held_bufs_def split: option.splits)

lemma acquire_stopping:
  assumes "stop_env i env" "c_initialized c" "pl_stopping (c_pool c)"
    and "acquire_no_lock (c_pool c) = (None, p1)" "acquire_no_lock p1 = (None, p2)"
  shows "acquire_unlocked env (w, c) = (None, w, (notify_pressure (c\<lparr>c_pool := p1\<rparr>))\<lparr>c_pool := p2\<rparr>)"
proof -
  let ?c1 = "notify_pressure (c\<lparr>c_pool := p1\<rparr>)"
  have "acquire_buffer True c = (Must_wait, ?c1)" using assms(2,4) by (simp add: acquire_buffer_def Let_def)
  moreover have "acquire_wait_enter i (c_pool ?c1) = (Refused, p2)"
    using assms(3,5) acquire_no_lock_frame(2) [OF assms(4)] acquire_no_lock_frame(2) [OF assms(5)]
    by (simp add: acquire_wait_enter_def frame_simps)
  then have "env_wait env (w, ?c1) = (case Refused of Got b \<Rightarrow> Some b | _ \<Rightarrow> None, w, ?c1\<lparr>c_pool := p2\<rparr>)"
    using assms(1) unfolding stop_env_def by (elim conjE allE [of _ w] allE [of _ ?c1] allE [of _ Refused] allE [of _ p2]) simp
  ultimately show ?thesis using assms(1) by (simp add: acquire_unlocked_def stop_env_def)
qed

text \<open>
  C39: The three ways in which a call is refused before a record is begun. Below the threshold of its module (or
  the default one), or without a core, nothing happens at all. When the pool is stopping (the destructor of the
  core has called \<^verbatim>\<open>stop_waiters\<close>), a buffer is needed and the pool yields none at either of its two tries, the
  call does not park: the record is refused and counted as dropped, the worker is woken, and the buffers already
  filled stay with the writer in their order, the current one parked. When the call site is new and its
  descriptor cannot be allocated, the record is refused without being counted: the writer and the core stay as they
  were after the buffer had been obtained, but for the allocator.
\<close>

theorem log_send_refused:
  shows "(\<not> let_through lc ls wc \<longrightarrow> log_send hash env lc ls wc = Some (False, ls, wc)) \<and>
    (let_through lc ls wc \<and> needs_buffer wc \<and> stop_env i env \<and> c_initialized (snd wc) \<and> pl_stopping (c_pool (snd wc)) \<and>
       acquire_no_lock (c_pool (snd wc)) = (None, p1) \<and> acquire_no_lock p1 = (None, p2) \<longrightarrow>
     (\<exists>w'. log_send hash env lc ls wc = Some (False, ls, w', (notify_pressure ((snd wc)\<lparr>c_pool := p1\<rparr>))\<lparr>c_pool := p2\<rparr>) \<and>
        held_bufs w' = held_bufs (fst wc) \<and> w_buffer w' = None \<and> w_drop_logs w' = w_drop_logs (fst wc) + 1)) \<and>
    (let_through lc ls wc \<and> ensure_buffer P8_PACKET_LOGS env (park_below 72 wc) = (True, w1, c1) \<and>
       ls_descs ls (hash (lc_file lc) (lc_line lc)) = None \<and> c_log_descs c1 (hash (lc_file lc) (lc_line lc)) = None \<and>
       alloc c1 = (False, c2) \<longrightarrow>
     log_send hash env lc ls wc = Some (False, ls, w1, c2))"
proof (intro conjI impI)
  obtain least modid where g: "log_gate ls (lc_module lc) (snd wc) = (least, modid)" by (meson surj_pair)
  have open_gate: "\<not> lc_level lc < least \<and> ls_has_core ls \<longleftrightarrow> let_through lc ls wc" using g by (simp add: let_through_def not_less)
  show "log_send hash env lc ls wc = Some (False, ls, wc)" if "\<not> let_through lc ls wc"
    using that g open_gate by (cases "lc_level lc < least") (simp_all add: log_send_def)
  let ?p = "park_below 72 wc" and ?c = "(notify_pressure ((snd wc)\<lparr>c_pool := p1\<rparr>))\<lparr>c_pool := p2\<rparr>"
  show "\<exists>w'. log_send hash env lc ls wc = Some (False, ls, w', ?c) \<and> held_bufs w' = held_bufs (fst wc) \<and>
      w_buffer w' = None \<and> w_drop_logs w' = w_drop_logs (fst wc) + 1"
    if h: "let_through lc ls wc \<and> needs_buffer wc \<and> stop_env i env \<and> c_initialized (snd wc) \<and> pl_stopping (c_pool (snd wc)) \<and>
    acquire_no_lock (c_pool (snd wc)) = (None, p1) \<and> acquire_no_lock p1 = (None, p2)"
  proof -
    have p: "w_buffer (fst ?p) = None" "held_bufs (fst ?p) = held_bufs (fst wc)" "w_drop_logs (fst ?p) = w_drop_logs (fst wc)" "snd ?p = snd wc"
      using park_needs [of wc] h by simp_all
    have "acquire_unlocked env (fst ?p, snd wc) = (None, fst ?p, ?c)" using acquire_stopping [of i env "snd wc" p1 p2] h by simp
    then have "acquire_unlocked env ?p = (None, fst ?p, ?c)" using p(4) by (metis prod.collapse)
    then have e: "ensure_buffer P8_PACKET_LOGS env ?p = (False, fst ?p, ?c)" using p(1) by (simp add: ensure_buffer_def)
    have "\<not> lc_level lc < least" "ls_has_core ls" using open_gate h by simp_all
    then have "log_send hash env lc ls wc = Some (False, ls, add_drop_log (fst ?p, ?c))"
      using g e by (simp add: log_send_def P8_LOG_MIN_BUFFER_SPACE_def)
    then show ?thesis using p by (simp add: add_drop_log_def held_bufs_def)
  qed
  let ?h = "hash (lc_file lc) (lc_line lc)"
  show "log_send hash env lc ls wc = Some (False, ls, w1, c2)" if h: "let_through lc ls wc \<and> ensure_buffer P8_PACKET_LOGS env (park_below 72 wc) = (True, w1, c1) \<and>
    ls_descs ls ?h = None \<and> c_log_descs c1 ?h = None \<and> alloc c1 = (False, c2)"
  proof -
    have "log_lookup hash lc ls (w1, c1) = (None, ls, w1, c2)" using h by (simp add: log_lookup_def resolve_log_desc_def)
    moreover have "\<not> lc_level lc < least" "ls_has_core ls" using open_gate h by simp_all
    ultimately show ?thesis using g h by (simp add: log_send_def P8_LOG_MIN_BUFFER_SPACE_def)
  qed
qed

text \<open>A writer with a nearly full buffer, a pool that is stopping and cannot grow; and one whose allocator is exhausted.\<close>

definition down_pool :: pool where
  "down_pool = (c_pool (snd (demo_log 64)))\<lparr>pl_stopping := True, pl_free := [], pl_budget := None, pl_news := []\<rparr>"

definition down_log :: "unit reg_core_ext wc" where
  "down_log = (fst (demo_log 64), (snd (demo_log 64))\<lparr>c_pool := down_pool, c_allocs := []\<rparr>)"

definition down_env :: "'c call_env" where
  "down_env = demo_env\<lparr>env_wait := (\<lambda>(w, c). case acquire_wait_enter 0 (c_pool c) of (r, p) \<Rightarrow>
     (case r of Got b \<Rightarrow> Some b | _ \<Rightarrow> None, w, c\<lparr>c_pool := p\<rparr>))\<rparr>"

definition poor_log :: "unit reg_core_ext wc" where
  "poor_log = (fst (demo_log 24), (snd (demo_log 24))\<lparr>c_allocs := []\<rparr>)"

lemma log_send_refused_witness:
  "(\<exists>w'. log_send (\<lambda>f l. 9) down_env (demo_call 3) \<lparr>ls_has_core = True, ls_descs = (\<lambda>_. None), ls_cache = []\<rparr> down_log =
     Some (False, \<lparr>ls_has_core = True, ls_descs = (\<lambda>_. None), ls_cache = []\<rparr>, w', notify_pressure (snd down_log)) \<and>
     held_bufs w' = [1] \<and> w_drop_logs w' = 1) \<and>
   log_send (\<lambda>f l. 9) down_env (demo_call 3) \<lparr>ls_has_core = True, ls_descs = (\<lambda>_. None), ls_cache = []\<rparr> poor_log =
     Some (False, \<lparr>ls_has_core = True, ls_descs = (\<lambda>_. None), ls_cache = []\<rparr>, poor_log)"
proof -
  let ?ls = "\<lparr>ls_has_core = True, ls_descs = (\<lambda>_. None), ls_cache = []\<rparr>"
  have f: "let_through (demo_call 3) ?ls down_log" "needs_buffer down_log" "stop_env 0 (down_env :: (unit reg_core_ext) call_env)"
    "c_initialized (snd down_log)" "pl_stopping (c_pool (snd down_log))"
    "held_bufs (fst down_log) = [1]" "w_drop_logs (fst down_log) = 0" "c_pool (snd down_log) = down_pool"
    by (simp_all add: let_through_def needs_buffer_def log_gate_def demo_call_def down_log_def demo_log_def demo_reg_def get_verbosity_def
        writer_new_def held_bufs_def down_pool_def stop_env_def down_env_def demo_env_def)
  have dry: "acquire_no_lock (c_pool (snd down_log)) = (None, down_pool)" "acquire_no_lock down_pool = (None, down_pool)"
    unfolding f(8) by (simp_all add: down_pool_def acquire_no_lock_def pool_grow_def pool_alloc_def)
  have same: "(notify_pressure ((snd down_log)\<lparr>c_pool := down_pool\<rparr>))\<lparr>c_pool := down_pool\<rparr> = notify_pressure (snd down_log)"
    by (simp add: down_log_def notify_pressure_def notify_def)
  note r = log_send_refused [THEN conjunct2, THEN conjunct1, rule_format, of "demo_call 3" ?ls down_log 0 down_env down_pool down_pool "\<lambda>f l. 9"]
  have g: "let_through (demo_call 3) ?ls poor_log" "alloc (snd poor_log) = (False, snd poor_log)" "c_log_descs (snd poor_log) 9 = None"
    "ensure_buffer P8_PACKET_LOGS down_env (park_below 72 poor_log) = (True, fst poor_log, snd poor_log)"
    by (simp_all add: let_through_def log_gate_def demo_call_def poor_log_def demo_log_def demo_reg_def get_verbosity_def alloc_def
        writer_new_def park_below_def ensure_buffer_def size_sub_def)
  note q = log_send_refused [THEN conjunct2, THEN conjunct2, rule_format, of "demo_call 3" ?ls poor_log down_env "fst poor_log" "snd poor_log" "\<lambda>f l. 9" "snd poor_log"]
  show ?thesis using r q f dry same g by auto
qed

text \<open>
  What a call that is let through comes to: of all that was there before, a part has been taken by the worker
  meanwhile, and the writer holds the rest followed by the record.
\<close>

definition record_added :: "('a \<Rightarrow> byte list) \<Rightarrow> u64 \<Rightarrow> log_call \<Rightarrow> log_desc \<Rightarrow> u16 \<Rightarrow> ('a reg_core_ext) wc \<Rightarrow> ('a reg_core_ext) wc \<Rightarrow> bool" where
  "record_added hist ts lc d modid wc wc' \<longleftrightarrow>
     (let ab = args_bytes (ld_args d) (lc_args lc); tb = attrs_bytes (c_attrs (snd wc)) (lc_attrs lc);
          cnt = length (filter (attr_known (c_attrs (snd wc))) (lc_attrs lc))
      in \<exists>old p pad. length p = 2 \<and> length pad = log_pad (40 + length (ab @ tb)) \<and>
        full_stream hist wc = hist (ghost (snd wc')) @ old \<and>
        rec_stream wc' (w_used (fst wc')) = old @
          enc_log_item (log_header ts lc d modid (w_tid (fst wc)) (length ab) (length tb) cnt) @ p @ ab @ tb @ pad)"

lemma written_added:
  assumes "written wc2 item (ab @ tb) wc'" "full_stream hist wc2 = full_stream hist wc"
  shows "writer_ok wc' \<and> rests wc' \<and> (\<exists>old p pad. length p = 2 \<and> length pad = log_pad (40 + length (ab @ tb)) \<and>
    full_stream hist wc = hist (ghost (snd wc')) @ old \<and> rec_stream wc' (w_used (fst wc')) = old @ item @ p @ ab @ tb @ pad)"
proof -
  obtain p pad where w: "writer_ok wc'" "rests wc'" "ghost (snd wc') = ghost (snd wc2)" "length p = 2" "length pad = log_pad (40 + length (ab @ tb))"
    "rec_stream wc' (w_used (fst wc')) = rec_stream wc2 (w_used (fst wc2)) @ item @ p @ (ab @ tb) @ pad"
    using assms(1) unfolding written_def by blast
  have "full_stream hist wc = hist (ghost (snd wc')) @ rec_stream wc2 (w_used (fst wc2))" using w(3) assms(2) by (simp add: full_stream_def)
  then show ?thesis using w by (intro conjI exI [of _ "rec_stream wc2 (w_used (fst wc2))"] exI [of _ p] exI [of _ pad]) simp_all
qed

lemma log_send_outcome:
  assumes "log_gate ls (lc_module lc) (snd wc) = (least, modid)" and "least \<le> lc_level lc" and "ls_has_core ls"
    and "writer_ok wc" and "rests wc" and "svc_clear wc" and "env_ok hist env" and "96 \<le> w_max (fst wc)"
    and "typed_call hash lc ls (snd wc)" and "prefix (ls_cache ls) (c_attrs (snd wc))"
  shows "\<exists>ok ls' wc'. log_send hash env lc ls wc = Some (ok, ls', wc') \<and> c_ub (snd wc') = c_ub (snd wc) \<and>
    (if ok then overran wc wc' \<or> writer_ok wc' \<and> rests wc' \<and>
       (\<exists>d. ls_descs ls' (hash (lc_file lc) (lc_line lc)) = Some d \<and> record_added hist (env_now env) lc d modid wc wc')
     else writer_ok wc' \<and> rests wc' \<and> prefix (full_stream hist wc') (full_stream hist wc) \<and>
       (w_drop_logs (fst wc') = w_drop_logs (fst wc) + 1 \<or>
        w_drop_logs (fst wc') = w_drop_logs (fst wc) \<and> full_stream hist wc' = full_stream hist wc))"
proof -
  obtain g wc1 where e: "ensure_buffer P8_PACKET_LOGS env (park_below 72 wc) = (g, wc1)" by (meson surj_pair)
  have e': "ensure_buffer P8_PACKET_LOGS env (park_below (P8_LOG_MIN_BUFFER_SPACE + 40) wc) = (g, wc1)"
    using e by (simp add: P8_LOG_MIN_BUFFER_SPACE_def)
  note b = ensure_buffer_rests [OF assms(4,5,7) _ e] assms(6,8)
  show ?thesis
  proof (cases g)
    case False
    then have run: "log_send hash env lc ls wc = Some (False, ls, add_drop_log wc1)"
      using assms(1-3) e' by (simp add: log_send_def)
    have "writer_ok (add_drop_log wc1)" using b False unfolding writer_ok_def add_drop_log_def by (auto simp: held_bufs_def)
    moreover have "full_stream hist (add_drop_log wc1) = full_stream hist wc1"
      by (simp add: add_drop_log_def full_stream_def rec_stream_def split: option.split)
    ultimately show ?thesis using b False run
      by (intro exI [of _ False] exI [of _ ls] exI [of _ "add_drop_log wc1"]) (simp add: add_drop_log_def rests_def)
  next
    case g: True
    have ok1: "writer_ok wc1" "rests wc1" "svc_ok (snd wc1)" "set (held_bufs (fst wc1)) \<inter> set (map fst (c_svc (snd wc1))) = {}"
      "w_buffer (fst wc1) \<noteq> None" "w_used (fst wc1) + 72 \<le> w_max (fst wc1)"
      using b g by (simp_all add: svc_clear_def)
    have typed: "typed_call hash lc ls (snd wc1)" using assms(9) b by (simp add: typed_call_def)
    obtain r ls1 wc2 where l: "log_lookup hash lc ls wc1 = (r, ls1, wc2)" by (metis prod_cases3)
    note keep = log_lookup_keeps [OF ok1(1,3,4) l]
    have tot2: "full_stream hist wc2 = full_stream hist wc" using keep b by (simp add: full_stream_def)
    have hd2: "hdr (snd wc2) b' = hdr (snd wc1) b'" if "w_buffer (fst wc1) = Some b'" for b'
      using log_lookup_hdr [OF ok1(1,3,4) l that] .
    have rest2: "rests wc2" using ok1(2) keep hd2 by (auto simp: rests_def at_cursor_def)
    show ?thesis
    proof (cases r)
      case None
      then have "log_send hash env lc ls wc = Some (False, ls1, wc2)" using assms(1-3) e' g l by (simp add: log_send_def)
      then show ?thesis using keep rest2 tot2 b
        by (intro exI [of _ False] exI [of _ ls1] exI [of _ wc2]) simp
    next
      case (Some d)
      from log_lookup_typed [OF typed l [unfolded Some]] have d: "list_all2 arg_ok (ld_args d) (lc_args lc)"
        "ls_descs ls1 (hash (lc_file lc) (lc_line lc)) = Some d" by simp_all
      have st: "can_start wc2" using keep rest2 ok1(5,6) by (simp add: can_start_def rests_def)
      have pre: "prefix (ls_cache ls1) (c_attrs (snd wc2))" using keep assms(10) b by simp
      obtain ok cache' wc' where run: "log_record (env_now env) lc d modid (ls_cache ls1) wc2 = Some (ok, cache', wc')"
        and out: "c_ub (snd wc') = c_ub (snd wc2)"
          "if ok then
             written wc2 (enc_log_item (log_header (env_now env) lc d modid (w_tid (fst wc2)) (length (args_bytes (ld_args d) (lc_args lc)))
               (length (attrs_bytes (c_attrs (snd wc2)) (lc_attrs lc))) (length (filter (attr_known (c_attrs (snd wc2))) (lc_attrs lc)))))
             (args_bytes (ld_args d) (lc_args lc) @ attrs_bytes (c_attrs (snd wc2)) (lc_attrs lc)) wc' \<or> overran wc2 wc'
           else rolled_back wc2 wc'"
        using log_record_outcome [OF st d(1) pre, of "env_now env" modid] by blast
      have run2: "log_send hash env lc ls wc = Some (ok, ls1\<lparr>ls_cache := cache'\<rparr>, wc')"
        using assms(1-3) e' g l Some run by (simp add: log_send_def)
      have attrs: "c_attrs (snd wc2) = c_attrs (snd wc)" "w_tid (fst wc2) = w_tid (fst wc)" "w_max (fst wc2) = w_max (fst wc)"
        "w_drop_logs (fst wc2) = w_drop_logs (fst wc)" "c_ub (snd wc2) = c_ub (snd wc)" using keep b by simp_all
      show ?thesis
      proof (cases ok)
        case False
        then have rb: "rolled_back wc2 wc'" using out(2) by simp
        obtain bb where "w_buffer (fst wc2) = Some bb" using keep ok1(5) by auto
        moreover have "w_buffer (fst wc') = None" "rec_stream wc' 0 = payloads (snd wc2) (w_frags (fst wc2))"
          using rb by (simp_all add: rolled_back_def)
        ultimately have "prefix (rec_stream wc' k) (rec_stream wc2 k')" for k k' by (simp add: rec_stream_def)
        then have "prefix (full_stream hist wc') (full_stream hist wc2)"
          using rb by (simp add: rolled_back_def full_stream_def)
        then show ?thesis using False run2 rb out(1) attrs tot2
          by (intro exI [of _ ok] exI [of _ "ls1\<lparr>ls_cache := cache'\<rparr>"] exI [of _ wc']) (simp add: rolled_back_def rests_def)
      next
        case True
        have "overran wc2 wc' = overran wc wc'" by (simp add: overran_def attrs)
        then have "overran wc wc' \<or> writer_ok wc' \<and> rests wc' \<and> record_added hist (env_now env) lc d modid wc wc'"
          using out(2) [unfolded if_P [OF True]] written_added [OF _ tot2] unfolding attrs record_added_def Let_def by blast
        then show ?thesis using True run2 out(1) attrs d(2)
          by (intro exI [of _ ok] exI [of _ "ls1\<lparr>ls_cache := cache'\<rparr>"] exI [of _ wc']) auto
      qed
    qed
  qed
qed

text \<open>
  C4: A call that is let through, from any state between two calls: whatever the state of the
  pool and whatever full buffers the worker takes while the writer waits for a new one, it returns, no byte is
  written outside a buffer, and either what has been taken so far followed by the stream of the writer's buffers
  has grown by exactly the record of the call (header, arguments, the attributes the registry knows, padding), which
  is still with the writer, or the padding overran the buffer; a call that reports failure leaves a prefix of what was there, with the
  drop counted, or all of it. A new call site's descriptor does not disturb the writer's buffers.
\<close>

theorem log_send_wire:
  assumes "log_gate ls (lc_module lc) (snd wc) = (least, modid)" and "least \<le> lc_level lc" and "ls_has_core ls"
    and "writer_ok wc" and "rests wc" and "svc_clear wc" and "env_ok hist env" and "96 \<le> w_max (fst wc)"
    and "typed_call hash lc ls (snd wc)" and "prefix (ls_cache ls) (c_attrs (snd wc))"
  shows "\<exists>ok ls' wc'. log_send hash env lc ls wc = Some (ok, ls', wc') \<and> c_ub (snd wc') = c_ub (snd wc) \<and>
    (if ok then overran wc wc' \<or> writer_ok wc' \<and> rests wc' \<and>
       (\<exists>d. ls_descs ls' (hash (lc_file lc) (lc_line lc)) = Some d \<and> record_added hist (env_now env) lc d modid wc wc')
     else writer_ok wc' \<and> rests wc' \<and> prefix (full_stream hist wc') (full_stream hist wc) \<and>
       (w_drop_logs (fst wc') = w_drop_logs (fst wc) + 1 \<or>
        w_drop_logs (fst wc') = w_drop_logs (fst wc) \<and> full_stream hist wc' = full_stream hist wc))"
  by (rule log_send_outcome [OF assms])

text \<open>A new writer of the core's buffer size whose call site is already known; the allocator has one buffer.\<close>

definition demo_site :: log_state where
  "demo_site = \<lparr>ls_has_core = True, ls_descs = [9 \<mapsto> demo_desc], ls_cache = []\<rparr>"

definition demo_big :: "unit reg_core_ext wc" where
  "demo_big = (writer_new 8192 7, demo_reg\<lparr>c_pool := pool_new 8192 (Some \<lparr>bd_used = 0, bd_max = 8192\<rparr>) [Some 1]\<rparr>)"

lemma demo_big_ok: "writer_ok demo_big" "rests demo_big" "svc_clear demo_big"
  by (simp_all add: demo_big_def writer_ok_def core_ok_def core_owned_def demo_reg_def writer_new_def held_bufs_def svc_ok_def svc_clear_def
      rests_def pool_ok_def news_ok_def budget_exact_def budget_ok_def pool_new_def mz_data_buffer_size_def List.map_filter_simps)

lemma demo_format: "parse_format_string P8_LOG_MAX_ARGS (map_option to_string (lc_format (demo_call n))) = ld_args demo_desc"
proof -
  have "to_string [37, 115, 37, 100] = ''%s%d''" by code_simp
  then have "map_option to_string (lc_format (demo_call n)) = Some ''%s%d''" by (simp add: demo_call_def)
  moreover have "parse_format_string P8_LOG_MAX_ARGS (Some ''%s%d'') = ld_args demo_desc" by code_simp
  ultimately show ?thesis by (simp only:)
qed

lemma demo_typed: "n < 65536 \<Longrightarrow> typed_call (\<lambda>f l. 9) (demo_call n) demo_site (snd demo_big)"
  using demo_args(1) [of n] demo_format [of n]
  by (simp add: typed_call_def demo_site_def demo_big_def demo_reg_def)

lemma log_send_wire_witness:
  "\<exists>ok ls' wc'. log_send (\<lambda>f l. 9) demo_env (demo_call 3) demo_site demo_big = Some (ok, ls', wc') \<and> \<not> c_ub (snd wc') \<and>
     (\<not> ok \<longrightarrow> rec_stream wc' (w_used (fst wc')) = [])"
proof -
  have f: "log_gate demo_site (lc_module (demo_call 3)) (snd demo_big) = (0, 0xFFFF)" "96 \<le> w_max (fst demo_big)"
    "\<not> c_ub (snd demo_big)" "ls_cache demo_site = []" "ls_has_core demo_site" "rec_stream demo_big (w_used (fst demo_big)) = []"
    by (simp_all add: log_gate_def demo_site_def demo_call_def demo_big_def demo_reg_def get_verbosity_def writer_new_def rec_stream_def)
  have typed: "typed_call (\<lambda>f l. 9) (demo_call 3) demo_site (snd demo_big)" by (rule demo_typed) simp
  have env: "env_ok (\<lambda>_ :: unit. []) demo_env" by (rule demo_env_ok)
  from log_send_wire [OF f(1) _ f(5) demo_big_ok env f(2) typed] show ?thesis using f(3,4,6) by (auto simp: full_stream_def split: if_splits)
qed

end
