(* ===== verification/MtkWriter.thy ===== *)
theory MtkWriter
  imports LogCall
begin

text \<open>
  The metrics writer (\<^verbatim>\<open>engine/p8_mtk.cpp\<close>): creation through the core's registry and the emission of
  fixed-size samples. Query metrics and metric groups are stubs in the source. A sample is
  24 bytes like the buffer header, so the cursor never needs padding. The tracing interface
  (\<^verbatim>\<open>engine/p8_trc.cpp\<close>) is a stub as well.
\<close>

section \<open>Operations\<close>

definition mtk_create :: "bool \<Rightarrow> mtk_base option \<Rightarrow> 'a reg_core_scheme \<Rightarrow> int \<times> 'a reg_core_scheme" where
  "mtk_create has_core ip_base c = (if has_core then register_mtk ip_base c else (P8_MTK_ERROR_NOT_INITIALIZED, c))"

definition get_mtk_count :: "'a reg_core_scheme \<Rightarrow> nat" where
  "get_mtk_count c = unat (c_mtk_count c)"

definition mtk_sample :: "u64 \<Rightarrow> int \<Rightarrow> u64 \<Rightarrow> mtk_item" where
  "mtk_sample ts i v = \<lparr>mi_timestamp = ts, mi_value = v, mi_id = of_int i, mi_size = of_nat sz_mtk_item, mi_flags = 0, mi_attrs_count = 0\<rparr>"

definition add_drop_metric :: "'c wc \<Rightarrow> 'c wc" where
  "add_drop_metric wc = ((fst wc)\<lparr>w_drop_metrics := w_drop_metrics (fst wc) + 1\<rparr>, snd wc)"

text \<open>The sample, the buffer header and the parking of a full buffer.\<close>

definition mtk_put :: "u64 \<Rightarrow> mtk_item \<Rightarrow> 'c wc \<Rightarrow> 'c wc" where
  "mtk_put ts item wc =
     (case w_buffer (fst wc) of
        None \<Rightarrow> mark_ub wc
      | Some b \<Rightarrow>
          end_item sz_mtk_item ts (w_used (fst wc) + sz_mtk_item) b
            (fst wc, mem_write b (w_used (fst wc)) (enc_mtk_item item) (snd wc)))"

definition mtk_emit :: "('a reg_core_ext) call_env \<Rightarrow> bool \<Rightarrow> int \<Rightarrow> u64 \<Rightarrow> ('a reg_core_ext) wc \<Rightarrow> bool \<times> ('a reg_core_ext) wc" where
  "mtk_emit env has_core i v wc =
     (if \<not> has_core then (False, wc)
      else if i < 0 \<or> get_mtk_count (snd wc) \<le> nat i then (False, wc)
      else case ensure_buffer P8_PACKET_METRICS env (park_below sz_mtk_item wc) of
          (False, wc1) \<Rightarrow> (False, add_drop_metric wc1)
        | (True, wc1) \<Rightarrow> (True, mtk_put (env_now env) (mtk_sample (env_now env) i v) wc1))"

text \<open>The entry points without an implementation.\<close>

definition create_query :: "mtk_base option \<Rightarrow> int" where "create_query ip_base = -1"
definition create_group :: "mtk_base option \<Rightarrow> bool \<Rightarrow> int" where "create_group ip_base mt = -1"
definition create_group_query :: "mtk_base option \<Rightarrow> int" where "create_group_query ip_base = -1"
definition begin_group_emit :: "int \<Rightarrow> bool" where "begin_group_emit g = False"
definition emit_group :: "cstr \<Rightarrow> u64 \<Rightarrow> bool" where "emit_group name v = False"
definition end_group_emit :: "int \<Rightarrow> bool" where "end_group_emit g = False"
definition trc_begin :: "u64 \<Rightarrow> u64" where "trc_begin parent = 0"
definition trc_end :: "u64 \<Rightarrow> bool" where "trc_end tid = False"

section \<open>Emitting samples\<close>

lemma mtk_put_ok:
  assumes ok: "writer_ok wc" and rest: "rests wc" and cur: "w_buffer (fst wc) \<noteq> None" and fit: "w_used (fst wc) + 24 \<le> w_max (fst wc)"
  shows "writer_ok (mtk_put ts item wc) \<and> rests (mtk_put ts item wc) \<and> same_writer wc (mtk_put ts item wc) \<and>
    rec_stream (mtk_put ts item wc) (w_used (fst (mtk_put ts item wc))) = rec_stream wc (w_used (fst wc)) @ enc_mtk_item item"
proof -
  obtain w c where wc: "wc = (w, c)" by fastforce
  obtain b where b: "w_buffer w = Some b" using cur wc by auto
  have at: "at_cursor (w, c) (w_used w)" using rest b wc by (simp add: rests_def)
  let ?wc1 = "buf_write (w_used w) (enc_mtk_item item) (w, c)"
  have ext: "extends (w, c) (w_used w) ?wc1 (w_used w + 24) (enc_mtk_item item)"
    using buf_write_extends [of w c "w_used w" "enc_mtk_item item"] ok at fit wc by simp
  have wc1: "?wc1 = (w, mem_write b (w_used w) (enc_mtk_item item) c)" using b by (simp add: buf_write_def)
  have put: "mtk_put ts item (w, c) = end_item 24 ts (w_used w + 24) b ?wc1" using b wc1 by (simp add: mtk_put_def)
  have fb: "w_buffer (fst ?wc1) = Some b" "w_max (fst ?wc1) = w_max w" using b wc1 by simp_all
  note e = end_item_ok [OF extendsD(1,2) [OF ext] fb(1), of 24 ts]
  have "same_writer wc (mtk_put ts item wc)"
    using same_writer_trans [OF _ e(3)] ext unfolding wc put extends_def by blast
  then show ?thesis using e(1,2,5) ext unfolding wc put by (simp add: extends_def)
qed

text \<open>
  An emission: what the call meets (its clock among it), the metric and the value; and a run of emissions, with the
  answers.
\<close>

type_synonym 'a emission = "('a reg_core_ext) call_env \<times> int \<times> u64"

fun emit_samples :: "'a emission list \<Rightarrow> ('a reg_core_ext) wc \<Rightarrow> bool list \<times> ('a reg_core_ext) wc" where
  "emit_samples [] wc = ([], wc)"
| "emit_samples ((env, i, v) # ss) wc =
     (let (ok, wc1) = mtk_emit env True i v wc; (oks, wc2) = emit_samples ss wc1 in (ok # oks, wc2))"

definition sample_of :: "'a emission \<Rightarrow> mtk_item" where
  "sample_of s = (case s of (env, i, v) \<Rightarrow> mtk_sample (env_now env) i v)"

definition emission_id :: "'a emission \<Rightarrow> int" where
  "emission_id s = fst (snd s)"

definition valid_id :: "'a reg_core_scheme \<Rightarrow> int \<Rightarrow> bool" where
  "valid_id c i \<longleftrightarrow> 0 \<le> i \<and> nat i < get_mtk_count c"

definition sent :: "bool list \<Rightarrow> 'x list \<Rightarrow> 'x list" where
  "sent oks ss = map snd (filter fst (zip oks ss))"

lemma mtk_emit_step:
  assumes ok: "writer_ok wc" and rest: "rests wc" and env: "env_ok hist env" and mx: "48 \<le> w_max (fst wc)"
    and run: "mtk_emit env True i v wc = (g, wc')"
  shows "writer_ok wc' \<and> rests wc' \<and> c_ub (snd wc') = c_ub (snd wc) \<and> w_max (fst wc') = w_max (fst wc) \<and>
    c_mtk_count (snd wc') = c_mtk_count (snd wc) \<and> (g \<longrightarrow> valid_id (snd wc) i) \<and>
    w_drop_metrics (fst wc') = w_drop_metrics (fst wc) + (if valid_id (snd wc) i \<and> \<not> g then 1 else 0) \<and>
    full_stream hist wc' = full_stream hist wc @ (if g then enc_mtk_item (sample_of (env, i, v)) else [])"
proof (cases "valid_id (snd wc) i")
  case False
  then have "i < 0 \<or> get_mtk_count (snd wc) \<le> nat i" by (auto simp: valid_id_def)
  then have "g = False" "wc' = wc" using run by (auto simp: mtk_emit_def)
  then show ?thesis using ok rest False by simp
next
  case True
  obtain g1 wc1 where e: "ensure_buffer P8_PACKET_METRICS env (park_below 24 wc) = (g1, wc1)" by (meson surj_pair)
  note b = ensure_buffer_rests [OF ok rest env _ e] mx
  have valid: "\<not> (i < 0 \<or> get_mtk_count (snd wc) \<le> nat i)" using True by (auto simp: valid_id_def)
  show ?thesis
  proof (cases g1)
    case False
    then have r: "g = False" "wc' = add_drop_metric wc1" using run e valid by (simp_all add: mtk_emit_def)
    have "writer_ok wc'" using b False unfolding r writer_ok_def add_drop_metric_def by (auto simp: held_bufs_def)
    moreover have "full_stream hist (add_drop_metric wc1) = full_stream hist wc1"
      by (simp add: add_drop_metric_def full_stream_def rec_stream_def split: option.split)
    ultimately show ?thesis using b False True unfolding r by (simp add: add_drop_metric_def rests_def)
  next
    case g: True
    then have r: "g = True" "wc' = mtk_put (env_now env) (mtk_sample (env_now env) i v) wc1" using run e valid by (simp_all add: mtk_emit_def)
    have "w_buffer (fst wc1) \<noteq> None" "w_used (fst wc1) + 24 \<le> w_max (fst wc1)" "writer_ok wc1" "rests wc1" using b g by simp_all
    note p = mtk_put_ok [OF this(3,4,1,2), of "env_now env" "mtk_sample (env_now env) i v"]
    have "c_mtk_count (snd wc') = c_mtk_count (snd wc1)"
      unfolding r by (simp add: mtk_put_def end_item_def mem_write_def mark_ub_def Let_def split: option.splits)
    moreover have "ghost (snd wc') = ghost (snd wc1)" using p more_ghost unfolding r same_writer_def by blast
    ultimately show ?thesis using p b g True unfolding r by (simp add: same_writer_def sample_of_def full_stream_def)
  qed
qed

lemma emit_samples_stream:
  assumes "writer_ok wc" and "rests wc" and "\<forall>s\<in>set ss. env_ok hist (fst s)" and "48 \<le> w_max (fst wc)"
    and "emit_samples ss wc = (oks, wc')"
  shows "full_stream hist wc' = full_stream hist wc @ concat (map enc_mtk_item (map sample_of (sent oks ss))) \<and>
    c_ub (snd wc') = c_ub (snd wc) \<and> (\<forall>s\<in>set (sent oks ss). valid_id (snd wc) (emission_id s)) \<and>
    writer_ok wc' \<and> rests wc' \<and> w_drop_metrics (fst wc') + of_nat (length (sent oks ss)) =
      w_drop_metrics (fst wc) + of_nat (length (filter (\<lambda>s. valid_id (snd wc) (emission_id s)) ss))"
  using assms
proof (induction ss arbitrary: wc oks)
  case Nil
  then show ?case by (simp add: sent_def)
next
  case (Cons s ss)
  obtain env i v where s: "s = (env, i, v)" by (cases s)
  obtain g wc1 where g: "mtk_emit env True i v wc = (g, wc1)" by (meson surj_pair)
  obtain oks1 where m: "emit_samples ss wc1 = (oks1, wc')" "oks = g # oks1"
    using Cons.prems(5) g s by (auto split: prod.splits)
  have env: "env_ok hist env" "\<forall>s\<in>set ss. env_ok hist (fst s)" using Cons.prems(3) s by simp_all
  note st = mtk_emit_step [OF Cons.prems(1,2) env(1) Cons.prems(4) g]
  have v: "valid_id (snd wc1) = valid_id (snd wc)" using st by (simp add: valid_id_def get_mtk_count_def fun_eq_iff)
  have "writer_ok wc1" "rests wc1" "48 \<le> w_max (fst wc1)" using st Cons.prems(4) by simp_all
  note IH = Cons.IH [OF this(1,2) env(2) this(3) m(1), unfolded v]
  have "sent oks (s # ss) = (if g then [s] else []) @ sent oks1 ss" using m(2) by (simp add: sent_def)
  moreover have "emission_id s = i" by (simp add: emission_id_def s)
  ultimately show ?case using st IH s by (cases g) (auto simp: algebra_simps)
qed

text \<open>
  C5: Metric samples: whatever the pool answers at each call, and whatever full buffers the worker takes away while the
  writer waits for a new one, what has been taken so far followed by the stream of the writer's buffers grows by
  exactly the samples reported as emitted, each with the time of its call, 24 bytes each, in order and never split; a sample is refused
  without a trace when its id is not registered and counted as dropped when no buffer is to be
  had; no byte is written outside a buffer.
\<close>

theorem emit_samples_wire:
  assumes "writer_ok wc" and "rests wc" and "\<forall>s\<in>set ss. env_ok hist (fst s)" and "48 \<le> w_max (fst wc)"
    and "emit_samples ss wc = (oks, wc')"
  shows "full_stream hist wc' = full_stream hist wc @ concat (map enc_mtk_item (map sample_of (sent oks ss))) \<and>
    c_ub (snd wc') = c_ub (snd wc) \<and> (\<forall>s\<in>set (sent oks ss). valid_id (snd wc) (emission_id s)) \<and>
    w_drop_metrics (fst wc') + of_nat (length (sent oks ss)) =
      w_drop_metrics (fst wc) + of_nat (length (filter (\<lambda>s. valid_id (snd wc) (emission_id s)) ss))"
  using emit_samples_stream [OF assms] by blast

definition demo_mtk :: "unit reg_core_ext wc" where
  "demo_mtk = ((writer_new 128 7), (snd (demo_log 24))\<lparr>c_mtk_count := 2,
     c_pool := (pool_new 128 (Some \<lparr>bd_used = 128, bd_max = 256\<rparr>) [Some 2])\<lparr>pl_all := [1]\<rparr>\<rparr>)"

lemma demo_mtk_ok: "writer_ok demo_mtk" "rests demo_mtk"
  by (simp_all add: demo_mtk_def demo_log_def writer_ok_def core_ok_def core_owned_def demo_reg_def writer_new_def held_bufs_def
      pool_ok_def news_ok_def budget_exact_def budget_ok_def rests_def pool_new_def List.map_filter_simps)

text \<open>Three samples, each at its own time; the last one of an unknown metric.\<close>

definition env_at :: "u64 \<Rightarrow> 'c call_env" where
  "env_at t = demo_env\<lparr>env_now := t\<rparr>"

lemma env_at_fields [simp]:
  "env_before (env_at t) = env_before demo_env" "env_wait (env_at t) = env_wait demo_env" "env_after (env_at t) = env_after demo_env"
  "env_now_buf (env_at t :: 'c call_env) = env_now_buf (demo_env :: 'c call_env)" "env_now (env_at t) = t"
  by (simp_all add: env_at_def)

lemma acquire_env_at: "acquire_unlocked (env_at t) wc = acquire_unlocked demo_env wc"
  unfolding acquire_unlocked_def env_at_fields by (rule refl)

lemma env_at_ok: "env_ok hist (env_at t)"
  using demo_env_ok [of hist] by (simp add: env_ok_def acquire_env_at)

definition demo_samples :: "unit emission list" where
  "demo_samples = [(env_at 5, 0, 5), (env_at 9, 1, 6), (env_at 11, 7, 1)]"

lemma demo_samples_env: "\<forall>s\<in>set demo_samples. env_ok hist (fst s)"
  by (simp add: demo_samples_def env_at_ok)

lemma emit_samples_wire_witness:
  "\<exists>oks wc'. emit_samples demo_samples demo_mtk = (oks, wc') \<and>
     rec_stream wc' (w_used (fst wc')) = concat (map enc_mtk_item (map sample_of (sent oks demo_samples))) \<and>
     7 \<notin> emission_id ` set (sent oks demo_samples)"
proof -
  obtain oks wc' where run: "emit_samples demo_samples demo_mtk = (oks, wc')" by (meson surj_pair)
  have f: "48 \<le> w_max (fst demo_mtk)" "rec_stream demo_mtk (w_used (fst demo_mtk)) = []" "c_mtk_count (snd demo_mtk) = 2"
    by (simp_all add: demo_mtk_def writer_new_def rec_stream_def)
  note w = emit_samples_wire [OF demo_mtk_ok demo_samples_env f(1) run, of "\<lambda>_. []"]
  then have "rec_stream wc' (w_used (fst wc')) = concat (map enc_mtk_item (map sample_of (sent oks demo_samples)))"
    using f(2) by (simp add: full_stream_def)
  moreover have "\<not> valid_id (snd demo_mtk) 7" using f(3) by (simp add: valid_id_def get_mtk_count_def)
  then have "7 \<notin> emission_id ` set (sent oks demo_samples)" using w by auto
  ultimately show ?thesis using run by blast
qed

end
