(* ===== verification/Delivery.thy ===== *)
theory Delivery
  imports Globals MtkWriter
begin

text \<open>
  From a producer to a reader of the files: what the writers of all threads hold, the worker's pass and the
  file sink composed. A reader splits the data file by the sizes in the buffer headers, drops the
  headers and is left with the streams the writers serialised.
\<close>

section \<open>The reader\<close>

definition recovered :: "byte list \<Rightarrow> byte list option" where
  "recovered bs = map_option (\<lambda>bufs. concat (map (drop sz_buf_hdr) bufs)) (split_bufs bs)"

function read_samples :: "byte list \<Rightarrow> mtk_item list" where
  "read_samples bs = (if length bs < sz_mtk_item then [] else dec_mtk_item bs # read_samples (drop sz_mtk_item bs))"
  by pat_completeness auto
termination by (relation "measure length") auto

declare read_samples.simps [simp del]

text \<open>What the writers in \<open>xs\<close> hold between two calls, in registry order.\<close>

definition writer_stream :: "('a, 's) sys \<Rightarrow> nat \<Rightarrow> byte list" where
  "writer_stream sy i = rec_stream (ws_obj (sy_writers sy) i, sy_core sy) (w_used (ws_obj (sy_writers sy) i))"

definition at_rest :: "('a, 's) sys \<Rightarrow> nat \<Rightarrow> bool" where
  "at_rest sy i \<longleftrightarrow> writer_ok (ws_obj (sy_writers sy) i, sy_core sy) \<and> rests (ws_obj (sy_writers sy) i, sy_core sy)"

text \<open>A finished buffer: its size covers the header and stays inside.\<close>

definition complete :: "'a core_scheme \<Rightarrow> addr \<Rightarrow> bool" where
  "complete c b \<longleftrightarrow> 24 \<le> buf_size (c_mem c b) \<and> buf_size (c_mem c b) \<le> length (c_mem c b)"

definition used_bytes :: "byte list \<Rightarrow> byte list" where
  "used_bytes b = take (buf_size b) b"

lemma payload_used: "payload c b = drop 24 (used_bytes (c_mem c b))"
  by (simp add: payload_def hdr_def used_bytes_def buf_size_def sub_bytes_def drop_take)

lemma complete_held:
  assumes "writer_ok (w, c)" "rests (w, c)" "b \<in> set (held_bufs w)"
  shows "complete c b"
proof -
  have len: "length (c_mem c b) = w_max w" using assms(1) by (simp add: writer_ok_def core_ok_def)
  consider "b \<in> set (w_frags w)" | "w_buffer w = Some b" using assms(3) by (auto simp: held_bufs_def split: option.splits)
  then show ?thesis
  proof cases
    case 1
    then have "frag_ok (w_max w) (hdr c b)" using assms(1) unfolding writer_ok_def by auto
    then show ?thesis unfolding complete_def len by (simp add: frag_ok_def buf_size_def hdr_def)
  next
    case 2
    then show ?thesis using assms(2) len by (auto simp: rests_def at_cursor_def complete_def buf_size_def hdr_def)
  qed
qed

lemma held_stream:
  assumes "rests (w, c)"
  shows "concat (map (payload c) (held_bufs w)) = rec_stream (w, c) (w_used w)"
  using assms by (auto simp: held_bufs_def rec_stream_def payloads_def rests_def payload_def split: option.splits)

lemma held_all_streams:
  assumes "\<forall>i\<in>set xs. at_rest sy i"
  shows "concat (map (payload (sy_core sy)) (held_all (sy_writers sy) xs)) = concat (map (writer_stream sy) xs)"
    and "\<forall>b\<in>set (held_all (sy_writers sy) xs). complete (sy_core sy) b"
  using assms
  by (induction xs) (auto simp: held_all_def at_rest_def writer_stream_def held_stream dest: complete_held)

lemma recovered_used:
  assumes "\<forall>b\<in>set bs. complete c b"
  shows "recovered (concat (map (\<lambda>b. used_bytes (c_mem c b)) bs)) = Some (concat (map (payload c) bs))"
proof -
  have "\<forall>m\<in>set (map (c_mem c) bs). 24 \<le> buf_size m \<and> buf_size m \<le> length m" using assms by (simp add: complete_def)
  from split_bufs_concat [OF this] show ?thesis
    unfolding recovered_def used_bytes_def [symmetric] payload_used map_map comp_def by (simp add: comp_def)
qed
section \<open>From the writers to the file\<close>

lemma streams_to_disk:
  fixes sy :: "('a, 'f file_sink) sys"
  assumes "file_law fo" and "ws_abs (sy_writers sy) xs" and "c_initialized (sy_core sy)" and "wq_abs (pl_waitq (c_pool (sy_core sy))) ts"
    and "\<forall>i\<in>set xs. at_rest sy i" and "\<forall>b\<in>set (c_ready (sy_core sy)). complete (sy_core sy) b"
    and "data = map (c_mem (sy_core sy)) (c_ready (sy_core sy) @ held_all (sy_writers sy) xs)"
    and "svc = svc_view (sy_core sy) (c_svc (sy_core sy))" and "\<forall>x\<in>set svc. snd x \<le> length (fst x)"
    and "\<forall>b\<in>set (fst (sink_run (file_sink_ops fo e) (pass_calls svc data) (sy_sink sy))). b"
  shows "\<exists>sy' k. worker_pass (file_sink_ops fo e) interval now quiet sy = Some sy' \<and>
    fo_bytes fo (fs_data (sy_sink sy')) = fo_bytes fo (fs_data (sy_sink sy)) @ k \<and>
    recovered k = Some (payloads (sy_core sy) (c_ready (sy_core sy)) @ concat (map (writer_stream sy) xs)) \<and>
    fo_bytes fo (fs_svc (sy_sink sy')) = fo_bytes fo (fs_svc (sy_sink sy)) @ concat (map (\<lambda>x. take (snd x) (fst x)) svc)"
proof -
  let ?bs = "c_ready (sy_core sy) @ held_all (sy_writers sy) xs"
  have all: "\<forall>b\<in>set ?bs. complete (sy_core sy) b" using assms(6) held_all_streams(2) [OF assms(5)] by auto
  then have sizes: "\<forall>b\<in>set data. buf_size b \<le> length b" unfolding assms(7) by (auto simp: complete_def)
  from worker_pass_file [OF assms(1-4,7,8) sizes assms(9), of e interval now] assms(10) obtain sy' where
    "worker_pass (file_sink_ops fo e) interval now quiet sy = Some sy'"
    "fo_bytes fo (fs_data (sy_sink sy')) = fo_bytes fo (fs_data (sy_sink sy)) @ concat (map (\<lambda>b. take (buf_size b) b) data)"
    "fo_bytes fo (fs_svc (sy_sink sy')) = fo_bytes fo (fs_svc (sy_sink sy)) @ concat (map (\<lambda>x. take (snd x) (fst x)) svc)"
    by auto
  moreover have "recovered (concat (map (\<lambda>b. take (buf_size b) b) data)) = Some (concat (map (payload (sy_core sy)) ?bs))"
    using recovered_used [OF all] by (simp add: assms(7) used_bytes_def comp_def)
  moreover have "concat (map (payload (sy_core sy)) ?bs) = payloads (sy_core sy) (c_ready (sy_core sy)) @ concat (map (writer_stream sy) xs)"
    using held_all_streams(1) [OF assms(5)] by (simp add: payloads_def)
  ultimately show ?thesis by auto
qed

text \<open>
  C8: End to end: when every writer is between two calls and everything queued is complete, one pass of
  the worker in front of an open file, if its writes succeed, appends bytes to the data file from
  which a reader recovers first the queued streams and then the stream of every writer, in order,
  nothing missing and nothing added; and the service file grows by exactly the pending descriptors.
\<close>

theorem streams_reach_disk:
  fixes sy :: "('a, 'f file_sink) sys"
  assumes "file_law fo" and "ws_abs (sy_writers sy) xs" and "c_initialized (sy_core sy)" and "wq_abs (pl_waitq (c_pool (sy_core sy))) ts"
    and "\<forall>i\<in>set xs. at_rest sy i" and "\<forall>b\<in>set (c_ready (sy_core sy)). complete (sy_core sy) b"
    and "data = map (c_mem (sy_core sy)) (c_ready (sy_core sy) @ held_all (sy_writers sy) xs)"
    and "svc = svc_view (sy_core sy) (c_svc (sy_core sy))" and "\<forall>x\<in>set svc. snd x \<le> length (fst x)"
    and "\<forall>b\<in>set (fst (sink_run (file_sink_ops fo e) (pass_calls svc data) (sy_sink sy))). b"
  shows "\<exists>sy' k. worker_pass (file_sink_ops fo e) interval now quiet sy = Some sy' \<and>
    fo_bytes fo (fs_data (sy_sink sy')) = fo_bytes fo (fs_data (sy_sink sy)) @ k \<and>
    recovered k = Some (payloads (sy_core sy) (c_ready (sy_core sy)) @ concat (map (writer_stream sy) xs)) \<and>
    fo_bytes fo (fs_svc (sy_sink sy')) = fo_bytes fo (fs_svc (sy_sink sy)) @ concat (map (\<lambda>x. take (snd x) (fst x)) svc)"
  by (rule streams_to_disk [OF assms])

section \<open>Metric samples\<close>

lemma read_samples_all: "read_samples (concat (map enc_mtk_item items)) = items"
proof (induction items)
  case Nil
  show ?case by (simp add: read_samples.simps)
next
  case (Cons it items)
  have "read_samples (enc_mtk_item it @ r) = it # read_samples r" for r by (subst read_samples.simps) simp
  then show ?case using Cons by simp
qed

text \<open>
  C10: A metric sample that \<^verbatim>\<open>p8_mtk_emit\<close> accepted is in the file: a thread whose writer so far holds (or had taken
  from it) the samples \<open>olds\<close> emits more, the other threads are between calls, and the worker makes a pass all of
  whose sink calls report success. A reader of the appended bytes finds, between the queued streams with those of the
  writers before it and the streams of the writers behind it, a piece which together with what the worker
  had taken from the writer during its waits consists of exactly the earlier samples and the accepted ones, with
  their id, value and time, in the order they were emitted.
\<close>

theorem samples_reach_disk:
  fixes sy :: "('a, 'f file_sink) sys"
  assumes "writer_ok wc" and "rests wc" and "\<forall>s\<in>set ss. env_ok hist (fst s)" and "48 \<le> w_max (fst wc)"
    and "full_stream hist wc = concat (map enc_mtk_item olds)"
    and "emit_samples ss wc = (oks, (ws_obj (sy_writers sy) i, sy_core sy))"
    and "file_law fo" and "ws_abs (sy_writers sy) (us @ i # vs)" and "c_initialized (sy_core sy)"
    and "wq_abs (pl_waitq (c_pool (sy_core sy))) ts"
    and "\<forall>j\<in>set us \<union> set vs. at_rest sy j" and "\<forall>b\<in>set (c_ready (sy_core sy)). complete (sy_core sy) b"
    and "data = map (c_mem (sy_core sy)) (c_ready (sy_core sy) @ held_all (sy_writers sy) (us @ i # vs))"
    and "svc = svc_view (sy_core sy) (c_svc (sy_core sy))" and "\<forall>x\<in>set svc. snd x \<le> length (fst x)"
    and "\<forall>b\<in>set (fst (sink_run (file_sink_ops fo e) (pass_calls svc data) (sy_sink sy))). b"
  shows "\<exists>sy' k mine. worker_pass (file_sink_ops fo e) interval now quiet sy = Some sy' \<and>
    fo_bytes fo (fs_data (sy_sink sy')) = fo_bytes fo (fs_data (sy_sink sy)) @ k \<and>
    recovered k = Some (payloads (sy_core sy) (c_ready (sy_core sy)) @ concat (map (writer_stream sy) us) @ mine @
      concat (map (writer_stream sy) vs)) \<and>
    read_samples (hist (ghost (sy_core sy)) @ mine) = olds @ map sample_of (sent oks ss)"
proof -
  note st = emit_samples_stream [OF assms(1-4,6)]
  have rest: "\<forall>j\<in>set (us @ i # vs). at_rest sy j" using st assms(11) by (auto simp: at_rest_def)
  have "hist (ghost (sy_core sy)) @ writer_stream sy i = concat (map enc_mtk_item (olds @ map sample_of (sent oks ss)))"
    using st assms(5) by (simp add: full_stream_def writer_stream_def)
  then have stream: "read_samples (hist (ghost (sy_core sy)) @ writer_stream sy i) = olds @ map sample_of (sent oks ss)"
    by (simp only: read_samples_all)
  from streams_to_disk [OF assms(7-10) rest assms(12-16), of interval now] show ?thesis using stream by auto
qed

section \<open>Log records\<close>

text \<open>
  C9: A log record that \<^verbatim>\<open>p8_log_sent\<close> reported as sent is in the file, unless its padding overran the buffer: a
  thread makes a call, other threads are between calls, the worker makes an undisturbed pass all of whose sink calls
  report success (the file may take less than it was given, even when it is open, and then this fails), and a reader
  of the bytes it appends finds, after the queued streams, those of the writers before it and what is left of the thread's
  earlier records, the header of the record, its arguments, the attributes and the padding.
\<close>

theorem record_reaches_disk:
  fixes sy :: "('a, 'f file_sink) sys"
  assumes "log_gate ls (lc_module lc) (snd wc) = (least, modid)" and "least \<le> lc_level lc" and "ls_has_core ls"
    and "writer_ok wc" and "rests wc" and "svc_clear wc" and "env_ok hist env" and "96 \<le> w_max (fst wc)"
    and "typed_call hash lc ls (snd wc)" and "prefix (ls_cache ls) (c_attrs (snd wc))"
    and "log_send hash env lc ls wc = Some (True, ls', (ws_obj (sy_writers sy) i, sy_core sy))"
    and "w_used (ws_obj (sy_writers sy) i) \<le> w_max (fst wc)"
    and "file_law fo" and "ws_abs (sy_writers sy) (us @ i # vs)" and "c_initialized (sy_core sy)"
    and "wq_abs (pl_waitq (c_pool (sy_core sy))) ts"
    and "\<forall>j\<in>set us \<union> set vs. at_rest sy j" and "\<forall>b\<in>set (c_ready (sy_core sy)). complete (sy_core sy) b"
    and "data = map (c_mem (sy_core sy)) (c_ready (sy_core sy) @ held_all (sy_writers sy) (us @ i # vs))"
    and "svc = svc_view (sy_core sy) (c_svc (sy_core sy))" and "\<forall>x\<in>set svc. snd x \<le> length (fst x)"
    and "\<forall>b\<in>set (fst (sink_run (file_sink_ops fo e) (pass_calls svc data) (sy_sink sy))). b"
    and "ab = (\<lambda>d. args_bytes (ld_args d) (lc_args lc))" and "tb = attrs_bytes (c_attrs (snd wc)) (lc_attrs lc)"
    and "cnt = length (filter (attr_known (c_attrs (snd wc))) (lc_attrs lc))"
  shows "\<exists>sy' k d old p pad. worker_pass (file_sink_ops fo e) interval now quiet sy = Some sy' \<and>
    fo_bytes fo (fs_data (sy_sink sy')) = fo_bytes fo (fs_data (sy_sink sy)) @ k \<and>
    ls_descs ls' (hash (lc_file lc) (lc_line lc)) = Some d \<and> length p = 2 \<and> length pad = log_pad (40 + length (ab d @ tb)) \<and>
    full_stream hist wc = hist (ghost (sy_core sy)) @ old \<and>
    recovered k = Some (payloads (sy_core sy) (c_ready (sy_core sy)) @ concat (map (writer_stream sy) us) @ old @
      enc_log_item (log_header (env_now env) lc d modid (w_tid (fst wc)) (length (ab d)) (length tb) cnt) @ p @ ab d @ tb @ pad @
      concat (map (writer_stream sy) vs))"
proof -
  let ?wc' = "(ws_obj (sy_writers sy) i, sy_core sy)"
  have "\<not> overran wc ?wc'" using assms(12) by (simp add: overran_def)
  with log_send_outcome [OF assms(1-10)] assms(11) obtain d where out: "writer_ok ?wc'" "rests ?wc'"
    "ls_descs ls' (hash (lc_file lc) (lc_line lc)) = Some d" "record_added hist (env_now env) lc d modid wc ?wc'"
    by auto
  then obtain old p pad where rec: "length p = 2" "length pad = log_pad (40 + length (ab d @ tb))"
    "full_stream hist wc = hist (ghost (sy_core sy)) @ old"
    "writer_stream sy i = old @ enc_log_item (log_header (env_now env) lc d modid (w_tid (fst wc)) (length (ab d)) (length tb) cnt) @ p @ ab d @ tb @ pad"
    unfolding record_added_def Let_def assms(23-25) writer_stream_def fst_conv snd_conv by blast
  have "\<forall>j\<in>set (us @ i # vs). at_rest sy j" using assms(17) out(1,2) by (auto simp: at_rest_def)
  from streams_to_disk [OF assms(13-16) this assms(18-22), of interval now] obtain sy' k where
    "worker_pass (file_sink_ops fo e) interval now quiet sy = Some sy'"
    "fo_bytes fo (fs_data (sy_sink sy')) = fo_bytes fo (fs_data (sy_sink sy)) @ k"
    "recovered k = Some (payloads (sy_core sy) (c_ready (sy_core sy)) @ concat (map (writer_stream sy) (us @ i # vs)))"
    by blast
  moreover from this(3) have "recovered k = Some (payloads (sy_core sy) (c_ready (sy_core sy)) @ concat (map (writer_stream sy) us) @ old @
      enc_log_item (log_header (env_now env) lc d modid (w_tid (fst wc)) (length (ab d)) (length tb) cnt) @ p @ ab d @ tb @ pad @
      concat (map (writer_stream sy) vs))" using rec(4) by simp
  ultimately show ?thesis using out(3) rec(1-3) by blast
qed

section \<open>A concrete run\<close>

text \<open>With nobody interfering, a sample leaves the queues of the core alone.\<close>

definition same_queues :: "'a core_scheme \<Rightarrow> 'a core_scheme \<Rightarrow> bool" where
  "same_queues c c' \<longleftrightarrow> c_ready c' = c_ready c \<and> c_initialized c' = c_initialized c \<and> core.more c' = core.more c \<and>
     pl_waitq (c_pool c') = pl_waitq (c_pool c)"

lemma same_queues_trans: "same_queues c c' \<Longrightarrow> same_queues c' c'' \<Longrightarrow> same_queues c c''"
  by (simp add: same_queues_def)

lemma acquire_same_queues: "acquire_buffer w c = (r, c') \<Longrightarrow> same_queues c c'"
proof -
  assume acq: "acquire_buffer w c = (r, c')"
  have "pl_waitq (c_pool c') = pl_waitq (c_pool c)"
  proof (cases "\<exists>b. r = Acquired b")
    case True
    then show ?thesis using acquire_buffer_pool(5) [OF acq] acquire_no_lock_frame by blast
  next
    case False
    then show ?thesis using acquire_buffer_pool(6) [OF acq] acquire_no_lock_frame by fastforce
  qed
  then show ?thesis using acquire_buffer_pool(3,4) [OF acq] acquire_buffer_more [OF acq] by (simp add: same_queues_def)
qed

lemma mem_write_same_queues: "same_queues c (mem_write a off bs c)"
  by (simp add: same_queues_def mem_write_def)

lemma mtk_put_same_queues: "same_queues (snd wc) (snd (mtk_put ts item wc))"
  using mem_write_same_queues [of "snd wc"]
  by (auto simp: mtk_put_def mark_ub_def end_item_def Let_def same_queues_def split: option.split)

lemma unlocked_same_queues:
  assumes "acquire_unlocked demo_env wc = (r, wc1)"
  shows "same_queues (snd wc) (snd wc1)"
proof -
  obtain q c1 where a: "acquire_buffer True (snd wc) = (q, c1)" by (meson surj_pair)
  have "snd wc1 = c1" using assms a by (cases q) (auto simp: acquire_unlocked_def demo_env_def)
  then show ?thesis using acquire_same_queues [OF a] by simp
qed

lemma ensure_same_queues:
  assumes "ensure_buffer ty demo_env wc = (r, wc1)"
  shows "same_queues (snd wc) (snd wc1)"
proof (cases "w_buffer (fst wc)")
  case None
  obtain q wc2 where u: "acquire_unlocked demo_env wc = (q, wc2)" by (meson surj_pair)
  have "same_queues (snd wc2) (snd wc1)"
    using assms None u mem_write_same_queues [of "snd wc2"]
    by (cases q) (auto simp: ensure_buffer_def install_buffer_def same_queues_def)
  then show ?thesis using same_queues_trans unlocked_same_queues [OF u] by blast
qed (use assms in \<open>auto simp: ensure_buffer_def same_queues_def\<close>)

lemma ensure_env_at: "ensure_buffer ty (env_at t) wc = ensure_buffer ty demo_env wc"
  unfolding ensure_buffer_def acquire_env_at env_at_fields by (rule refl)

lemma mtk_emit_same_queues:
  assumes "mtk_emit (env_at t) h i v wc = (g, wc')"
  shows "same_queues (snd wc) (snd wc')"
proof -
  have park: "snd (park_below n wc) = snd wc" for n by (simp add: park_below_def split: option.split)
  obtain r wc1 where e: "ensure_buffer P8_PACKET_METRICS demo_env (park_below sz_mtk_item wc) = (r, wc1)" by (meson surj_pair)
  have s1: "same_queues (snd wc) (snd wc1)" using ensure_same_queues [OF e] park by simp
  have "wc' = wc \<or> snd wc' = snd wc1 \<or> (\<exists>t it. wc' = mtk_put t it wc1)"
    using assms e by (auto simp: mtk_emit_def ensure_env_at add_drop_metric_def split: if_splits bool.splits)
  then show ?thesis
    using s1 same_queues_trans [OF s1 mtk_put_same_queues] by (auto simp: same_queues_def)
qed

lemma emit_samples_same_queues:
  "emit_samples ss wc = (oks, wc') \<Longrightarrow> fst ` set ss \<subseteq> range env_at \<Longrightarrow> same_queues (snd wc) (snd wc')"
proof (induction ss arbitrary: wc oks)
  case (Cons s ss)
  obtain t i v where s: "s = (env_at t, i, v)" using Cons.prems(2) by (cases s) auto
  obtain g wc1 where g: "mtk_emit (env_at t) True i v wc = (g, wc1)" by (meson surj_pair)
  obtain oks1 where "emit_samples ss wc1 = (oks1, wc')" using Cons.prems(1) g s by (auto split: prod.splits)
  from same_queues_trans [OF mtk_emit_same_queues [OF g] Cons.IH [OF this]] Cons.prems(2) show ?case by simp
qed (simp add: same_queues_def)

text \<open>A file without limits takes every batch.\<close>

lemma demo_chunks_full: "list_all iov_ok iovs \<Longrightarrow> fst (write_chunks demo_fo iovs ok (True, bs, []) s) = ok"
proof (induction "length iovs" arbitrary: iovs bs s rule: less_induct)
  case less
  show ?case
  proof (cases "iovs = []")
    case True
    then show ?thesis by (simp add: write_chunks.simps [of _ "[]"])
  next
    case False
    let ?xs = "take mz_max_iov iovs" and ?ys = "drop mz_max_iov iovs"
    have iok: "list_all iov_ok ?xs" "list_all iov_ok ?ys" using less.prems by (auto simp: list_all_iff dest: in_set_takeD in_set_dropD)
    have "write_chunk demo_fo ?xs (True, bs, []) s =
        (True, (True, bs @ concat (map iov_bytes ?xs), []), s\<lparr>fs_written := fs_written s + of_nat (length (concat (map iov_bytes ?xs)))\<rparr>)"
      using length_iov_bytes [OF iok(1)] by (simp add: write_chunk_def demo_fo_def Let_def)
    moreover have "length ?ys < length iovs" using False by (simp add: mz_max_iov_def)
    ultimately show ?thesis using less.hyps [OF _ iok(2)] False by (subst write_chunks.simps) simp
  qed
qed

lemma demo_data_full:
  assumes "\<forall>b\<in>set data. buf_size b \<le> length b"
  shows "\<forall>b\<in>set (fst (sink_run (file_sink_ops demo_fo demo_open_env) (pass_calls [] data) (demo_sink []))). b"
proof -
  have s: "fs_data (demo_sink []) = (True, [], [])" "fs_iov_cap (demo_sink []) = 0" "fs_reallocs (demo_sink []) = [True]"
    by (simp_all add: demo_sink_def file_open_def file_sink_new_def demo_fo_def demo_open_env_def Let_def)
  have iok: "list_all iov_ok (map data_iov data)" using assms by (simp add: list_all_iff iov_ok_def data_iov_def)
  have "fst (write_entries demo_fo (map data_iov data) n (True, [], []) t)" for n t
    using demo_chunks_full [OF iok] by (simp add: write_entries_def demo_fo_def)
  then have "fst (file_data demo_fo data (demo_sink []))"
    using s by (cases data) (auto simp: file_data_def file_batch_def grow_iov_def Let_def split: prod.splits bool.splits, metis fst_conv)
  then show ?thesis by (auto simp: pass_calls_def file_sink_ops_def split: prod.splits)
qed

definition demo_one :: "nat \<Rightarrow> writer \<Rightarrow> writers" where
  "demo_one i w = register_writer i (no_writers (\<lambda>_. w))"

lemma samples_reach_disk_witness:
  "\<exists>oks c w. emit_samples demo_samples demo_mtk = (oks, (w, c)) \<and>
     (\<exists>sy' k mine. worker_pass (file_sink_ops demo_fo demo_open_env) 100 0 quiet
        \<lparr>sy_core = c, sy_writers = demo_one 5 w, sy_sink = demo_sink [], sy_last = 0\<rparr> = Some sy' \<and>
      fo_bytes demo_fo (fs_data (sy_sink sy')) = fo_bytes demo_fo (fs_data (demo_sink [])) @ k \<and> recovered k = Some mine \<and>
      read_samples mine = map sample_of (sent oks demo_samples))"
proof -
  obtain oks w c where run: "emit_samples demo_samples demo_mtk = (oks, (w, c))" by (metis prod_cases3)
  let ?sy = "\<lparr>sy_core = c, sy_writers = demo_one 5 w, sy_sink = demo_sink [], sy_last = 0\<rparr>"
  have f: "48 \<le> w_max (fst demo_mtk)" "full_stream (\<lambda>_. []) demo_mtk = concat (map enc_mtk_item [])"
    by (simp_all add: demo_mtk_def writer_new_def full_stream_def rec_stream_def)
  have obj: "ws_obj (sy_writers ?sy) 5 = w" "ws_abs (sy_writers ?sy) ([] @ 5 # [])"
    using register_writer_abs [OF ws_abs_empty, of 5] by (simp_all add: demo_one_def register_writer_def no_writers_def Let_def)
  have run': "emit_samples demo_samples demo_mtk = (oks, (ws_obj (sy_writers ?sy) 5, sy_core ?sy))" using run obj by simp
  have "same_queues (snd demo_mtk) c" using emit_samples_same_queues [OF run] by (simp add: demo_samples_def)
  then have q: "c_initialized (sy_core ?sy)" "wq_abs (pl_waitq (c_pool (sy_core ?sy))) []" "c_ready (sy_core ?sy) = []" "[] = svc_view (sy_core ?sy) (c_svc (sy_core ?sy))"
    by (cases c; simp add: same_queues_def demo_mtk_def demo_log_def demo_reg_def pool_new_def wq_abs_empty svc_view_def)+
  have rest: "at_rest ?sy 5" using emit_samples_stream [OF demo_mtk_ok demo_samples_env [of "\<lambda>_. []"] f(1) run] obj(1) by (simp add: at_rest_def)
  let ?data = "map (c_mem (sy_core ?sy)) (c_ready (sy_core ?sy) @ held_all (sy_writers ?sy) ([] @ 5 # []))"
  have "\<forall>b\<in>set (held_all (sy_writers ?sy) [5]). complete (sy_core ?sy) b" using held_all_streams(2) [of "[5]" ?sy] rest by simp
  then have "\<forall>b\<in>set ?data. buf_size b \<le> length b" using q(3) by (simp add: complete_def)
  from demo_data_full [OF this] have full: "\<forall>b\<in>set (fst (sink_run (file_sink_ops demo_fo demo_open_env) (pass_calls [] ?data) (sy_sink ?sy))). b" by simp
  have ready: "\<forall>b\<in>set (c_ready (sy_core ?sy)). complete (sy_core ?sy) b" using q(3) by simp
  have others: "\<forall>j\<in>set [] \<union> set []. at_rest ?sy j" by simp
  from samples_reach_disk [OF demo_mtk_ok demo_samples_env f(1,2) run' demo_fo_law obj(2) q(1,2) others ready refl q(4) _ full, of 100 0] run q(3)
  show ?thesis by (auto simp: payloads_def)
qed
text \<open>A queued buffer with two bytes of data, and no live writer.\<close>

definition queued_sys :: "(unit, (bool \<times> byte list \<times> nat list) file_sink) sys" where
  "queued_sys = disk_sys\<lparr>sy_sink := demo_sink []\<rparr>"

lemma streams_reach_disk_witness:
  "\<exists>sy' k. worker_pass (file_sink_ops demo_fo demo_open_env) 100 0 quiet queued_sys = Some sy' \<and>
     fo_bytes demo_fo (fs_data (sy_sink sy')) = fo_bytes demo_fo (fs_data (demo_sink [])) @ k \<and> recovered k = Some [1, 2]"
proof -
  have sys: "ws_abs (sy_writers queued_sys) []" "c_initialized (sy_core queued_sys)" "wq_abs (pl_waitq (c_pool (sy_core queued_sys))) []"
    by (simp_all add: queued_sys_def disk_sys_def ws_abs_empty) (simp_all add: demo_reg_def pool_new_def wq_abs_empty)
  have ready: "c_ready (sy_core queued_sys) = [3]" "c_mem (sy_core queued_sys) 3 = demo_buf" "sy_sink queued_sys = demo_sink []"
    "[] = svc_view (sy_core queued_sys) (c_svc (sy_core queued_sys))"
    by (simp_all add: queued_sys_def disk_sys_def svc_view_def) (simp_all add: demo_reg_def)
  have buf: "buf_size demo_buf \<le> length demo_buf" "24 \<le> buf_size demo_buf" by (simp_all add: demo_buf_def buf_size_def)
  then have cpl: "\<forall>b\<in>set (c_ready (sy_core queued_sys)). complete (sy_core queued_sys) b" using ready by (simp add: complete_def)
  have data: "[demo_buf] = map (c_mem (sy_core queued_sys)) (c_ready (sy_core queued_sys) @ held_all (sy_writers queued_sys) [])"
    using ready by (simp add: held_all_def)
  have full: "\<forall>b\<in>set (fst (sink_run (file_sink_ops demo_fo demo_open_env) (pass_calls [] [demo_buf]) (sy_sink queued_sys))). b"
    using demo_data_full [of "[demo_buf]"] buf(1) ready(3) by simp
  have "payload (sy_core queued_sys) 3 = [1, 2]"
    using ready(2) by (simp add: payload_def hdr_def sub_bytes_def) (simp add: demo_buf_def)
  then show ?thesis
    using streams_reach_disk [OF demo_fo_law sys _ cpl data ready(4) _ full, of 100 0] ready(1,3) by simp blast
qed

text \<open>A call without arguments from a new writer, and the worker's pass behind it.\<close>

definition plain_call :: log_call where
  "plain_call = (demo_call 0)\<lparr>lc_format := Some [104, 105], lc_args := []\<rparr>"

definition plain_site :: log_state where
  "plain_site = \<lparr>ls_has_core = True, ls_descs = [9 \<mapsto> demo_desc\<lparr>ld_args := []\<rparr>], ls_cache = []\<rparr>"

lemma plain_typed: "typed_call (\<lambda>f l. 9) plain_call plain_site (snd demo_big)"
proof -
  have "parse_format_string P8_LOG_MAX_ARGS (Some (to_string [104, 105])) = []" by code_simp
  then show ?thesis by (simp add: typed_call_def plain_call_def plain_site_def demo_big_def demo_reg_def)
qed

lemma upd_item_same_queues: "same_queues (snd wc) (snd (upd_item b off f wc))"
  by (simp add: upd_item_def mem_write_same_queues)

text \<open>With neither arguments nor attributes only the header of the record is written.\<close>

lemma log_record_plain:
  assumes "w_buffer (fst wc) = Some b" "lc_args lc = []" "ld_args d = []" "lc_attrs lc = []"
    and "w_used (fst wc) + 72 \<le> w_max (fst wc)"
  shows "\<exists>cache' wc'. log_record ts lc d modid cache wc = Some (True, cache', wc') \<and> same_queues (snd wc) (snd wc') \<and>
    w_used (fst wc') = w_used (fst wc) + 40"
proof -
  let ?wc1 = "upd_item b (w_used (fst wc)) (item_start (ld_hash d) ts (lc_trace_id lc) (w_tid (fst wc)) (lc_level lc) modid) wc"
  let ?wc2 = "upd_item b (w_used (fst wc)) (\<lambda>h. h\<lparr>li_args_size := 0\<rparr>) ?wc1"
  let ?wc3 = "upd_item b (w_used (fst wc)) (\<lambda>h. h\<lparr>li_attrs_count := 0, li_size := of_nat 40\<rparr>) ?wc2"
  have f: "fst ?wc3 = fst wc" by (simp add: upd_item_def)
  have "align_up_8 40 = 40" by (simp add: align_up_8_def)
  then have "log_record ts lc d modid cache wc = Some (True, cache, end_item P8_LOG_MIN_BUFFER_SPACE ts (w_used (fst wc) + 40) b ?wc3)"
    using assms(1-4) by (simp add: log_record_def log_finish_def Let_def upd_item_def)
  moreover have "w_used (fst (end_item P8_LOG_MIN_BUFFER_SPACE ts (w_used (fst wc) + 40) b ?wc3)) = w_used (fst wc) + 40"
    unfolding end_item_def f Let_def using assms(5) by (simp add: P8_LOG_MIN_BUFFER_SPACE_def)
  moreover have "same_queues (snd ?wc3) (snd (end_item P8_LOG_MIN_BUFFER_SPACE ts (w_used (fst wc) + 40) b ?wc3))"
    by (simp add: end_item_def Let_def same_queues_def)
  moreover have "same_queues (snd wc) (snd ?wc3)"
    using same_queues_trans [OF same_queues_trans [OF upd_item_same_queues upd_item_same_queues] upd_item_same_queues] .
  ultimately show ?thesis using same_queues_trans by blast
qed

lemma plain_send:
  "\<exists>ls' w c. log_send (\<lambda>f l. 9) demo_env plain_call plain_site demo_big = Some (True, ls', w, c) \<and> w_used w = 64 \<and>
     same_queues (snd demo_big) c"
proof -
  obtain g wc1 where e: "ensure_buffer P8_PACKET_LOGS demo_env (park_below 72 demo_big) = (g, wc1)" by (meson surj_pair)
  have d: "w_max (fst demo_big) = 8192" by (simp add: demo_big_def writer_new_def)
  have park: "park_below 72 demo_big = demo_big" by (simp add: park_below_def demo_big_def writer_new_def)
  have "\<exists>c1. acquire_buffer True (snd demo_big) = (Acquired 1, c1)"
    by (simp add: acquire_buffer_def demo_big_def demo_reg_def pool_new_def acquire_no_lock_def pool_grow_def pull_first_def try_reserve_def
        no_headroom_def pool_alloc_def pool_add_def Let_def)
  then obtain c1 where c1: "acquire_buffer True (snd demo_big) = (Acquired 1, c1)" by blast
  then have "acquire_unlocked demo_env demo_big = (Some 1, fst demo_big, c1)" by (simp add: acquire_unlocked_def demo_env_def)
  moreover have "w_buffer (fst demo_big) = None" "env_now_buf (demo_env :: (unit reg_core_ext) call_env) = 4"
    by (simp_all add: demo_big_def writer_new_def) (simp add: demo_env_def)
  ultimately have "g = True" "wc1 = install_buffer P8_PACKET_LOGS 4 1 (fst demo_big, c1)"
    using e unfolding park by (simp_all add: ensure_buffer_def)
  then have w1: "g = True" "w_buffer (fst wc1) = Some 1" "w_used (fst wc1) = 24" "w_max (fst wc1) = 8192"
    using d by (simp_all add: install_buffer_def)
  have q1: "same_queues (snd demo_big) (snd wc1)" using ensure_same_queues [OF e] unfolding park .
  have look: "log_lookup (\<lambda>f l. 9) plain_call plain_site wc1 = (Some (demo_desc\<lparr>ld_args := []\<rparr>), plain_site, wc1)"
    by (simp add: log_lookup_def plain_site_def)
  obtain cache' wc' where r: "log_record 5 plain_call (demo_desc\<lparr>ld_args := []\<rparr>) 0xFFFF [] wc1 = Some (True, cache', wc')"
    "same_queues (snd wc1) (snd wc')" "w_used (fst wc') = 24 + 40"
    using log_record_plain [of wc1 1 plain_call "demo_desc\<lparr>ld_args := []\<rparr>" 5 "0xFFFF" "[]"] w1
    by (auto simp: plain_call_def demo_call_def)
  have gate: "log_gate plain_site (lc_module plain_call) (snd demo_big) = (0, 0xFFFF)"
    by (simp add: log_gate_def plain_site_def plain_call_def demo_call_def demo_big_def demo_reg_def get_verbosity_def)
  have "log_send (\<lambda>f l. 9) demo_env plain_call plain_site demo_big = Some (True, plain_site\<lparr>ls_cache := cache'\<rparr>, wc')"
    using gate e w1(1) look r(1) by (simp add: log_send_def P8_LOG_MIN_BUFFER_SPACE_def) (simp add: plain_site_def demo_env_def)
  moreover obtain w c where wc: "wc' = (w, c)" by (cases wc')
  moreover have "same_queues (snd demo_big) c" using same_queues_trans [OF q1 r(2)] wc by simp
  moreover have "w_used w = 64" using r(3) wc by simp
  ultimately show ?thesis by blast
qed

lemma record_reaches_disk_witness:
  "\<exists>ls' w c. log_send (\<lambda>f l. 9) demo_env plain_call plain_site demo_big = Some (True, ls', w, c) \<and>
     (\<exists>sy' k d p. worker_pass (file_sink_ops demo_fo demo_open_env) 100 0 quiet
        \<lparr>sy_core = c, sy_writers = demo_one 5 w, sy_sink = demo_sink [], sy_last = 0\<rparr> = Some sy' \<and>
      fo_bytes demo_fo (fs_data (sy_sink sy')) = fo_bytes demo_fo (fs_data (demo_sink [])) @ k \<and> length p = 2 \<and>
      recovered k = Some (enc_log_item (log_header 5 plain_call d 0xFFFF 7 0 0 0) @ p))"
proof -
  obtain ls' w c where run: "log_send (\<lambda>f l. 9) demo_env plain_call plain_site demo_big = Some (True, ls', w, c)" and
    used: "w_used w = 64" and q: "same_queues (snd demo_big) c" using plain_send by blast
  let ?sy = "\<lparr>sy_core = c, sy_writers = demo_one 5 w, sy_sink = demo_sink [], sy_last = 0\<rparr>"
  have obj: "ws_obj (sy_writers ?sy) 5 = w" "ws_abs (sy_writers ?sy) ([] @ 5 # [])"
    using register_writer_abs [OF ws_abs_empty, of 5] by (simp_all add: demo_one_def register_writer_def no_writers_def Let_def)
  have run': "log_send (\<lambda>f l. 9) demo_env plain_call plain_site demo_big = Some (True, ls', (ws_obj (sy_writers ?sy) 5, sy_core ?sy))"
    using run obj by simp
  have f: "log_gate plain_site (lc_module plain_call) (snd demo_big) = (0, 0xFFFF)" "0 \<le> lc_level plain_call" "ls_has_core plain_site"
    "96 \<le> w_max (fst demo_big)" "prefix (ls_cache plain_site) (c_attrs (snd demo_big))" "w_used (ws_obj (sy_writers ?sy) 5) \<le> w_max (fst demo_big)"
    using used obj(1)
    by (simp_all add: log_gate_def plain_site_def plain_call_def demo_call_def demo_big_def demo_reg_def get_verbosity_def writer_new_def)
  have cq: "c_initialized (sy_core ?sy)" "wq_abs (pl_waitq (c_pool (sy_core ?sy))) []" "c_ready (sy_core ?sy) = []" "[] = svc_view (sy_core ?sy) (c_svc (sy_core ?sy))"
    using q by (cases c; simp add: same_queues_def demo_big_def demo_reg_def pool_new_def wq_abs_empty svc_view_def)+
  have "\<not> overran demo_big (w, c)" using f(6) obj(1) by (simp add: overran_def)
  with log_send_outcome [OF f(1-3) demo_big_ok(1,2,3) demo_env_ok [of "\<lambda>_. []"] f(4) plain_typed f(5)] run
  have rest: "at_rest ?sy 5" using obj(1) by (auto simp: at_rest_def)
  let ?data = "map (c_mem (sy_core ?sy)) (c_ready (sy_core ?sy) @ held_all (sy_writers ?sy) ([] @ 5 # []))"
  have "\<forall>b\<in>set (held_all (sy_writers ?sy) [5]). complete (sy_core ?sy) b" using held_all_streams(2) [of "[5]" ?sy] rest by simp
  then have "\<forall>b\<in>set ?data. buf_size b \<le> length b" using cq(3) by (simp add: complete_def)
  from demo_data_full [OF this] have full: "\<forall>b\<in>set (fst (sink_run (file_sink_ops demo_fo demo_open_env) (pass_calls [] ?data) (sy_sink ?sy))). b" by simp
  have ready: "\<forall>b\<in>set (c_ready (sy_core ?sy)). complete (sy_core ?sy) b" using cq(3) by simp
  have rest': "\<forall>j\<in>set [] \<union> set []. at_rest ?sy j" by simp
  have empty: "full_stream (\<lambda>_. []) demo_big = []" "w_tid (fst demo_big) = 7" "lc_attrs plain_call = []" "lc_args plain_call = []"
    by (simp_all add: full_stream_def rec_stream_def demo_big_def writer_new_def plain_call_def demo_call_def)
  have ab: "args_bytes (ld_args d) [] = []" for d :: log_desc by (simp add: args_bytes_def)
  have tb: "attrs_bytes ds [] = []" for ds by (simp add: attrs_bytes_def)
  have pad: "log_pad 40 = 0" by (simp add: log_pad_def align_up_8_def)
  have now: "env_now (demo_env :: (unit reg_core_ext) call_env) = 5" by (simp add: demo_env_def)
  from record_reaches_disk [OF f(1-3) demo_big_ok demo_env_ok [of "\<lambda>_. []"] f(4) plain_typed f(5) run' f(6) demo_fo_law obj(2) cq(1,2)
      rest' ready refl cq(4) _ full refl refl refl, of 100 0] obtain sy' k d old p pad' where
    r: "worker_pass (file_sink_ops demo_fo demo_open_env) 100 0 quiet ?sy = Some sy'"
      "fo_bytes demo_fo (fs_data (sy_sink sy')) = fo_bytes demo_fo (fs_data (sy_sink ?sy)) @ k" "length p = 2"
      "length pad' = 0" "old = []"
      "recovered k = Some (payloads (sy_core ?sy) (c_ready (sy_core ?sy)) @ old @
        enc_log_item (log_header 5 plain_call d 0xFFFF 7 0 0 0) @ p @ pad')"
    by (auto simp: empty ab tb pad now)
  then have "recovered k = Some (enc_log_item (log_header 5 plain_call d 0xFFFF 7 0 0 0) @ p)" using cq(3) by (simp add: payloads_def)
  then show ?thesis using run r(1-3) by auto
qed

end
