(* ===== verification/AttrBlock.thy ===== *)
theory AttrBlock
  imports LogStream
begin

text \<open>
  \<^verbatim>\<open>cp8_tls_writer::serialize_attrs\<close> (\<^verbatim>\<open>engine/p8_tls_writer.cpp\<close>): attributes into one contiguous
  block that is never split, stopping at the first that does not fit. The logger has its own
  inline variant with fragmentation; where everything fits the two write the same bytes.
\<close>

definition attr_item :: "attr_type \<Rightarrow> attr_val \<Rightarrow> nat \<Rightarrow> byte list option" where
  "attr_item ty v avail =
     (if ty = e_p8_attr_str then
        (if avail < 4 then None
         else map_option (\<lambda>bs. le_bytes 4 (nat (av_id v)) @ bs) (serialize_utf8_string (avail - 4) (av_str v)))
      else if avail < 12 then None
      else Some (le_bytes 4 (nat (av_id v)) @ le_bytes 8 (unat (av_u64 v))))"

text \<open>The result: the attribute cache, \<^verbatim>\<open>mu_count\<close> (8 bits wide) and the bytes written.\<close>

fun serialize_attrs :: "attr_val list \<Rightarrow> attr_desc list \<Rightarrow> nat \<Rightarrow> 'a reg_core_scheme \<Rightarrow> attr_desc list \<times> u8 \<times> byte list" where
  "serialize_attrs [] cache avail c = (cache, 0, [])"
| "serialize_attrs (v # vs) cache avail c =
     (if av_id v < 0 then serialize_attrs vs cache avail c
      else let i = nat (av_id v);
               cache1 = (if length cache \<le> i then sync_attr_cache cache c else cache)
           in if length cache1 \<le> i then serialize_attrs vs cache1 avail c
              else case attr_item (ad_type (cache1 ! i)) v avail of
                  None \<Rightarrow> (cache1, 0, [])
                | Some bs \<Rightarrow> (case serialize_attrs vs cache1 (avail - length bs) c of
                    (cache2, n, rest) \<Rightarrow> (cache2, n + 1, bs @ rest)))"

lemma attr_item_bytes:
  "attr_item ty v avail = (let bs = concat (map piece_bytes (attr_pieces ty v)) in if avail < length bs then None else Some bs)"
  by (auto simp: attr_item_def attr_pieces_def serialize_utf8_string_def enc_str_def Let_def)

definition known_bytes :: "attr_desc list \<Rightarrow> attr_val list \<Rightarrow> byte list" where
  "known_bytes ds vs = concat (map (\<lambda>v. concat (map piece_bytes (attr_pieces (ad_type (ds ! nat (av_id v))) v))) vs)"

lemma attrs_bytes_known: "attrs_bytes ds vs = known_bytes ds (filter (attr_known ds) vs)"
  by (simp add: attrs_bytes_def known_bytes_def)

lemma serialize_attrs_prefix:
  assumes "c_attrs c = ds" "prefix cache ds"
  shows "\<exists>cache' k. serialize_attrs vs cache avail c =
      (cache', of_nat (length (take k (filter (attr_known ds) vs))), known_bytes ds (take k (filter (attr_known ds) vs))) \<and>
    prefix cache' ds \<and> length (known_bytes ds (take k (filter (attr_known ds) vs))) \<le> avail \<and>
    (length (attrs_bytes ds vs) \<le> avail \<longrightarrow> take k (filter (attr_known ds) vs) = filter (attr_known ds) vs)"
  using assms
proof (induction vs arbitrary: cache avail)
  case Nil
  then show ?case by (auto simp: known_bytes_def)
next
  case (Cons v vs)
  let ?c1 = "if length cache \<le> nat (av_id v) then sync_attr_cache cache c else cache"
  have full: "sync_attr_cache cache c = ds" using sync_full [of cache c] Cons.prems by simp
  have len: "length cache \<le> length ds" using Cons.prems(2) by (rule prefix_length_le)
  have pre: "prefix ?c1 ds" using full Cons.prems(2) by simp
  show ?case
  proof (cases "attr_known ds v")
    case False
    have same: "filter (attr_known ds) (v # vs) = filter (attr_known ds) vs" using False by simp
    have bytes: "attrs_bytes ds (v # vs) = attrs_bytes ds vs" using False by (simp add: attrs_bytes_Cons)
    show ?thesis
    proof (cases "av_id v < 0")
      case True
      then have "serialize_attrs (v # vs) cache avail c = serialize_attrs vs cache avail c" by simp
      then show ?thesis unfolding same bytes using Cons.IH [OF Cons.prems] by simp
    next
      case nneg: False
      then have "length ?c1 \<le> nat (av_id v)" using False full len by (auto simp: attr_known_def)
      then have "serialize_attrs (v # vs) cache avail c = serialize_attrs vs ?c1 avail c" using nneg by (simp add: Let_def)
      then show ?thesis unfolding same bytes using Cons.IH [OF Cons.prems(1) pre] by simp
    qed
  next
    case True
    let ?xs = "concat (map piece_bytes (attr_pieces (ad_type (ds ! nat (av_id v))) v))"
    have in1: "0 \<le> av_id v" "\<not> length ?c1 \<le> nat (av_id v)" using True full by (auto simp: attr_known_def)
    have nth: "?c1 ! nat (av_id v) = ds ! nat (av_id v)" using pre in1(2) by (auto simp: prefix_def nth_append)
    have bytes: "attrs_bytes ds (v # vs) = ?xs @ attrs_bytes ds vs" using True by (simp add: attrs_bytes_Cons)
    show ?thesis
    proof (cases "avail < length ?xs")
      case short: True
      then have "serialize_attrs (v # vs) cache avail c = (?c1, 0, [])"
        using in1 nth by (subst serialize_attrs.simps(2)) (simp add: attr_item_bytes Let_def del: serialize_attrs.simps)
      moreover have "\<not> length (attrs_bytes ds (v # vs)) \<le> avail" unfolding bytes using short by simp
      ultimately show ?thesis using pre by (intro exI [of _ ?c1] exI [of _ 0]) (simp add: known_bytes_def)
    next
      case False
      obtain cache' k where IH: "serialize_attrs vs ?c1 (avail - length ?xs) c =
          (cache', of_nat (length (take k (filter (attr_known ds) vs))), known_bytes ds (take k (filter (attr_known ds) vs)))"
        "prefix cache' ds" "length (known_bytes ds (take k (filter (attr_known ds) vs))) \<le> avail - length ?xs"
        "length (attrs_bytes ds vs) \<le> avail - length ?xs \<longrightarrow> take k (filter (attr_known ds) vs) = filter (attr_known ds) vs"
        using Cons.IH [OF Cons.prems(1) pre] by blast
      have "serialize_attrs (v # vs) cache avail c = (cache', of_nat (length (take k (filter (attr_known ds) vs))) + 1,
          ?xs @ known_bytes ds (take k (filter (attr_known ds) vs)))"
        using in1 nth False IH(1) by (subst serialize_attrs.simps(2)) (simp add: attr_item_bytes Let_def del: serialize_attrs.simps)
      moreover have "take (Suc k) (filter (attr_known ds) (v # vs)) = v # take k (filter (attr_known ds) vs)" using True by simp
      moreover have "known_bytes ds (v # take k (filter (attr_known ds) vs)) = ?xs @ known_bytes ds (take k (filter (attr_known ds) vs))"
        by (simp add: known_bytes_def)
      ultimately show ?thesis using IH False True unfolding bytes
        by (intro exI [of _ cache'] exI [of _ "Suc k"]) (auto simp: add.commute)
    qed
  qed
qed

text \<open>
  C40: The block of attributes holds whole attributes only, a prefix of those the registry knows, and
  stays within the room given. When that is room enough for all of them, the bytes and the count
  are exactly those the logger writes inline.
\<close>

theorem serialize_attrs_equiv:
  assumes "prefix cache (c_attrs c)"
  shows "\<exists>cache' k. serialize_attrs vs cache avail c =
      (cache', of_nat (length (take k (filter (attr_known (c_attrs c)) vs))), known_bytes (c_attrs c) (take k (filter (attr_known (c_attrs c)) vs))) \<and>
    length (known_bytes (c_attrs c) (take k (filter (attr_known (c_attrs c)) vs))) \<le> avail \<and>
    (length (attrs_bytes (c_attrs c) vs) \<le> avail \<longrightarrow>
       snd (serialize_attrs vs cache avail c) = (of_nat (length (filter (attr_known (c_attrs c)) vs)), attrs_bytes (c_attrs c) vs))"
proof -
  obtain cache' k where r: "serialize_attrs vs cache avail c =
      (cache', of_nat (length (take k (filter (attr_known (c_attrs c)) vs))), known_bytes (c_attrs c) (take k (filter (attr_known (c_attrs c)) vs)))"
    "length (known_bytes (c_attrs c) (take k (filter (attr_known (c_attrs c)) vs))) \<le> avail"
    "length (attrs_bytes (c_attrs c) vs) \<le> avail \<longrightarrow> take k (filter (attr_known (c_attrs c)) vs) = filter (attr_known (c_attrs c)) vs"
    using serialize_attrs_prefix [OF refl assms, of vs avail] by blast
  then show ?thesis by (intro exI [of _ cache'] exI [of _ k]) (auto simp: attrs_bytes_known)
qed

lemma serialize_attrs_equiv_witness:
  "\<exists>cache'. serialize_attrs [\<lparr>av_id = 0, av_u64 = 7, av_str = None\<rparr>, \<lparr>av_id = 3, av_u64 = 8, av_str = None\<rparr>] [] 100
      (demo_reg\<lparr>c_attrs := [\<lparr>ad_id = 0, ad_type = e_p8_attr_u64, ad_name = [97]\<rparr>]\<rparr>) = (cache', 1, le_bytes 4 0 @ le_bytes 8 7)"
proof -
  let ?c = "demo_reg\<lparr>c_attrs := [\<lparr>ad_id = 0, ad_type = e_p8_attr_u64, ad_name = [97]\<rparr>]\<rparr>"
  let ?vs = "[\<lparr>av_id = 0, av_u64 = 7, av_str = None\<rparr>, \<lparr>av_id = 3, av_u64 = 8, av_str = None\<rparr>]"
  have b: "attrs_bytes (c_attrs ?c) ?vs = le_bytes 4 0 @ le_bytes 8 7" "length (filter (attr_known (c_attrs ?c)) ?vs) = 1"
    by (simp_all add: attrs_bytes_def attr_known_def attr_pieces_def del: le_bytes.simps)
  have "prefix [] (c_attrs ?c)" by simp
  from serialize_attrs_equiv [OF this, of ?vs 100] have
    "length (attrs_bytes (c_attrs ?c) ?vs) \<le> 100 \<longrightarrow>
     snd (serialize_attrs ?vs [] 100 ?c) = (of_nat (length (filter (attr_known (c_attrs ?c)) ?vs)), attrs_bytes (c_attrs ?c) ?vs)" by blast
  then have "snd (serialize_attrs ?vs [] 100 ?c) = (1, le_bytes 4 0 @ le_bytes 8 7)" unfolding b by simp
  then show ?thesis by (metis prod.collapse)
qed

end
