(* ===== verification/EntryPoints.thy ===== *)
theory EntryPoints
  imports Globals MtkWriter
begin

text \<open>
  The \<^verbatim>\<open>extern "C"\<close> functions that work through a \<^verbatim>\<open>thread_local\<close> object (\<^verbatim>\<open>p8_log_sent\<close> and its
  variant in \<^verbatim>\<open>engine/p8_log.cpp\<close>, \<^verbatim>\<open>p8_mtk_*\<close> in \<^verbatim>\<open>engine/p8_mtk.cpp\<close>, \<^verbatim>\<open>p8_trc_*\<close> in
  \<^verbatim>\<open>engine/p8_trc.cpp\<close>): each has an object of its own in every thread, built when the thread first
  passes and destroyed when it ends. The guards of the client header (\<^verbatim>\<open>api/p8_client_api.h\<close>) wrap two of
  them. A program is a set of threads that call these functions, those of \<open>Globals\<close> and end; its steps are cut where
  the source looks the core up and where it uses the pointer, so that a release on another thread can come between. A result \<open>None\<close> inside a pair is a call through the pointer of a destroyed core; an outer
  \<open>None\<close> is a call that does not return.
\<close>

section \<open>Threads\<close>

datatype entry = E_log_sent | E_log_sent_emb | E_trc_begin | E_trc_end | E_mtk_create | E_mtk_emit |
  E_mtk_create_query | E_mtk_create_group | E_mtk_create_group_query | E_mtk_group_emit_begin |
  E_mtk_group_emit | E_mtk_group_emit_end

text \<open>\<^verbatim>\<open>cp8_log\<close> and \<^verbatim>\<open>cp8_mtk\<close> are writers, \<^verbatim>\<open>cp8_trc\<close> is not.\<close>

definition is_writer :: "entry \<Rightarrow> bool" where
  "is_writer e \<longleftrightarrow> e \<noteq> E_trc_begin \<and> e \<noteq> E_trc_end"

text \<open>
  An object: its address, its \<^verbatim>\<open>mp_core\<close> and, for \<^verbatim>\<open>cp8_log\<close>, its own maps. The writer members of an object with
  a core are the entry at its address in the registry of the core; a thread keeps the order of construction,
  the latest first.
\<close>

record tls_obj =
  to_addr :: nat
  to_core :: ptr
  to_log :: log_state

record thread =
  th_id :: u32
  th_objs :: "entry \<Rightarrow> tls_obj option"
  th_order :: "entry list"

definition tls_object :: "nat \<Rightarrow> ptr \<Rightarrow> tls_obj" where
  "tls_object i core = \<lparr>to_addr = i, to_core = core,
     to_log = \<lparr>ls_has_core = (core \<noteq> None), ls_descs = (\<lambda>_. None), ls_cache = []\<rparr>\<rparr>"

text \<open>
  Building an object has two parts, between which other threads run: the constructor looks the core up (\<open>ss\<close> are
  the states of the segment that its polling meets), and then uses the pointer it found to take a reference and to
  join the registry. \<open>i\<close> is the address; one in use is not handed out again. An object that found no core stays
  without one.
\<close>

definition find_core :: "'s shm_ops \<Rightarrow> nat \<Rightarrow> (nat \<Rightarrow> 's) \<Rightarrow> ('s, 'f) process \<Rightarrow> (ptr \<times> ('s, 'f) process) option" where
  "find_core sm m ss p =
     map_option (\<lambda>(r, d). (r, p\<lparr>pr_dso := (pr_dso p)(m := d)\<rparr>))
       (get_global_core (\<lambda>j. shm_view sm (ss j)) P8_CORE_ACQUIRE_TIMEOUT_MS (pr_dso p m))"

definition tls_build :: "nat \<Rightarrow> entry \<Rightarrow> ptr \<Rightarrow> thread \<Rightarrow> ('s, 'f) process \<Rightarrow> (tls_obj \<times> thread \<times> ('s, 'f) process) option" where
  "tls_build i e r th p =
     (if pr_objs p i \<noteq> None then None
      else let ob = tls_object i r
           in Some (ob, th\<lparr>th_objs := (th_objs th)(e \<mapsto> ob), th_order := e # th_order th\<rparr>,
                case r of
                  None \<Rightarrow> p
                | Some a \<Rightarrow> p\<lparr>pr_world := tls_ctor (is_writer e) i (th_id th) a (pr_world p), pr_objs := (pr_objs p)(i \<mapsto> (is_writer e, a))\<rparr>))"

text \<open>Passing the declaration of the object when nobody comes between.\<close>

definition tls_get :: "'s shm_ops \<Rightarrow> nat \<Rightarrow> (nat \<Rightarrow> 's) \<Rightarrow> nat \<Rightarrow> entry \<Rightarrow> thread \<Rightarrow> ('s, 'f) process \<Rightarrow>
    (tls_obj \<times> thread \<times> ('s, 'f) process) option" where
  "tls_get sm m ss i e th p =
     (case th_objs th e of
        Some ob \<Rightarrow> Some (ob, th, p)
      | None \<Rightarrow> (case find_core sm m ss p of None \<Rightarrow> None | Some (r, p1) \<Rightarrow> tls_build i e r th p1))"

text \<open>A thread that ends destroys its objects in reverse order.\<close>

definition thread_exit :: "'s shm_ops \<Rightarrow> nat \<Rightarrow> (entry \<Rightarrow> ('j, 'f) shutdown) \<Rightarrow> thread \<Rightarrow> ('s, 'f) process \<Rightarrow>
    (thread \<times> ('s, 'f) process) option" where
  "thread_exit sm m sd th p =
     map_option (\<lambda>p1. (th\<lparr>th_objs := (\<lambda>_. None), th_order := []\<rparr>, p1))
       (api_run sm
         (concat (map (\<lambda>e. case th_objs th e of
              Some ob \<Rightarrow> if to_core ob = None then [] else [(m, Tls_free (to_addr ob) (sd e))]
            | None \<Rightarrow> []) (th_order th))) p)"

section \<open>Calls through an object\<close>

text \<open>A member function on the writer at address \<open>i\<close> and its core.\<close>

definition in_core :: "addr \<Rightarrow> nat \<Rightarrow> ((unit reg_core_ext) wc \<Rightarrow> ('r \<times> (unit reg_core_ext) wc) option) \<Rightarrow>
    ('s, 'f) process \<Rightarrow> ('r option \<times> ('s, 'f) process) option" where
  "in_core a i f p =
     (case gw_cores (pr_world p) a of
        None \<Rightarrow> Some (None, p\<lparr>pr_world := (pr_world p)\<lparr>gw_bad := True\<rparr>\<rparr>)
      | Some (n, ob) \<Rightarrow>
          (let sy = co_sys ob
           in map_option (\<lambda>(r, w', c'). (Some r, p\<lparr>pr_world := (pr_world p)\<lparr>gw_cores := (gw_cores (pr_world p))(a \<mapsto>
                  (n, ob\<lparr>co_sys := sy\<lparr>sy_core := c', sy_writers := (sy_writers sy)\<lparr>ws_obj := (ws_obj (sy_writers sy))(i := w')\<rparr>\<rparr>\<rparr>))\<rparr>\<rparr>))
                (f (ws_obj (sy_writers sy) i, sy_core sy))))"

text \<open>\<^verbatim>\<open>cp8_log::send\<close> without a core returns false on each of its branches.\<close>

definition obj_send :: "(cstr \<Rightarrow> u32 \<Rightarrow> u64) \<Rightarrow> (unit reg_core_ext) call_env \<Rightarrow> log_call \<Rightarrow> tls_obj \<Rightarrow> ('s, 'f) process \<Rightarrow>
    (bool option \<times> tls_obj \<times> ('s, 'f) process) option" where
  "obj_send hash env lc ob p =
     (case to_core ob of
        None \<Rightarrow> Some (Some False, ob, p)
      | Some a \<Rightarrow>
          map_option (\<lambda>(r, p1). case r of None \<Rightarrow> (None, ob, p1) | Some (ok, ls) \<Rightarrow> (Some ok, ob\<lparr>to_log := ls\<rparr>, p1))
            (in_core a (to_addr ob) (\<lambda>wc. map_option (\<lambda>(ok, ls, wc1). ((ok, ls), wc1)) (log_send hash env lc (to_log ob) wc)) p))"

lemma send_detached: "\<not> ls_has_core ls \<Longrightarrow> log_send hash env lc ls wc = Some (False, ls, wc)"
  by (auto simp: log_send_def split: prod.split)

definition obj_create :: "mtk_base option \<Rightarrow> tls_obj \<Rightarrow> ('s, 'f) process \<Rightarrow> (int option \<times> tls_obj \<times> ('s, 'f) process) option" where
  "obj_create ip_base ob p =
     (case to_core ob of
        None \<Rightarrow> Some (Some P8_MTK_ERROR_NOT_INITIALIZED, ob, p)
      | Some a \<Rightarrow> map_option (\<lambda>(r, p1). (r, ob, p1))
          (in_core a (to_addr ob) (\<lambda>(w, c). case mtk_create True ip_base c of (r, c1) \<Rightarrow> Some (r, w, c1)) p))"

definition obj_emit :: "(unit reg_core_ext) call_env \<Rightarrow> int \<Rightarrow> u64 \<Rightarrow> tls_obj \<Rightarrow> ('s, 'f) process \<Rightarrow>
    (bool option \<times> tls_obj \<times> ('s, 'f) process) option" where
  "obj_emit env k v ob p =
     (case to_core ob of
        None \<Rightarrow> Some (Some False, ob, p)
      | Some a \<Rightarrow> map_option (\<lambda>(r, p1). (r, ob, p1)) (in_core a (to_addr ob) (\<lambda>wc. Some (mtk_emit env True k v wc)) p))"

text \<open>The stubs do not look at their object.\<close>

definition obj_stub :: "'r \<Rightarrow> tls_obj \<Rightarrow> ('s, 'f) process \<Rightarrow> ('r option \<times> tls_obj \<times> ('s, 'f) process) option" where
  "obj_stub r ob p = Some (Some r, ob, p)"

section \<open>The entry points\<close>

definition forward :: "entry \<Rightarrow> (tls_obj \<Rightarrow> ('s, 'f) process \<Rightarrow> ('r option \<times> tls_obj \<times> ('s, 'f) process) option) \<Rightarrow>
    's shm_ops \<Rightarrow> nat \<Rightarrow> (nat \<Rightarrow> 's) \<Rightarrow> nat \<Rightarrow> thread \<Rightarrow> ('s, 'f) process \<Rightarrow> ('r option \<times> thread \<times> ('s, 'f) process) option" where
  "forward e f sm m ss i th p =
     (case tls_get sm m ss i e th p of
        None \<Rightarrow> None
      | Some (ob, th1, p1) \<Rightarrow>
          map_option (\<lambda>(r, ob1, p2). (r, th1\<lparr>th_objs := (th_objs th1)(e \<mapsto> ob1)\<rparr>, p2)) (f ob p1))"

definition p8_log_sent where "p8_log_sent hash env lc = forward E_log_sent (obj_send hash env lc)"
definition p8_log_sent_emb where "p8_log_sent_emb hash env lc = forward E_log_sent_emb (obj_send hash env lc)"
definition p8_trc_begin where "p8_trc_begin parent = forward E_trc_begin (obj_stub (trc_begin parent))"
definition p8_trc_end where "p8_trc_end tid = forward E_trc_end (obj_stub (trc_end tid))"
definition p8_mtk_create where "p8_mtk_create ip_base = forward E_mtk_create (obj_create ip_base)"
definition p8_mtk_emit where "p8_mtk_emit env k v = forward E_mtk_emit (obj_emit env k v)"
definition p8_mtk_create_query where
  "p8_mtk_create_query ip_base = forward E_mtk_create_query (obj_stub (create_query ip_base))"
definition p8_mtk_create_group where
  "p8_mtk_create_group ip_base mt = forward E_mtk_create_group (obj_stub (create_group ip_base mt))"
definition p8_mtk_create_group_query where
  "p8_mtk_create_group_query ip_base = forward E_mtk_create_group_query (obj_stub (create_group_query ip_base))"
definition p8_mtk_group_emit_begin where
  "p8_mtk_group_emit_begin g = forward E_mtk_group_emit_begin (obj_stub (begin_group_emit g))"
definition p8_mtk_group_emit where
  "p8_mtk_group_emit name v = forward E_mtk_group_emit (obj_stub (emit_group name v))"
definition p8_mtk_group_emit_end where
  "p8_mtk_group_emit_end g = forward E_mtk_group_emit_end (obj_stub (end_group_emit g))"

text \<open>Three entry points of \<^verbatim>\<open>engine/p8_core.cpp\<close> do nothing.\<close>

definition p8_exceptional_flush :: "('s, 'f) world \<Rightarrow> ('s, 'f) world" where "p8_exceptional_flush w = w"
definition p8_register_current_thread :: "cstr \<Rightarrow> ('s, 'f) world \<Rightarrow> bool \<times> ('s, 'f) world" where
  "p8_register_current_thread ip_name w = (False, w)"
definition p8_unregister_current_thread :: "('s, 'f) world \<Rightarrow> ('s, 'f) world" where "p8_unregister_current_thread w = w"

text \<open>So do the members of the core with these names, whether or not it is initialised; nobody calls them.\<close>

definition core_exceptional_flush :: "reg_core \<Rightarrow> reg_core" where
  "core_exceptional_flush c = (if \<not> c_initialized c then c else c)"
definition core_register_current_thread :: "cstr \<Rightarrow> reg_core \<Rightarrow> bool \<times> reg_core" where
  "core_register_current_thread ip_name c = (if \<not> c_initialized c then (False, c) else (False, c))"
definition core_unregister_current_thread :: "reg_core \<Rightarrow> reg_core" where
  "core_unregister_current_thread c = (if \<not> c_initialized c then c else c)"

text \<open>
  The guard \<^verbatim>\<open>cp8_trace\<close>: the constructor opens a span and keeps its id, the destructor closes it; the body of the
  scope sees the id. The guard \<^verbatim>\<open>cp8_thread\<close> drops the result of the registration.
\<close>

definition trace_scope :: "'s shm_ops \<Rightarrow> nat \<Rightarrow> (nat \<Rightarrow> 's) \<Rightarrow> nat \<Rightarrow> (nat \<Rightarrow> 's) \<Rightarrow> nat \<Rightarrow> u64 \<Rightarrow>
    (u64 \<Rightarrow> thread \<Rightarrow> ('s, 'f) process \<Rightarrow> (thread \<times> ('s, 'f) process) option) \<Rightarrow> thread \<Rightarrow> ('s, 'f) process \<Rightarrow>
    (thread \<times> ('s, 'f) process) option" where
  "trace_scope sm m ss i ss' i' parent body th p =
     (case p8_trc_begin parent sm m ss i th p of
        Some (Some trace_id, th1, p1) \<Rightarrow>
          (case body trace_id th1 p1 of
             None \<Rightarrow> None
           | Some (th2, p2) \<Rightarrow> map_option snd (p8_trc_end trace_id sm m ss' i' th2 p2))
      | _ \<Rightarrow> None)"

definition thread_scope :: "cstr \<Rightarrow> (('s, 'f) world \<Rightarrow> ('s, 'f) world) \<Rightarrow> ('s, 'f) world \<Rightarrow> ('s, 'f) world" where
  "thread_scope ip_name body w = p8_unregister_current_thread (body (snd (p8_register_current_thread ip_name w)))"

section \<open>A program\<close>

datatype request = R_log_sent "cstr \<Rightarrow> u32 \<Rightarrow> u64" "(unit reg_core_ext) call_env" log_call |
  R_log_sent_emb "cstr \<Rightarrow> u32 \<Rightarrow> u64" "(unit reg_core_ext) call_env" log_call |
  R_trc_begin u64 | R_trc_end u64 | R_mtk_create "mtk_base option" |
  R_mtk_emit "(unit reg_core_ext) call_env" int u64 | R_mtk_create_query "mtk_base option" |
  R_mtk_create_group "mtk_base option" bool | R_mtk_create_group_query "mtk_base option" |
  R_mtk_group_emit_begin int | R_mtk_group_emit cstr u64 | R_mtk_group_emit_end int

fun serve :: "request \<Rightarrow> 's shm_ops \<Rightarrow> nat \<Rightarrow> (nat \<Rightarrow> 's) \<Rightarrow> nat \<Rightarrow> thread \<Rightarrow> ('s, 'f) process \<Rightarrow> (thread \<times> ('s, 'f) process) option" where
  "serve (R_log_sent hash env lc) sm m ss i th p = map_option snd (p8_log_sent hash env lc sm m ss i th p)"
| "serve (R_log_sent_emb hash env lc) sm m ss i th p = map_option snd (p8_log_sent_emb hash env lc sm m ss i th p)"
| "serve (R_trc_begin parent) sm m ss i th p = map_option snd (p8_trc_begin parent sm m ss i th p)"
| "serve (R_trc_end tid) sm m ss i th p = map_option snd (p8_trc_end tid sm m ss i th p)"
| "serve (R_mtk_create b) sm m ss i th p = map_option snd (p8_mtk_create b sm m ss i th p)"
| "serve (R_mtk_emit env k v) sm m ss i th p = map_option snd (p8_mtk_emit env k v sm m ss i th p)"
| "serve (R_mtk_create_query b) sm m ss i th p = map_option snd (p8_mtk_create_query b sm m ss i th p)"
| "serve (R_mtk_create_group b mt) sm m ss i th p = map_option snd (p8_mtk_create_group b mt sm m ss i th p)"
| "serve (R_mtk_create_group_query b) sm m ss i th p = map_option snd (p8_mtk_create_group_query b sm m ss i th p)"
| "serve (R_mtk_group_emit_begin g) sm m ss i th p = map_option snd (p8_mtk_group_emit_begin g sm m ss i th p)"
| "serve (R_mtk_group_emit nm v) sm m ss i th p = map_option snd (p8_mtk_group_emit nm v sm m ss i th p)"
| "serve (R_mtk_group_emit_end g) sm m ss i th p = map_option snd (p8_mtk_group_emit_end g sm m ss i th p)"

lemmas entry_defs = p8_log_sent_def p8_log_sent_emb_def p8_trc_begin_def p8_trc_end_def p8_mtk_create_def p8_mtk_emit_def
  p8_mtk_create_query_def p8_mtk_create_group_def p8_mtk_create_group_query_def p8_mtk_group_emit_begin_def
  p8_mtk_group_emit_def p8_mtk_group_emit_end_def

fun entry_of :: "request \<Rightarrow> entry" where
  "entry_of (R_log_sent hash env lc) = E_log_sent"
| "entry_of (R_log_sent_emb hash env lc) = E_log_sent_emb"
| "entry_of (R_trc_begin parent) = E_trc_begin"
| "entry_of (R_trc_end tid) = E_trc_end"
| "entry_of (R_mtk_create b) = E_mtk_create"
| "entry_of (R_mtk_emit env k v) = E_mtk_emit"
| "entry_of (R_mtk_create_query b) = E_mtk_create_query"
| "entry_of (R_mtk_create_group b mt) = E_mtk_create_group"
| "entry_of (R_mtk_create_group_query b) = E_mtk_create_group_query"
| "entry_of (R_mtk_group_emit_begin g) = E_mtk_group_emit_begin"
| "entry_of (R_mtk_group_emit nm v) = E_mtk_group_emit"
| "entry_of (R_mtk_group_emit_end g) = E_mtk_group_emit_end"

text \<open>
  The functions without an object work through \<^verbatim>\<open>gp_instance\<close> and take no reference. Those of \<^verbatim>\<open>p8_core.cpp\<close> test
  it and read it a second time for the call; those of \<^verbatim>\<open>p8_log.cpp\<close> wait for a core and keep the pointer.
\<close>

datatype direct = D_get_initialized | D_attr_register cstr attr_type | D_attr_get cstr | D_set_verbosity "nat option" nat |
  D_get_verbosity "nat option" | D_register_module cstr nat bool | D_find_module cstr

fun polls :: "direct \<Rightarrow> bool" where
  "polls D_get_initialized = False"
| "polls (D_attr_register n ty) = False"
| "polls (D_attr_get n) = False"
| "polls _ = True"

fun direct_member :: "direct \<Rightarrow> reg_core \<Rightarrow> reg_core" where
  "direct_member (D_attr_register n ty) c = snd (attr_register n ty c)"
| "direct_member (D_set_verbosity md v) c = set_verbosity md v c"
| "direct_member (D_register_module n v has_out) c = snd (register_module n v has_out c)"
| "direct_member _ c = c"

definition direct_read :: "'s shm_ops \<Rightarrow> nat \<Rightarrow> (nat \<Rightarrow> 's) \<Rightarrow> direct \<Rightarrow> ('s, 'f) process \<Rightarrow> (ptr \<times> ('s, 'f) process) option" where
  "direct_read sm m ss d p = (if polls d then find_core sm m ss p else Some (ds_instance (pr_dso p m), p))"

definition direct_use :: "direct \<Rightarrow> addr \<Rightarrow> dso \<Rightarrow> ('s, 'f) world \<Rightarrow> ('s, 'f) world" where
  "direct_use d a ds w =
     (case (if polls d then Some a else ds_instance ds) of
        None \<Rightarrow> w\<lparr>gw_bad := True\<rparr>
      | Some b \<Rightarrow> snd (call_core b (\<lambda>c. ((), direct_member d c)) w))"

text \<open>With nobody in between, the two parts are the functions of \<open>Globals\<close>.\<close>

lemma set_core_same: "set_core (\<lambda>_. sy_core (co_sys ob)) ob = ob"
  by (simp add: set_core_def)

lemma direct_undisturbed:
  assumes "ds_instance d = Some a"
  shows "direct_use D_get_initialized a d w = snd (p8_get_initialized d w)"
    and "direct_use (D_attr_register n ty) a d w = snd (p8_attr_register n ty d w)"
    and "direct_use (D_attr_get n) a d w = snd (p8_attr_get n d w)"
    and "p8_log_set_verbosity view md v d w = Some (fst (call_core a (\<lambda>c. ((), set_verbosity md v c)) w), d, direct_use (D_set_verbosity md v) a d w)"
    and "map_option (\<lambda>x. snd (snd x)) (p8_log_get_verbosity view md d w) = Some (direct_use (D_get_verbosity md) a d w)"
    and "map_option (\<lambda>x. snd (snd x)) (p8_log_register_module view n lv out d w) = Some (direct_use (D_register_module n lv out) a d w)"
    and "map_option (\<lambda>x. snd (snd x)) (p8_log_find_module view n d w) = Some (direct_use (D_find_module n) a d w)"
  using assms
  by (auto simp: direct_use_def call_core_def p8_get_initialized_def p8_attr_register_def p8_attr_get_def p8_log_set_verbosity_def
      p8_log_get_verbosity_def p8_log_register_module_def p8_log_find_module_def with_global_def get_global_core_def set_core_same fun_upd_idem
      split: option.split prod.split)

text \<open>
  Where a thread stands: outside of the API, in the constructor of an object with the result of the lookup, in
  a function without an object with the pointer it read, or in \<^verbatim>\<open>p8_release\<close>, before or after it has given the
  reference back.
\<close>

datatype place = P_out | P_found request nat ptr | P_read direct addr | P_unlinked | P_dropped

record ('s, 'f) program =
  pg_threads :: "nat \<Rightarrow> thread"
  pg_place :: "nat \<Rightarrow> place"
  pg_proc :: "('s, 'f) process"

text \<open>
  The steps of a thread. \<open>C_serve\<close> is a call of a function with an object: it runs if the object is there and is in
  the middle of the constructor otherwise, which \<open>C_construct\<close> completes and then runs the call. \<open>C_read\<close> and \<open>C_use\<close>
  are the halves of the other functions, \<open>C_release\<close>, \<open>C_drop\<close> and \<open>C_clear\<close> the parts of \<^verbatim>\<open>p8_release\<close>.
\<close>

datatype ('s, 'j, 'f) thread_call = C_init "('s, 'j, 'f) init_env" | C_release | C_drop "('j, 'f) shutdown" | C_clear |
  C_read direct "nat \<Rightarrow> 's" | C_use | C_serve request "nat \<Rightarrow> 's" nat | C_construct | C_exit "entry \<Rightarrow> ('j, 'f) shutdown"

definition put_thread :: "nat \<Rightarrow> place \<Rightarrow> ('s, 'f) program \<Rightarrow> thread \<times> ('s, 'f) process \<Rightarrow> ('s, 'f) program" where
  "put_thread t pl pg x = pg\<lparr>pg_threads := (pg_threads pg)(t := fst x), pg_place := (pg_place pg)(t := pl), pg_proc := snd x\<rparr>"

definition put_proc :: "nat \<Rightarrow> place \<Rightarrow> ('s, 'f) program \<Rightarrow> ('s, 'f) process \<Rightarrow> ('s, 'f) program" where
  "put_proc t pl pg p = put_thread t pl pg (pg_threads pg t, p)"

text \<open>A step of thread \<open>t\<close> of module \<open>m\<close>; \<open>None\<close> if the thread is not there or the call does not return.\<close>

fun prog_step :: "'s shm_ops \<Rightarrow> nat \<Rightarrow> nat \<times> ('s, 'j, 'f) thread_call \<Rightarrow> ('s, 'f) program \<Rightarrow> ('s, 'f) program option" where
  "prog_step sm m (t, C_init ie) pg =
     (if pg_place pg t \<noteq> P_out then None else map_option (put_proc t P_out pg) (api_step sm (m, Api_init ie) (pg_proc pg)))"
| "prog_step sm m (t, C_release) pg =
     (let p = pg_proc pg in
      if pg_place pg t \<noteq> P_out then None
      else if ds_instance (pr_dso p m) = None then Some pg
      else case release_unlink sm (pr_dso p m) (pr_world p) of
          (d, w) \<Rightarrow> Some (put_proc t P_unlinked pg (p\<lparr>pr_world := w, pr_dso := (pr_dso p)(m := d)\<rparr>)))"
| "prog_step sm m (t, C_drop sd) pg =
     (let p = pg_proc pg in
      if pg_place pg t \<noteq> P_unlinked then None
      else case ds_instance (pr_dso p m) of
          None \<Rightarrow> Some (put_proc t P_dropped pg (p\<lparr>pr_world := (pr_world p)\<lparr>gw_bad := True\<rparr>\<rparr>))
        | Some a \<Rightarrow> map_option (\<lambda>w. put_proc t P_dropped pg (p\<lparr>pr_world := w\<rparr>)) (release_ref sd a (pr_world p)))"
| "prog_step sm m (t, C_clear) pg =
     (let p = pg_proc pg in
      if pg_place pg t \<noteq> P_dropped then None
      else Some (put_proc t P_out pg (p\<lparr>pr_dso := (pr_dso p)(m := release_clear (pr_dso p m))\<rparr>)))"
| "prog_step sm m (t, C_read d ss) pg =
     (if pg_place pg t \<noteq> P_out then None
      else map_option (\<lambda>(r, p1). put_proc t (case r of None \<Rightarrow> P_out | Some a \<Rightarrow> P_read d a) pg p1)
             (direct_read sm m ss d (pg_proc pg)))"
| "prog_step sm m (t, C_use) pg =
     (let p = pg_proc pg in
      case pg_place pg t of
        P_read d a \<Rightarrow> Some (put_proc t P_out pg (p\<lparr>pr_world := direct_use d a (pr_dso p m) (pr_world p)\<rparr>))
      | _ \<Rightarrow> None)"
| "prog_step sm m (t, C_serve q ss i) pg =
     (if pg_place pg t \<noteq> P_out then None
      else case th_objs (pg_threads pg t) (entry_of q) of
          Some ob \<Rightarrow> map_option (put_thread t P_out pg) (serve q sm m ss i (pg_threads pg t) (pg_proc pg))
        | None \<Rightarrow> map_option (\<lambda>(r, p1). put_proc t (P_found q i r) pg p1) (find_core sm m ss (pg_proc pg)))"
| "prog_step sm m (t, C_construct) pg =
     (case pg_place pg t of
        P_found q i r \<Rightarrow>
          (case tls_build i (entry_of q) r (pg_threads pg t) (pg_proc pg) of
             None \<Rightarrow> None
           | Some (ob, th1, p1) \<Rightarrow> map_option (put_thread t P_out pg) (serve q sm m (\<lambda>_. gw_shm (pr_world p1)) i th1 p1))
      | _ \<Rightarrow> None)"
| "prog_step sm m (t, C_exit sd) pg =
     (if pg_place pg t \<noteq> P_out then None
      else map_option (put_thread t P_out pg) (thread_exit sm m sd (pg_threads pg t) (pg_proc pg)))"

fun prog_run :: "'s shm_ops \<Rightarrow> nat \<Rightarrow> (nat \<times> ('s, 'j, 'f) thread_call) list \<Rightarrow> ('s, 'f) program \<Rightarrow> ('s, 'f) program option" where
  "prog_run sm m [] pg = Some pg"
| "prog_run sm m (x # xs) pg = (case prog_step sm m x pg of None \<Rightarrow> None | Some pg1 \<Rightarrow> prog_run sm m xs pg1)"

definition program_start :: "'s \<Rightarrow> (nat \<Rightarrow> u32) \<Rightarrow> ('s, 'f) program" where
  "program_start s ids = \<lparr>pg_threads = (\<lambda>t. \<lparr>th_id = ids t, th_objs = (\<lambda>_. None), th_order = []\<rparr>), pg_place = (\<lambda>_. P_out),
     pg_proc = process_start s\<rparr>"

section \<open>What the client has to keep apart\<close>

text \<open>A pointer to the core that a thread has in its hands without a reference; a thread inside \<^verbatim>\<open>p8_release\<close>.\<close>

fun lent :: "place \<Rightarrow> ptr" where
  "lent (P_found q i r) = r"
| "lent (P_read d a) = Some a"
| "lent _ = None"

definition releasing :: "place \<Rightarrow> bool" where
  "releasing pl \<longleftrightarrow> pl = P_unlinked \<or> pl = P_dropped"

text \<open>
  A step that does not bring \<^verbatim>\<open>p8_release\<close> together with another thread that initialises, releases, builds an object or
  calls a function without one: \<^verbatim>\<open>p8_release\<close> does not begin while a pointer is lent, and while it runs no
  lookup and no \<^verbatim>\<open>p8_initialize\<close> begins. Calls through objects that exist and the ends of threads are free. And
  nobody outside the module publishes a core. The library does nothing to ensure any of this, and its
  header does not ask for it.
\<close>

definition apart :: "'s shm_ops \<Rightarrow> ('s, 'f) program \<Rightarrow> nat \<times> ('s, 'j, 'f) thread_call \<Rightarrow> bool" where
  "apart sm pg x \<longleftrightarrow>
     (case snd x of
        C_init ie \<Rightarrow> ie_race ie = id \<and> (\<forall>u. \<not> releasing (pg_place pg u))
      | C_release \<Rightarrow> \<forall>u. \<not> releasing (pg_place pg u) \<and> lent (pg_place pg u) = None
      | C_read d ss \<Rightarrow> (\<forall>u. \<not> releasing (pg_place pg u)) \<and> (\<forall>j. shm_view sm (ss j) = None)
      | C_serve q ss i \<Rightarrow> th_objs (pg_threads pg (fst x)) (entry_of q) = None \<longrightarrow>
          (\<forall>u. \<not> releasing (pg_place pg u)) \<and> (\<forall>j. shm_view sm (ss j) = None)
      | _ \<Rightarrow> True)"

fun orderly :: "'s shm_ops \<Rightarrow> nat \<Rightarrow> (nat \<times> ('s, 'j, 'f) thread_call) list \<Rightarrow> ('s, 'f) program \<Rightarrow> bool" where
  "orderly sm m [] pg \<longleftrightarrow> True"
| "orderly sm m (x # xs) pg \<longleftrightarrow> apart sm pg x \<and> (case prog_step sm m x pg of None \<Rightarrow> True | Some pg1 \<Rightarrow> orderly sm m xs pg1)"

section \<open>Objects and references\<close>

text \<open>Where an object with a core is, and the core; the references of the process are exactly these.\<close>

definition att :: "(nat \<Rightarrow> thread) \<Rightarrow> nat \<Rightarrow> entry \<Rightarrow> (nat \<times> addr) option" where
  "att T t e = (case th_objs (T t) e of None \<Rightarrow> None | Some ob \<Rightarrow> map_option (Pair (to_addr ob)) (to_core ob))"

definition objs_match :: "(nat \<Rightarrow> entry \<Rightarrow> (nat \<times> addr) option) \<Rightarrow> (nat \<Rightarrow> (bool \<times> addr) option) \<Rightarrow> bool" where
  "objs_match A objs \<longleftrightarrow>
     (\<forall>i k a. objs i = Some (k, a) \<longleftrightarrow> (\<exists>t e. A t e = Some (i, a) \<and> k = is_writer e)) \<and>
     (\<forall>t e t' e' i a a'. A t e = Some (i, a) \<longrightarrow> A t' e' = Some (i, a') \<longrightarrow> t = t' \<and> e = e')"

lemma match_add:
  assumes "objs_match A objs" "objs i = None" "A t e = None"
  shows "objs_match (A(t := (A t)(e \<mapsto> (i, a)))) (objs(i \<mapsto> (is_writer e, a)))"
proof -
  have fresh: "A t' e' \<noteq> Some (i, a')" for t' e' a'
    using assms(1,2) unfolding objs_match_def by (metis option.distinct(1))
  show ?thesis
    unfolding objs_match_def
  proof (intro conjI allI impI)
    fix j k b
    show "((objs(i \<mapsto> (is_writer e, a))) j = Some (k, b)) =
        (\<exists>t' e'. (A(t := (A t)(e \<mapsto> (i, a)))) t' e' = Some (j, b) \<and> k = is_writer e')"
    proof (cases "j = i")
      case True
      then show ?thesis using fresh by (auto simp: fun_upd_apply split: if_splits)
    next
      case False
      then have "((objs(i \<mapsto> (is_writer e, a))) j = Some (k, b)) = (\<exists>t' e'. A t' e' = Some (j, b) \<and> k = is_writer e')"
        using assms(1) unfolding objs_match_def by simp
      moreover have "(A(t := (A t)(e \<mapsto> (i, a)))) t' e' = Some (j, b) \<longleftrightarrow> A t' e' = Some (j, b)" for t' e'
        using False assms(3) by (auto simp: fun_upd_apply)
      ultimately show ?thesis by simp
    qed
  next
    fix t1 e1 t2 e2 j b b'
    assume "(A(t := (A t)(e \<mapsto> (i, a)))) t1 e1 = Some (j, b)" "(A(t := (A t)(e \<mapsto> (i, a)))) t2 e2 = Some (j, b')"
    then have 1: "t1 = t \<and> e1 = e \<and> j = i \<or> A t1 e1 = Some (j, b)" and 2: "t2 = t \<and> e2 = e \<and> j = i \<or> A t2 e2 = Some (j, b')"
      by (auto split: if_splits)
    have inj: "\<And>t e t' e' i a a'. A t e = Some (i, a) \<Longrightarrow> A t' e' = Some (i, a') \<Longrightarrow> t = t' \<and> e = e'"
      using assms(1) unfolding objs_match_def by blast
    show "t1 = t2" "e1 = e2" using 1 2 fresh inj by blast+
  qed
qed

lemma match_drop:
  assumes "objs_match A objs" "\<And>i. i \<in> X \<longleftrightarrow> (\<exists>e a. A t e = Some (i, a))"
  shows "objs_match (A(t := (\<lambda>_. None))) (\<lambda>i. if i \<in> X then None else objs i)"
proof -
  have ex: "objs i = Some (k, a) \<longleftrightarrow> (\<exists>t e. A t e = Some (i, a) \<and> k = is_writer e)" for i k a
    using assms(1) unfolding objs_match_def by blast
  have inj: "A t1 e1 = Some (i, a) \<Longrightarrow> A t2 e2 = Some (i, a') \<Longrightarrow> t1 = t2 \<and> e1 = e2" for t1 e1 t2 e2 i a a'
    using assms(1) unfolding objs_match_def by blast
  have "((if i \<in> X then None else objs i) = Some (k, a)) \<longleftrightarrow>
      (\<exists>t' e. (A(t := (\<lambda>_. None))) t' e = Some (i, a) \<and> k = is_writer e)" for i k a
  proof (cases "i \<in> X")
    case True
    then obtain e b where "A t e = Some (i, b)" using assms(2) by blast
    then have "A t' e' = Some (i, a) \<Longrightarrow> t' = t" for t' e' using inj by blast
    then show ?thesis using True by auto
  next
    case False
    then have "A t e \<noteq> Some (i, a)" for e using assms(2) by blast
    then have "(A(t := (\<lambda>_. None))) t' e = Some (i, a) \<longleftrightarrow> A t' e = Some (i, a)" for t' e by auto
    then show ?thesis using False ex by simp
  qed
  then show ?thesis using inj unfolding objs_match_def by (auto split: if_splits)
qed

text \<open>The books of a process: references, objects and the order of construction agree.\<close>

definition books :: "'s shm_ops \<Rightarrow> addr option \<Rightarrow> (nat \<Rightarrow> thread) \<Rightarrow> ('s, 'f) process \<Rightarrow> bool" where
  "books sm inst T p \<longleftrightarrow> life_inv sm inst p \<and> objs_match (att T) (pr_objs p) \<and> (\<forall>t. set (th_order (T t)) = dom (th_objs (T t)))"

text \<open>What a step leaves alone that only works through references.\<close>

definition same_statics :: "('s, 'f) process \<Rightarrow> ('s, 'f) process \<Rightarrow> bool" where
  "same_statics p p1 \<longleftrightarrow> pr_dso p1 = pr_dso p \<and> gw_shm (pr_world p1) = gw_shm (pr_world p)"

lemma att_put: "att (T(t := th)) = (att T)(t := (\<lambda>e. case th_objs th e of None \<Rightarrow> None | Some ob \<Rightarrow> map_option (Pair (to_addr ob)) (to_core ob)))"
  by (auto simp: att_def fun_eq_iff)

lemma att_same:
  assumes "th_objs (T t) e = Some ob" "to_addr ob1 = to_addr ob" "to_core ob1 = to_core ob"
    and "th_objs th = (th_objs (T t))(e \<mapsto> ob1)"
  shows "att (T(t := th)) = att T"
  using assms by (auto simp: att_def fun_eq_iff)

text \<open>Building an object through a pointer to a live core keeps the books.\<close>

lemma tls_build_books:
  assumes "books sm inst T p" "\<And>a. r = Some a \<Longrightarrow> 0 < refs inst (pr_objs p) a" "th_objs (T t) e = None"
    and "card (dom (pr_objs p)) < 2 ^ 32 - 2" "tls_build i e r (T t) p = Some (ob, th1, p1)"
  shows "books sm inst (T(t := th1)) p1 \<and> th_objs th1 = (th_objs (T t))(e \<mapsto> ob) \<and> same_statics p p1 \<and>
    card (dom (pr_objs p1)) \<le> Suc (card (dom (pr_objs p)))"
proof -
  let ?A = "att T"
  have inv: "life_inv sm inst p" "objs_match ?A (pr_objs p)" "finite (dom (pr_objs p))"
    "\<And>u. set (th_order (T u)) = dom (th_objs (T u))"
    using assms(1) by (simp_all add: books_def life_inv_def)
  have i: "pr_objs p i = None" using assms(5) by (cases "pr_objs p i") (simp_all add: tls_build_def)
  have ob: "ob = tls_object i r"
    and th1: "th1 = (T t)\<lparr>th_objs := (th_objs (T t))(e \<mapsto> ob), th_order := e # th_order (T t)\<rparr>"
    and p1: "p1 = (case r of None \<Rightarrow> p | Some a \<Rightarrow> p\<lparr>pr_world := tls_ctor (is_writer e) i (th_id (T t)) a (pr_world p),
        pr_objs := (pr_objs p)(i \<mapsto> (is_writer e, a))\<rparr>)"
    using assms(5) i by (auto simp: tls_build_def Let_def)
  have att1: "att (T(t := th1)) = ?A(t := (?A t)(e := map_option (Pair i) r))"
    using assms(3) by (auto simp: att_def fun_eq_iff th1 ob tls_object_def split: option.splits)
  have none: "?A t e = None" using assms(3) by (simp add: att_def)
  have ord: "\<forall>u. set (th_order ((T(t := th1)) u)) = dom (th_objs ((T(t := th1)) u))" using inv(4) by (simp add: th1)
  show ?thesis
  proof (cases r)
    case None
    then have "att (T(t := th1)) = ?A" "p1 = p" unfolding att1 p1 using none by (simp_all add: fun_upd_idem)
    then show ?thesis using inv ord by (simp add: books_def same_statics_def th1)
  next
    case (Some a)
    have shm: "gw_shm (tls_ctor k i tid a w) = gw_shm w" for k tid and w :: "('a, 'b) world"
      by (simp add: tls_ctor_def addref_def use_core_def Let_def split: option.split)
    have "objs_match (att (T(t := th1))) (pr_objs p1)" unfolding att1 p1 Some using match_add [OF inv(2) i none, of a] by simp
    moreover have "life_inv sm inst p1" unfolding p1 Some option.case by (rule ctor_life [OF inv(1) assms(2) [OF Some] i assms(4)])
    moreover have "card (dom (pr_objs p1)) \<le> Suc (card (dom (pr_objs p)))" using inv(3) by (simp add: p1 Some card_insert_if)
    ultimately show ?thesis using ord shm by (simp add: books_def same_statics_def th1 p1 Some)
  qed
qed

section \<open>What a forwarded call keeps\<close>

text \<open>
  A member function works on its object through the reference it holds: it leaves the references of the
  process alone, stays on its core, and its core is there as long as the books are right.
\<close>

definition only_content :: "('s, 'f) process \<Rightarrow> ('s, 'f) process \<Rightarrow> bool" where
  "only_content p p1 \<longleftrightarrow> pr_dso p1 = pr_dso p \<and> pr_objs p1 = pr_objs p \<and> gw_shm (pr_world p1) = gw_shm (pr_world p) \<and>
     (gw_bad (pr_world p) \<longrightarrow> gw_bad (pr_world p1))"

locale tls_op =
  fixes f :: "tls_obj \<Rightarrow> ('s, 'f) process \<Rightarrow> ('r option \<times> tls_obj \<times> ('s, 'f) process) option"
  assumes frame: "f ob p = Some (r, ob1, p1) \<Longrightarrow> to_addr ob1 = to_addr ob \<and> to_core ob1 = to_core ob \<and> only_content p p1"
    and keeps_counts: "f ob p = Some (r, ob1, p1) \<Longrightarrow> counts h (pr_world p) \<Longrightarrow> (\<And>a. to_core ob = Some a \<Longrightarrow> 0 < h a) \<Longrightarrow>
      counts h (pr_world p1) \<and> r \<noteq> None"
begin

lemma op_life:
  assumes "life_inv sm inst p" "objs_match A (pr_objs p)" "\<And>a. to_core ob = Some a \<Longrightarrow> \<exists>t e. A t e = Some (to_addr ob, a)"
    and "f ob p = Some (r, ob1, p1)"
  shows "life_inv sm inst p1 \<and> r \<noteq> None"
proof -
  have inv: "counts (refs inst (pr_objs p)) (pr_world p)" "finite (dom (pr_objs p))" using assms(1) by (simp_all add: life_inv_def)
  have "0 < refs inst (pr_objs p) a" if "to_core ob = Some a" for a
  proof -
    note ex = assms(3) [OF that]
    obtain t e where "A t e = Some (to_addr ob, a)" using ex by blast
    then have "pr_objs p (to_addr ob) = Some (is_writer e, a)" using assms(2) unfolding objs_match_def by blast
    from refs_gone(2) [OF inv(2) this] show ?thesis .
  qed
  from keeps_counts [OF assms(4) inv(1) this] have c: "counts (refs inst (pr_objs p)) (pr_world p1)" "r \<noteq> None" by simp_all
  have fr: "only_content p p1" using frame [OF assms(4)] by simp
  then show ?thesis using c assms(1) by (simp add: life_inv_def only_content_def)
qed

lemma forward_books:
  assumes "books sm inst T p" "th_objs (T t) e = Some ob" "forward e f sm m ss i (T t) p = Some (r, th2, p2)"
  shows "books sm inst (T(t := th2)) p2 \<and> r \<noteq> None \<and> only_content p p2"
proof -
  obtain ob1 where run: "f ob p = Some (r, ob1, p2)" and th2: "th2 = (T t)\<lparr>th_objs := (th_objs (T t))(e \<mapsto> ob1)\<rparr>"
    using assms(2,3) by (auto simp: forward_def tls_get_def split: option.splits)
  have inv: "life_inv sm inst p" "objs_match (att T) (pr_objs p)" "\<And>u. set (th_order (T u)) = dom (th_objs (T u))"
    using assms(1) by (simp_all add: books_def)
  note fr = frame [OF run]
  have "\<exists>t e. att T t e = Some (to_addr ob, a)" if "to_core ob = Some a" for a
    using that assms(2) by (intro exI [of _ t] exI [of _ e]) (simp add: att_def)
  note life = op_life [OF inv(1,2) this run]
  have "att (T(t := th2)) = att T" by (rule att_same [of _ _ e ob ob1]) (use assms(2) fr th2 in simp_all)
  then have "objs_match (att (T(t := th2))) (pr_objs p2)" using inv(2) fr by (simp add: only_content_def)
  moreover have "set (th_order ((T(t := th2)) u)) = dom (th_objs ((T(t := th2)) u))" for u
    using inv(3) [of u] assms(2) th2 by (auto split: if_splits)
  ultimately show ?thesis using life fr by (simp add: books_def)
qed

lemma served_content:
  assumes "th_objs th e = Some ob" "map_option snd (forward e f sm m ss i th p) = Some (th2, p2)"
  shows "only_content p p2"
  using assms by (auto simp: forward_def tls_get_def dest!: frame)

lemma served_books:
  assumes "books sm inst T p" "th_objs (T t) e = Some ob" "map_option snd (forward e f sm m ss i (T t) p) = Some (th2, p2)"
  shows "books sm inst (T(t := th2)) p2 \<and> only_content p p2"
  using assms(3) forward_books [OF assms(1,2)] by auto

end

lemma in_core_frame:
  assumes "in_core a i g p = Some (r, p1)"
  shows "only_content p p1"
  using assms by (auto simp: in_core_def only_content_def Let_def split: option.splits)

lemma in_core_counts:
  assumes "in_core a i g p = Some (r, p1)" "counts h (pr_world p)" "0 < h a"
  shows "counts h (pr_world p1) \<and> r \<noteq> None"
proof -
  obtain n ob where n: "gw_cores (pr_world p) a = Some (n, ob)" "unat n = h a" by (rule counts_live [OF assms(2,3)])
  from counts_upd [OF assms(2) n(2) assms(3), of a] show ?thesis
    using assms(1) n(1) by (auto simp: in_core_def Let_def)
qed

text \<open>An operation that does nothing without a core, and works in its core otherwise.\<close>

definition through_core :: "tls_obj \<Rightarrow> ('s, 'f) process \<Rightarrow> 'r option \<Rightarrow> tls_obj \<Rightarrow> ('s, 'f) process \<Rightarrow> 'q option \<Rightarrow> bool" where
  "through_core ob p r ob1 p1 q \<longleftrightarrow> to_addr ob1 = to_addr ob \<and> to_core ob1 = to_core ob \<and>
     (case to_core ob of
        None \<Rightarrow> p1 = p \<and> r \<noteq> None
      | Some a \<Rightarrow> (r = None \<longleftrightarrow> q = None) \<and> (\<exists>g. in_core a (to_addr ob) g p = Some (q, p1)))"

lemma through_core_law:
  assumes "through_core ob p r ob1 p1 q"
  shows "to_addr ob1 = to_addr ob \<and> to_core ob1 = to_core ob \<and> only_content p p1"
    and "counts h (pr_world p) \<Longrightarrow> (\<And>a. to_core ob = Some a \<Longrightarrow> 0 < h a) \<Longrightarrow> counts h (pr_world p1) \<and> r \<noteq> None"
proof -
  show "to_addr ob1 = to_addr ob \<and> to_core ob1 = to_core ob \<and> only_content p p1"
    using assms in_core_frame [of _ "to_addr ob" _ p q p1]
    by (cases "to_core ob") (auto simp: through_core_def, simp add: only_content_def)
next
  assume h: "counts h (pr_world p)" "\<And>a. to_core ob = Some a \<Longrightarrow> 0 < h a"
  show "counts h (pr_world p1) \<and> r \<noteq> None"
  proof (cases "to_core ob")
    case None
    then show ?thesis using assms h(1) by (simp add: through_core_def)
  next
    case (Some a)
    then obtain g where "in_core a (to_addr ob) g p = Some (q, p1)" "r = None \<longleftrightarrow> q = None"
      using assms by (auto simp: through_core_def)
    then show ?thesis using in_core_counts [OF _ h(1) h(2) [OF Some]] by blast
  qed
qed

lemma send_through:
  assumes "obj_send hash env lc ob p = Some (r, ob1, p1)"
  shows "\<exists>q :: (bool \<times> log_state) option. through_core ob p r ob1 p1 q"
proof (cases "to_core ob")
  case None
  then show ?thesis using assms by (auto simp: obj_send_def through_core_def)
next
  case (Some a)
  let ?g = "\<lambda>wc. map_option (\<lambda>(ok, ls, wc1). ((ok, ls), wc1)) (log_send hash env lc (to_log ob) wc)"
  obtain q where "in_core a (to_addr ob) ?g p = Some (q, p1)"
    "(r, ob1) = (case q of None \<Rightarrow> (None, ob) | Some (ok, ls) \<Rightarrow> (Some ok, ob\<lparr>to_log := ls\<rparr>))"
    using assms Some by (auto simp: obj_send_def split: option.splits)
  then have "through_core ob p r ob1 p1 q" using Some by (auto simp: through_core_def split: option.splits)
  then show ?thesis ..
qed

lemma create_through: "obj_create ip_base ob p = Some (r, ob1, p1) \<Longrightarrow> through_core ob p r ob1 p1 r"
  by (cases "to_core ob") (auto simp: obj_create_def through_core_def)

lemma emit_through: "obj_emit env k v ob p = Some (r, ob1, p1) \<Longrightarrow> through_core ob p r ob1 p1 r"
  by (cases "to_core ob") (auto simp: obj_emit_def through_core_def)

interpretation send_op: tls_op "obj_send hash env lc" for hash env lc
  by unfold_locales (metis send_through through_core_law(1), metis send_through through_core_law(2))

interpretation create_op: tls_op "obj_create ip_base" for ip_base
  by unfold_locales (fact through_core_law [OF create_through])+

interpretation emit_op: tls_op "obj_emit env k v" for env k v
  by unfold_locales (fact through_core_law [OF emit_through])+

interpretation stub_op: tls_op "obj_stub r" for r
  by unfold_locales (auto simp: obj_stub_def only_content_def)

lemma serve_books:
  assumes "books sm inst T p" "th_objs (T t) (entry_of q) = Some ob" "serve q sm m ss i (T t) p = Some (th2, p2)"
  shows "books sm inst (T(t := th2)) p2 \<and> only_content p p2"
  using assms(2,3)
  by (cases q) (simp_all only: serve.simps entry_of.simps entry_defs,
      (erule (1) send_op.served_books [OF assms(1)] create_op.served_books [OF assms(1)] emit_op.served_books [OF assms(1)]
        stub_op.served_books [OF assms(1)])+)

section \<open>The end of a thread\<close>

lemma frees_alone:
  assumes "life_inv sm inst p" "list_all (\<lambda>x. fst x = m \<and> (\<exists>i sd. snd x = Tls_free i sd)) xs" "api_run sm xs p = Some p1"
  shows "life_inv sm inst p1 \<and> pr_objs p1 = (\<lambda>i. if \<exists>sd. (m, Tls_free i sd) \<in> set xs then None else pr_objs p i) \<and> same_statics p p1"
  using assms
proof (induction xs arbitrary: p)
  case (Cons x xs)
  obtain i sd where x: "x = (m, Tls_free i sd)" using Cons.prems(2) by (cases x) auto
  obtain p2 where p2: "api_step sm x p = Some p2" "api_run sm xs p2 = Some p1" using Cons.prems(3) by (auto split: option.splits)
  note fr = free_alone [OF Cons.prems(1) p2(1) [unfolded x]]
  moreover have "pr_objs p2 = (pr_objs p)(i := None)" using p2(1) x by (auto split: option.splits)
  ultimately show ?case using Cons.IH [of p2] Cons.prems(2) p2(2) x by (auto simp: fun_eq_iff same_statics_def)
qed (simp add: same_statics_def)

lemma thread_exit_books:
  fixes p :: "('s, 'f) process" and sd :: "entry \<Rightarrow> ('j, 'f) shutdown"
  assumes "books sm inst T p" "thread_exit sm m sd (T t) p = Some (th1, p1)"
  shows "books sm inst (T(t := th1)) p1 \<and> same_statics p p1 \<and> card (dom (pr_objs p1)) \<le> card (dom (pr_objs p))"
proof -
  let ?th = "T t" and ?A = "att T"
  let ?c = "\<lambda>e. (case th_objs ?th e of Some ob \<Rightarrow> if to_core ob = None then [] else [(m, Tls_free (to_addr ob) (sd e))]
      | None \<Rightarrow> []) :: (nat \<times> ('s, 'j, 'f) api_call) list"
  let ?xs = "concat (map ?c (th_order ?th))"
  let ?X = "{i. \<exists>sd'. (m, Tls_free i sd') \<in> set ?xs}"
  have inv: "life_inv sm inst p" "objs_match ?A (pr_objs p)" "finite (dom (pr_objs p))"
    "\<And>u. set (th_order (T u)) = dom (th_objs (T u))"
    using assms(1) by (simp_all add: books_def life_inv_def)
  have run: "api_run sm ?xs p = Some p1" and th1: "th1 = ?th\<lparr>th_objs := (\<lambda>_. None), th_order := []\<rparr>"
    using assms(2) by (auto simp: thread_exit_def)
  have "list_all (\<lambda>x. fst x = m \<and> (\<exists>i sd'. snd x = Tls_free i sd')) ?xs"
    by (auto simp: list_all_iff split: option.splits)
  from frees_alone [OF inv(1) this run] have fin: "life_inv sm inst p1"
    "pr_objs p1 = (\<lambda>i. if i \<in> ?X then None else pr_objs p i)" "same_statics p p1" by simp_all
  have X: "i \<in> ?X \<longleftrightarrow> (\<exists>e a. ?A t e = Some (i, a))" for i
  proof
    assume "i \<in> ?X"
    then obtain e where "e \<in> set (th_order ?th)" "\<exists>sd'. (m, Tls_free i sd') \<in> set (?c e)" by auto
    then obtain ob a where "th_objs ?th e = Some ob" "to_core ob = Some a" "to_addr ob = i"
      by (cases "th_objs ?th e") (auto split: if_splits)
    then show "\<exists>e a. ?A t e = Some (i, a)" by (intro exI [of _ e] exI [of _ a]) (simp add: att_def)
  next
    assume "\<exists>e a. ?A t e = Some (i, a)"
    then obtain e a ob where ob: "th_objs ?th e = Some ob" "to_core ob = Some a" "to_addr ob = i"
      by (auto simp: att_def split: option.splits)
    then have "e \<in> set (th_order ?th)" using inv(4) [of t] by auto
    moreover have "(m, Tls_free i (sd e)) \<in> set (?c e)" using ob by simp
    ultimately show "i \<in> ?X" by (simp only: mem_Collect_eq set_concat set_map) blast
  qed
  have "att (T(t := th1)) = ?A(t := (\<lambda>_. None))" by (simp add: att_put th1)
  then have "objs_match (att (T(t := th1))) (pr_objs p1)" using match_drop [OF inv(2) X] fin(2) by simp
  moreover have "dom (pr_objs p1) \<subseteq> dom (pr_objs p)" unfolding fin(2) by (auto split: if_splits)
  ultimately show ?thesis using fin(1,3) inv(3,4) th1 by (simp add: books_def card_mono)
qed

section \<open>The life of a core among the threads of a program\<close>

text \<open>
  The instance pointer stands for a reference until it has been given back. Nobody shares the time of a release, a
  lent pointer is that of the instance, and a thread in a constructor has no such object yet.
\<close>

definition inst_ref :: "nat \<Rightarrow> ('s, 'f) program \<Rightarrow> addr option" where
  "inst_ref m pg = (if \<exists>u. pg_place pg u = P_dropped then None else ds_instance (pr_dso (pg_proc pg) m))"

definition places_ok :: "'s shm_ops \<Rightarrow> nat \<Rightarrow> ('s, 'f) program \<Rightarrow> bool" where
  "places_ok sm m pg \<longleftrightarrow>
     (\<forall>t u. releasing (pg_place pg t) \<longrightarrow> t \<noteq> u \<longrightarrow> \<not> releasing (pg_place pg u) \<and> lent (pg_place pg u) = None) \<and>
     (\<forall>t a. lent (pg_place pg t) = Some a \<longrightarrow> ds_instance (pr_dso (pg_proc pg) m) = Some a) \<and>
     (\<forall>t. pg_place pg t = P_unlinked \<longrightarrow> ds_instance (pr_dso (pg_proc pg) m) \<noteq> None) \<and>
     (\<forall>t. releasing (pg_place pg t) \<longrightarrow> sm_read sm (gw_shm (pr_world (pg_proc pg))) = None) \<and>
     (\<forall>t q i r. pg_place pg t = P_found q i r \<longrightarrow> th_objs (pg_threads pg t) (entry_of q) = None)"

definition prog_inv :: "'s shm_ops \<Rightarrow> nat \<Rightarrow> ('s, 'f) program \<Rightarrow> bool" where
  "prog_inv sm m pg \<longleftrightarrow> books sm (inst_ref m pg) (pg_threads pg) (pg_proc pg) \<and> places_ok sm m pg"

lemma put_simps [simp]:
  "pg_threads (put_thread t pl pg x) = (pg_threads pg)(t := fst x)" "pg_place (put_thread t pl pg x) = (pg_place pg)(t := pl)"
  "pg_proc (put_thread t pl pg x) = snd x"
  by (simp_all add: put_thread_def)

lemma releasing_simps [simp]:
  "\<not> releasing P_out" "\<not> releasing (P_found q i r)" "\<not> releasing (P_read d a)" "releasing P_unlinked" "releasing P_dropped"
  by (simp_all add: releasing_def)

lemma inst_ref_put:
  "inst_ref m (put_thread t pl pg (th, p)) =
     (if pl = P_dropped \<or> (\<exists>u. u \<noteq> t \<and> pg_place pg u = P_dropped) then None else ds_instance (pr_dso p m))"
  by (auto simp: inst_ref_def)

lemma inst_ref_calm: "\<forall>u. \<not> releasing (pg_place pg u) \<Longrightarrow> inst_ref m pg = ds_instance (pr_dso (pg_proc pg) m)"
  by (auto simp: inst_ref_def releasing_def)

lemma places_alone:
  assumes "places_ok sm m pg" "releasing (pg_place pg t)" "t \<noteq> u"
  shows "\<not> releasing (pg_place pg u)" "lent (pg_place pg u) = None"
  using assms unfolding places_ok_def by blast+

lemma places_solo:
  assumes "\<And>u. u \<noteq> t \<Longrightarrow> \<not> releasing (pg_place pg u) \<and> lent (pg_place pg u) = None" "lent (pg_place pg t) = None"
    and "pg_place pg t = P_unlinked \<Longrightarrow> ds_instance (pr_dso (pg_proc pg) m) \<noteq> None"
    and "releasing (pg_place pg t) \<Longrightarrow> sm_read sm (gw_shm (pr_world (pg_proc pg))) = None"
    and "\<And>u q i r. pg_place pg u = P_found q i r \<Longrightarrow> th_objs (pg_threads pg u) (entry_of q) = None"
  shows "places_ok sm m pg"
proof -
  have out: "releasing (pg_place pg u) \<Longrightarrow> u = t" "lent (pg_place pg u) = None" for u
    using assms(1,2) by (blast, cases "u = t") simp_all
  have "pg_place pg u = P_unlinked \<Longrightarrow> u = t" for u using out(1) [of u] by simp
  then show ?thesis unfolding places_ok_def using out assms(3-5) by (intro conjI allI impI) (metis option.distinct(1))+
qed

lemma places_none_released:
  assumes "places_ok sm m pg" "lent (pg_place pg t) = Some a"
  shows "\<not> releasing (pg_place pg u)"
proof
  assume u: "releasing (pg_place pg u)"
  have "u \<noteq> t" using u assms(2) by (auto simp: releasing_def)
  from places_alone(2) [OF assms(1) u this] assms(2) show False by simp
qed

lemma lent_inst:
  assumes "places_ok sm m pg" "lent (pg_place pg t) = Some a"
  shows "inst_ref m pg = Some a" "ds_instance (pr_dso (pg_proc pg) m) = Some a"
proof -
  have "\<not> releasing (pg_place pg u)" for u using places_none_released [OF assms] .
  then have "inst_ref m pg = ds_instance (pr_dso (pg_proc pg) m)" by (intro inst_ref_calm) blast
  moreover show "ds_instance (pr_dso (pg_proc pg) m) = Some a" using assms unfolding places_ok_def by blast
  ultimately show "inst_ref m pg = Some a" by simp
qed

text \<open>A thread that is not inside \<^verbatim>\<open>p8_release\<close> comes back from a call that left the statics alone.\<close>

lemma inv_return:
  assumes "prog_inv sm m pg" "\<not> releasing (pg_place pg t)" "books sm (inst_ref m pg) ((pg_threads pg)(t := th)) p1"
    and "same_statics (pg_proc pg) p1"
  shows "prog_inv sm m (put_thread t P_out pg (th, p1))"
proof -
  have st: "pr_dso p1 = pr_dso (pg_proc pg)" "gw_shm (pr_world p1) = gw_shm (pr_world (pg_proc pg))"
    using assms(4) by (simp_all add: same_statics_def)
  have "(\<exists>u. u \<noteq> t \<and> pg_place pg u = P_dropped) \<longleftrightarrow> (\<exists>u. pg_place pg u = P_dropped)" using assms(2)
    by (metis releasing_simps(5))
  then have "inst_ref m (put_thread t P_out pg (th, p1)) = inst_ref m pg"
    unfolding inst_ref_put by (simp add: inst_ref_def st)
  moreover have "places_ok sm m (put_thread t P_out pg (th, p1))"
    using assms(1) unfolding prog_inv_def places_ok_def by (auto simp: st)
  ultimately show ?thesis using assms(3) by (simp add: prog_inv_def)
qed

text \<open>A thread begins a lookup, alone with respect to releases; it ends up with what the instance pointer says.\<close>

lemma inv_lookup:
  assumes "prog_inv sm m pg" "\<forall>u. \<not> releasing (pg_place pg u)" "lent pl = None \<or> lent pl = ds_instance (pr_dso (pg_proc pg) m)"
    and "\<not> releasing pl" "\<And>q i r. pl = P_found q i r \<Longrightarrow> th_objs (pg_threads pg t) (entry_of q) = None"
  shows "prog_inv sm m (put_proc t pl pg (pg_proc pg))"
proof -
  have "inst_ref m (put_proc t pl pg (pg_proc pg)) = inst_ref m pg"
    unfolding put_proc_def inst_ref_put inst_ref_calm [OF assms(2)] using assms(2,4) by (auto simp: releasing_def)
  moreover have "places_ok sm m (put_proc t pl pg (pg_proc pg))"
    using assms unfolding prog_inv_def places_ok_def put_proc_def by auto
  ultimately show ?thesis using assms(1) by (simp add: prog_inv_def put_proc_def)
qed

lemma find_core_blind:
  assumes "\<forall>j. shm_view sm (ss j) = None"
  shows "find_core sm m ss p = Some (ds_instance (pr_dso p m), p)"
  using get_global_core_blind [of "\<lambda>j. shm_view sm (ss j)" "pr_dso p m"] assms by (simp add: find_core_def)

lemma call_core_counts:
  assumes "counts h w" "0 < h a"
  shows "counts h (snd (call_core a f w)) \<and> gw_shm (snd (call_core a f w)) = gw_shm w"
proof -
  obtain n ob where n: "gw_cores w a = Some (n, ob)" "unat n = h a" by (rule counts_live [OF assms])
  from counts_upd [OF assms(1) n(2) assms(2), of a] show ?thesis using n(1) by (simp add: call_core_def split: prod.split)
qed

lemma step_init:
  assumes "shm_law sm" "prog_inv sm m pg" "apart sm pg (t, C_init ie)" "prog_step sm m (t, C_init ie) pg = Some pg1"
  shows "prog_inv sm m pg1 \<and> pr_objs (pg_proc pg1) = pr_objs (pg_proc pg)"
proof -
  let ?p = "pg_proc pg"
  obtain p1 where p1: "api_step sm (m, Api_init ie) ?p = Some p1" "pg1 = put_proc t P_out pg p1"
    using assms(4) by (auto simp del: api_step.simps split: if_splits)
  have calm: "\<forall>u. \<not> releasing (pg_place pg u)" "ie_race ie = id" using assms(3) by (auto simp: apart_def)
  have inv: "books sm (ds_instance (pr_dso ?p m)) (pg_threads pg) ?p" "places_ok sm m pg"
    using assms(2) inst_ref_calm [OF calm(1), of m] by (simp_all add: prog_inv_def)
  then have "life_inv sm (ds_instance (pr_dso ?p m)) ?p" by (simp add: books_def)
  note i = init_alone [OF assms(1) this calm(2) p1(1)]
  have "inst_ref m pg1 = ds_instance (pr_dso p1 m)"
    unfolding p1(2) put_proc_def inst_ref_put using calm(1) by (auto simp: releasing_def)
  then have "books sm (inst_ref m pg1) (pg_threads pg1) (pg_proc pg1)" using inv(1) i by (simp add: books_def p1(2) put_proc_def)
  moreover have "places_ok sm m pg1"
    using inv(2) i calm(1) unfolding places_ok_def p1(2) put_proc_def by auto
  ultimately show ?thesis using i by (simp add: prog_inv_def p1(2) put_proc_def)
qed

lemma step_release:
  assumes "shm_law sm" "prog_inv sm m pg" "apart sm pg (t, C_release)" "prog_step sm m (t, C_release) pg = Some pg1"
  shows "prog_inv sm m pg1 \<and> pr_objs (pg_proc pg1) = pr_objs (pg_proc pg)"
proof (cases "ds_instance (pr_dso (pg_proc pg) m)")
  case None
  then show ?thesis using assms(2,4) by (auto simp: Let_def split: if_splits)
next
  case (Some a)
  let ?p = "pg_proc pg"
  obtain d w where u: "release_unlink sm (pr_dso ?p m) (pr_world ?p) = (d, w)" by (meson surj_pair)
  let ?p1 = "?p\<lparr>pr_world := w, pr_dso := (pr_dso ?p)(m := d)\<rparr>"
  have pg1: "pg1 = put_proc t P_unlinked pg ?p1" using assms(4) Some u by (auto simp: Let_def split: if_splits)
  have calm: "\<forall>u. \<not> releasing (pg_place pg u)" "\<forall>u. lent (pg_place pg u) = None" using assms(3) by (auto simp: apart_def)
  have inv: "books sm (ds_instance (pr_dso ?p m)) (pg_threads pg) ?p" "places_ok sm m pg"
    using assms(2) inst_ref_calm [OF calm(1), of m] by (simp_all add: prog_inv_def)
  then have "life_inv sm (ds_instance (pr_dso ?p m)) ?p" by (simp add: books_def)
  note r = unlink_life [OF assms(1) this u, of "(pr_dso ?p)(m := d)"]
  have "inst_ref m pg1 = ds_instance (pr_dso ?p m)"
    unfolding pg1 put_proc_def inst_ref_put using calm(1) r by (auto simp: releasing_def)
  then have "books sm (inst_ref m pg1) (pg_threads pg1) (pg_proc pg1)" using inv(1) r by (simp add: books_def pg1 put_proc_def)
  moreover have "places_ok sm m pg1"
    using inv(2) r calm Some unfolding places_ok_def pg1 put_proc_def by auto
  ultimately show ?thesis by (simp add: prog_inv_def pg1 put_proc_def)
qed

lemma step_drop:
  assumes "prog_inv sm m pg" "prog_step sm m (t, C_drop sd) pg = Some pg1"
  shows "prog_inv sm m pg1 \<and> pr_objs (pg_proc pg1) = pr_objs (pg_proc pg)"
proof -
  let ?p = "pg_proc pg"
  have at: "pg_place pg t = P_unlinked" using assms(2) by (auto simp: Let_def split: if_splits)
  have ok: "places_ok sm m pg" using assms(1) by (simp add: prog_inv_def)
  have alone: "\<And>u. u \<noteq> t \<Longrightarrow> \<not> releasing (pg_place pg u) \<and> lent (pg_place pg u) = None"
    using places_alone [OF ok, of t] at by simp
  have shm: "sm_read sm (gw_shm (pr_world ?p)) = None" and "ds_instance (pr_dso ?p m) \<noteq> None"
    using at ok unfolding places_ok_def by (metis releasing_simps(4))+
  then obtain a where a: "ds_instance (pr_dso ?p m) = Some a" by blast
  obtain w where w: "release_ref sd a (pr_world ?p) = Some w" "pg1 = put_proc t P_dropped pg (?p\<lparr>pr_world := w\<rparr>)"
    using assms(2) at a by (auto simp: Let_def)
  have "inst_ref m pg = Some a" using at alone a by (auto simp: inst_ref_def) (metis place.distinct(19) releasing_simps(5))
  then have life: "life_inv sm (Some a) ?p" "books sm (Some a) (pg_threads pg) ?p" using assms(1) by (simp_all add: prog_inv_def books_def)
  note r = drop_life [OF life(1) shm w(1)]
  have "inst_ref m pg1 = None" unfolding w(2) put_proc_def inst_ref_put by simp
  then have "books sm (inst_ref m pg1) (pg_threads pg1) (pg_proc pg1)" using life(2) r by (simp add: books_def w(2) put_proc_def)
  moreover have "places_ok sm m pg1"
    using ok r alone unfolding places_ok_def w(2) put_proc_def by auto
  ultimately show ?thesis by (simp add: prog_inv_def w(2) put_proc_def)
qed

lemma step_clear:
  assumes "prog_inv sm m pg" "prog_step sm m (t, C_clear) pg = Some pg1"
  shows "prog_inv sm m pg1 \<and> pr_objs (pg_proc pg1) = pr_objs (pg_proc pg)"
proof -
  let ?p = "pg_proc pg" and ?p1 = "(pg_proc pg)\<lparr>pr_dso := (pr_dso (pg_proc pg))(m := release_clear (pr_dso (pg_proc pg) m))\<rparr>"
  have at: "pg_place pg t = P_dropped" and pg1: "pg1 = put_proc t P_out pg ?p1"
    using assms(2) by (auto simp: Let_def split: if_splits)
  have ok: "places_ok sm m pg" using assms(1) by (simp add: prog_inv_def)
  have alone: "\<And>u. u \<noteq> t \<Longrightarrow> \<not> releasing (pg_place pg u) \<and> lent (pg_place pg u) = None"
    using places_alone [OF ok, of t] at by simp
  have "inst_ref m pg = None" using at by (auto simp: inst_ref_def)
  then have inv: "books sm None (pg_threads pg) ?p" using assms(1) by (simp add: prog_inv_def)
  have "inst_ref m pg1 = None" unfolding pg1 put_proc_def inst_ref_put by (simp add: release_clear_def)
  then have "books sm (inst_ref m pg1) (pg_threads pg1) (pg_proc pg1)"
    using inv by (simp add: books_def life_inv_def pg1 put_proc_def)
  moreover have "places_ok sm m pg1"
    by (rule places_solo [of t]) (use ok alone in \<open>auto simp: pg1 put_proc_def places_ok_def split: if_splits\<close>)
  ultimately show ?thesis by (simp add: prog_inv_def pg1 put_proc_def)
qed

lemma step_read:
  assumes "prog_inv sm m pg" "apart sm pg (t, C_read d ss)" "prog_step sm m (t, C_read d ss) pg = Some pg1"
  shows "prog_inv sm m pg1 \<and> pr_objs (pg_proc pg1) = pr_objs (pg_proc pg)"
proof -
  let ?p = "pg_proc pg"
  let ?pl = "case ds_instance (pr_dso ?p m) of None \<Rightarrow> P_out | Some a \<Rightarrow> P_read d a"
  have calm: "\<forall>u. \<not> releasing (pg_place pg u)" "\<forall>j. shm_view sm (ss j) = None" using assms(2) by (auto simp: apart_def)
  have "direct_read sm m ss d ?p = Some (ds_instance (pr_dso ?p m), ?p)" using find_core_blind [OF calm(2), of m ?p] by (simp add: direct_read_def)
  then have pg1: "pg1 = put_proc t ?pl pg ?p" using assms(3) by (auto split: if_splits)
  have "prog_inv sm m (put_proc t ?pl pg ?p)"
    by (rule inv_lookup [OF assms(1) calm(1)]) (auto split: option.splits)
  then show ?thesis unfolding pg1 by (simp add: put_proc_def)
qed

lemma step_use:
  assumes "prog_inv sm m pg" "prog_step sm m (t, C_use) pg = Some pg1"
  shows "prog_inv sm m pg1 \<and> pr_objs (pg_proc pg1) = pr_objs (pg_proc pg)"
proof -
  let ?p = "pg_proc pg"
  obtain d a where at: "pg_place pg t = P_read d a" using assms(2) by (auto simp: Let_def split: place.splits)
  let ?w = "snd (call_core a (\<lambda>c. ((), direct_member d c)) (pr_world ?p))"
  have ok: "places_ok sm m pg" using assms(1) by (simp add: prog_inv_def)
  have "lent (pg_place pg t) = Some a" using at by simp
  note inst = lent_inst [OF ok this]
  have "direct_use d a (pr_dso ?p m) (pr_world ?p) = ?w" using inst(2) by (simp add: direct_use_def)
  then have pg1: "pg1 = put_proc t P_out pg (?p\<lparr>pr_world := ?w\<rparr>)" using assms(2) at by (simp add: Let_def)
  have bk: "books sm (Some a) (pg_threads pg) ?p" using assms(1) inst(1) by (simp add: prog_inv_def)
  then have "counts (refs (Some a) (pr_objs ?p)) (pr_world ?p)" by (simp add: books_def life_inv_def)
  note c = call_core_counts [OF this refs_inst, of "\<lambda>c. ((), direct_member d c)"]
  have "books sm (inst_ref m pg) ((pg_threads pg)(t := pg_threads pg t)) (?p\<lparr>pr_world := ?w\<rparr>)"
    using bk c inst(1) by (simp add: books_def life_inv_def)
  from inv_return [OF assms(1) _ this] at c show ?thesis by (simp add: pg1 put_proc_def same_statics_def)
qed

lemma content_statics: "only_content p p1 \<Longrightarrow> same_statics p p1 \<and> pr_objs p1 = pr_objs p"
  by (simp add: only_content_def same_statics_def)

lemma step_serve:
  assumes "prog_inv sm m pg" "apart sm pg (t, C_serve q ss i)" "prog_step sm m (t, C_serve q ss i) pg = Some pg1"
  shows "prog_inv sm m pg1 \<and> pr_objs (pg_proc pg1) = pr_objs (pg_proc pg)"
proof (cases "th_objs (pg_threads pg t) (entry_of q)")
  case None
  let ?p = "pg_proc pg" and ?r = "ds_instance (pr_dso (pg_proc pg) m)"
  have calm: "\<forall>u. \<not> releasing (pg_place pg u)" "\<forall>j. shm_view sm (ss j) = None" using assms(2) None by (auto simp: apart_def)
  have pg1: "pg1 = put_proc t (P_found q i ?r) pg ?p"
    using assms(3) None find_core_blind [OF calm(2), of m ?p] by (auto split: if_splits)
  have "prog_inv sm m (put_proc t (P_found q i ?r) pg ?p)"
    by (rule inv_lookup [OF assms(1) calm(1)]) (use None in auto)
  then show ?thesis unfolding pg1 by (simp add: put_proc_def)
next
  case (Some ob)
  obtain th2 p2 where s: "serve q sm m ss i (pg_threads pg t) (pg_proc pg) = Some (th2, p2)" "pg1 = put_thread t P_out pg (th2, p2)"
    and out: "pg_place pg t = P_out"
    using assms(3) Some by (auto split: if_splits)
  have "books sm (inst_ref m pg) (pg_threads pg) (pg_proc pg)" using assms(1) by (simp add: prog_inv_def)
  note b = serve_books [OF this Some s(1)]
  then show ?thesis using inv_return [OF assms(1) _ conjunct1 [OF b]] content_statics out s(2) by auto
qed

lemma step_construct:
  assumes "prog_inv sm m pg" "card (dom (pr_objs (pg_proc pg))) < 2 ^ 32 - 2" "prog_step sm m (t, C_construct) pg = Some pg1"
  shows "prog_inv sm m pg1 \<and> card (dom (pr_objs (pg_proc pg1))) \<le> Suc (card (dom (pr_objs (pg_proc pg))))"
proof -
  let ?p = "pg_proc pg" and ?T = "pg_threads pg"
  obtain q i r ob th1 p1 th2 p2 where at: "pg_place pg t = P_found q i r"
    and b: "tls_build i (entry_of q) r (?T t) ?p = Some (ob, th1, p1)"
    and s: "serve q sm m (\<lambda>_. gw_shm (pr_world p1)) i th1 p1 = Some (th2, p2)" "pg1 = put_thread t P_out pg (th2, p2)"
    using assms(3) by (auto split: place.splits option.splits)
  have ok: "places_ok sm m pg" and bk: "books sm (inst_ref m pg) ?T ?p" using assms(1) by (simp_all add: prog_inv_def)
  have none: "th_objs (?T t) (entry_of q) = None" using ok at unfolding places_ok_def by blast
  have ref: "0 < refs (inst_ref m pg) (pr_objs ?p) a" if "r = Some a" for a
    using lent_inst(1) [OF ok, of t a] at that refs_inst by simp
  note n = tls_build_books [OF bk ref none assms(2) b]
  have v: "books sm (inst_ref m pg) (?T(t := th1, t := th2)) p2 \<and> only_content p1 p2"
    by (rule serve_books [OF conjunct1 [OF n]]) (use n s(1) in simp_all)
  have "books sm (inst_ref m pg) (?T(t := th2)) p2" using v by simp
  moreover have "same_statics ?p p2" using n v content_statics [of p1 p2] by (simp add: same_statics_def)
  ultimately have "prog_inv sm m pg1" unfolding s(2) using inv_return [OF assms(1)] at by simp
  then show ?thesis using n v content_statics [of p1 p2] s(2) by simp
qed

lemma step_exit:
  assumes "prog_inv sm m pg" "prog_step sm m (t, C_exit sd) pg = Some pg1"
  shows "prog_inv sm m pg1 \<and> card (dom (pr_objs (pg_proc pg1))) \<le> card (dom (pr_objs (pg_proc pg)))"
proof -
  obtain th1 p1 where s: "thread_exit sm m sd (pg_threads pg t) (pg_proc pg) = Some (th1, p1)" "pg1 = put_thread t P_out pg (th1, p1)"
    and out: "pg_place pg t = P_out"
    using assms(2) by (auto split: if_splits)
  have "books sm (inst_ref m pg) (pg_threads pg) (pg_proc pg)" using assms(1) by (simp add: prog_inv_def)
  note b = thread_exit_books [OF this s(1)]
  then show ?thesis using inv_return [OF assms(1) _ conjunct1 [OF b]] out s(2) by simp
qed

lemma prog_step_inv:
  assumes "shm_law sm" "prog_inv sm m pg" "apart sm pg x" "card (dom (pr_objs (pg_proc pg))) < 2 ^ 32 - 2"
    and "prog_step sm m x pg = Some pg1"
  shows "prog_inv sm m pg1 \<and> card (dom (pr_objs (pg_proc pg1))) \<le> Suc (card (dom (pr_objs (pg_proc pg))))"
proof -
  obtain t c where x: "x = (t, c)" by (cases x)
  note run = assms(2) assms(5) [unfolded x] and ap = assms(3) [unfolded x]
  show ?thesis
  proof (cases c)
    case (C_init ie)
    then show ?thesis using step_init [OF assms(1,2)] ap run(2) by fastforce
  next
    case C_release
    then show ?thesis using step_release [OF assms(1,2)] ap run(2) by fastforce
  next
    case (C_drop sd)
    then show ?thesis using step_drop [OF assms(2)] run(2) by fastforce
  next
    case C_clear
    then show ?thesis using step_clear [OF assms(2)] run(2) by fastforce
  next
    case (C_read d ss)
    then show ?thesis using step_read [OF assms(2)] ap run(2) by fastforce
  next
    case C_use
    then show ?thesis using step_use [OF assms(2)] run(2) by fastforce
  next
    case (C_serve q ss i)
    then show ?thesis using step_serve [OF assms(2)] ap run(2) by fastforce
  next
    case C_construct
    then show ?thesis using step_construct [OF assms(2,4)] run(2) by blast
  next
    case (C_exit sd)
    then show ?thesis using step_exit [OF assms(2)] run(2) by (metis le_SucI)
  qed
qed

lemma prog_run_inv:
  assumes "shm_law sm" "prog_inv sm m pg" "orderly sm m xs pg" "card (dom (pr_objs (pg_proc pg))) + length xs < 2 ^ 32 - 2"
    and "prog_run sm m xs pg = Some pg1"
  shows "prog_inv sm m pg1"
  using assms(2-5)
proof (induction xs arbitrary: pg)
  case (Cons x xs)
  obtain pg2 where pg2: "prog_step sm m x pg = Some pg2" "prog_run sm m xs pg2 = Some pg1"
    using Cons.prems(4) by (auto split: option.splits)
  have ap: "apart sm pg x" "orderly sm m xs pg2" using Cons.prems(2) pg2(1) by simp_all
  from prog_step_inv [OF assms(1) Cons.prems(1) ap(1) _ pg2(1)] Cons.prems(3)
  have "prog_inv sm m pg2" "card (dom (pr_objs (pg_proc pg2))) \<le> Suc (card (dom (pr_objs (pg_proc pg))))" by simp_all
  then show ?case using Cons.IH [of pg2] ap(2) Cons.prems(3) pg2(2) by simp
qed simp

lemma program_start_inv: "sm_read sm s = None \<Longrightarrow> prog_inv sm m (program_start s ids)"
  by (simp add: prog_inv_def books_def places_ok_def inst_ref_def program_start_def life_inv_def process_start_def counts_def refs_def
      objs_match_def att_def)

text \<open>
  C13: Threads and the life of a core. The threads of a module make any calls (\<^verbatim>\<open>p8_initialize\<close>,
  \<^verbatim>\<open>p8_release\<close>, the logging, metric and trace functions, the attribute, module and verbosity functions) and end, in
  any order; other threads run between the lookup of the core and the use of the pointer, and between the three
  parts of \<^verbatim>\<open>p8_release\<close>. If the client keeps \<^verbatim>\<open>p8_release\<close> apart from lookups, from functions that work without
  an object and from \<^verbatim>\<open>p8_initialize\<close>, no step follows a pointer to a destroyed core, and a core is there exactly
  as long as the module has initialised and not given its reference back or some thread still has an object on
  it: it is neither destroyed early nor leaked when the threads have ended. Logging through existing objects and
  the end of threads need not be kept apart from anything.
\<close>

theorem core_outlives_threads:
  assumes "shm_law sm" and "sm_read sm s = None" and "orderly sm m xs (program_start s ids)" and "length xs < 2 ^ 32 - 2"
    and "prog_run sm m xs (program_start s ids) = Some pg"
  shows "\<not> gw_bad (pr_world (pg_proc pg)) \<and>
    (\<forall>a. gw_cores (pr_world (pg_proc pg)) a \<noteq> None \<longleftrightarrow>
       ds_instance (pr_dso (pg_proc pg) m) = Some a \<and> (\<forall>t. pg_place pg t \<noteq> P_dropped) \<or>
       (\<exists>t e ob. th_objs (pg_threads pg t) e = Some ob \<and> to_core ob = Some a))"
proof -
  let ?p = "pg_proc pg" and ?h = "refs (inst_ref m pg) (pr_objs (pg_proc pg))"
  have "prog_inv sm m pg"
    using prog_run_inv [OF assms(1) program_start_inv [OF assms(2)] assms(3) _ assms(5)] assms(4)
    by (simp add: program_start_def process_start_def)
  then have c: "counts ?h (pr_world ?p)" and fin: "finite (dom (pr_objs ?p))" and match: "objs_match (att (pg_threads pg)) (pr_objs ?p)"
    by (simp_all add: prog_inv_def books_def life_inv_def)
  have att: "(\<exists>t e ob. th_objs (pg_threads pg t) e = Some ob \<and> to_core ob = Some a) \<longleftrightarrow> (\<exists>i k. pr_objs ?p i = Some (k, a))" for a
  proof -
    have "(\<exists>t e ob. th_objs (pg_threads pg t) e = Some ob \<and> to_core ob = Some a) \<longleftrightarrow> (\<exists>t e i. att (pg_threads pg) t e = Some (i, a))"
      by (auto simp: att_def split: option.splits) (metis option.simps(9) option.simps(5))
    also have "\<dots> \<longleftrightarrow> (\<exists>i k. pr_objs ?p i = Some (k, a))" using match unfolding objs_match_def by blast
    finally show ?thesis .
  qed
  have inst: "inst_ref m pg = Some a \<longleftrightarrow> ds_instance (pr_dso ?p m) = Some a \<and> (\<forall>t. pg_place pg t \<noteq> P_dropped)" for a
    by (auto simp: inst_ref_def)
  have "0 < ?h a \<longleftrightarrow> inst_ref m pg = Some a \<or> (\<exists>i k. pr_objs ?p i = Some (k, a))" for a
    using objs_finite [OF fin, of a] by (auto simp: refs_def card_gt_0_iff)
  moreover have "gw_cores (pr_world ?p) a \<noteq> None \<longleftrightarrow> 0 < ?h a" for a
    using counts_None [OF c, of a] counts_Some [OF c, of a] by (cases "gw_cores (pr_world ?p) a") auto
  ultimately show ?thesis using c att inst by (simp add: counts_def)
qed

text \<open>
  Two threads: one makes a metric, the other traces and registers an attribute; the first releases while the
  second logs through its object, and both end.
\<close>

definition demo_program :: "(nat \<times> (addr option, (string \<times> string) list, bool \<times> byte list \<times> nat list) thread_call) list" where
  "demo_program = [(0, C_init (demo_init (Some 7))), (1, C_serve (R_trc_end 3) (\<lambda>_. None) 6), (0, C_serve (R_mtk_create None) (\<lambda>_. None) 5),
     (1, C_construct), (0, C_construct), (1, C_read (D_attr_get None) (\<lambda>_. None)), (1, C_use),
     (0, C_release), (1, C_serve (R_trc_end 4) (\<lambda>_. None) 0), (0, C_drop demo_down), (1, C_exit (\<lambda>_. demo_down)), (0, C_clear), (0, C_exit (\<lambda>_. demo_down))]"

lemmas demo_program_simps = program_start_def process_start_def p8_initialize_def publish_def demo_init_def demo_shm_def
  get_global_core_def tls_ctor_def addref_def use_core_def release_unlink_def release_clear_def release_ref_def tls_dtor_def delete_core_def
  demo_down_def Let_def put_thread_def put_proc_def find_core_def tls_build_def tls_get_def tls_object_def forward_def entry_defs thread_exit_def
  is_writer_def direct_read_def direct_use_def call_core_def apart_def shm_view_def

lemma demo_program_runs:
  "\<exists>pg. prog_run demo_shm 0 demo_program (program_start None of_nat) = Some pg \<and> orderly demo_shm 0 demo_program (program_start None of_nat)"
proof -
  obtain ob where ob: "core_ctor demo_idle (Some ''null'') = Some ob" "c_initialized (sy_core (co_sys ob))" "\<not> co_running ob"
    using demo_idle_ctor by blast
  obtain f where dt: "\<And>x. \<not> co_running x \<Longrightarrow> core_dtor demo_idle 0 [] x = Some (f x)"
    using core_dtor_idle [of _ demo_idle 0 "[]"] by metis
  show ?thesis using ob
    by (simp add: demo_program_def demo_program_simps obj_create_def obj_stub_def in_core_def mtk_create_def register_mtk_def set_core_def dt)
qed

lemma core_outlives_threads_witness:
  "\<exists>pg. prog_run demo_shm 0 demo_program (program_start None of_nat) = Some pg \<and> \<not> gw_bad (pr_world (pg_proc pg))"
proof -
  obtain pg where pg: "prog_run demo_shm 0 demo_program (program_start None of_nat) = Some pg"
    "orderly demo_shm 0 demo_program (program_start None of_nat)" using demo_program_runs by blast
  from core_outlives_threads [OF demo_shm_law _ pg(2) _ pg(1)] pg(1) show ?thesis by (simp add: demo_shm_def demo_program_def)
qed

section \<open>A thread that came too early\<close>

lemma tls_build_others:
  assumes "tls_build i e r th p = Some (ob, th1, p1)"
  shows "e' \<noteq> e \<Longrightarrow> th_objs th1 e' = th_objs th e'" and "th_objs th1 e = Some ob" and "to_core ob = r"
  using assms by (cases "pr_objs p i"; auto simp: tls_build_def tls_object_def Let_def)+

lemma tls_get_others:
  assumes "tls_get sm m ss i e th p = Some (ob, th1, p1)" "e' \<noteq> e"
  shows "th_objs th1 e' = th_objs th e'"
  using assms tls_build_others(1) [OF _ assms(2)] by (auto simp: tls_get_def split: option.splits)

lemma forward_other:
  assumes "forward e f sm m ss i th p = Some (r, th2, p2)" "th_objs th e' = Some ob" "e' \<noteq> e"
  shows "th_objs th2 e' = Some ob"
  using assms tls_get_others [of sm m ss i e th p _ _ _ e'] by (auto simp: forward_def split: option.splits)

lemma mute_send:
  assumes "th_objs th E_log_sent = Some ob" "to_core ob = None"
  shows "p8_log_sent hash env lc sm m ss i th p = Some (Some False, th, p)"
  using assms by (simp add: p8_log_sent_def forward_def tls_get_def obj_send_def fun_upd_idem)

lemma entry_log_sent: "entry_of q = E_log_sent \<longleftrightarrow> (\<exists>hash env lc. q = R_log_sent hash env lc)"
  by (cases q) simp_all

lemma serve_mute:
  assumes "th_objs th E_log_sent = Some ob" "to_core ob = None" "serve q sm m ss i th p = Some (th2, p2)"
  shows "th_objs th2 E_log_sent = Some ob"
proof (cases "entry_of q = E_log_sent")
  case True
  then show ?thesis using assms(1,3) by (auto simp: entry_log_sent mute_send [OF assms(1,2)])
next
  case False
  then show ?thesis using assms(3)
    by (cases q) (auto simp: p8_log_sent_emb_def p8_trc_begin_def p8_trc_end_def p8_mtk_create_def p8_mtk_emit_def
        p8_mtk_create_query_def p8_mtk_create_group_def p8_mtk_create_group_query_def p8_mtk_group_emit_begin_def
        p8_mtk_group_emit_def p8_mtk_group_emit_end_def dest!: forward_other [OF _ assms(1)])
qed

text \<open>A step of one thread leaves the others where they are.\<close>

lemma step_others:
  assumes "prog_step sm m (u, c) pg = Some pg1" "t \<noteq> u"
  shows "pg_threads pg1 t = pg_threads pg t \<and> pg_place pg1 t = pg_place pg t"
  using assms
  by (cases c) (auto simp: Let_def put_proc_def simp del: api_step.simps split: if_splits option.splits place.splits prod.splits)

text \<open>
  The object of \<^verbatim>\<open>p8_log_sent\<close> in thread \<open>t\<close> exists and has no core; or thread \<open>t\<close> is building it after a lookup that
  found none.
\<close>

definition mute :: "nat \<Rightarrow> ('s, 'f) program \<Rightarrow> bool" where
  "mute t pg \<longleftrightarrow> (\<exists>ob. th_objs (pg_threads pg t) E_log_sent = Some ob \<and> to_core ob = None) \<and>
     (\<forall>q i r. pg_place pg t = P_found q i r \<longrightarrow> entry_of q \<noteq> E_log_sent)"

definition muting :: "nat \<Rightarrow> ('s, 'f) program \<Rightarrow> bool" where
  "muting t pg \<longleftrightarrow> (\<exists>q i. pg_place pg t = P_found q i None \<and> entry_of q = E_log_sent)"

lemma mute_step:
  assumes "mute t pg" "prog_step sm m x pg = Some pg1" "\<And>sd. x \<noteq> (t, C_exit sd)"
  shows "mute t pg1"
proof -
  obtain u c where x: "x = (u, c)" by (cases x)
  obtain ob where ob: "th_objs (pg_threads pg t) E_log_sent = Some ob" "to_core ob = None" using assms(1) by (auto simp: mute_def)
  note run = assms(2) [unfolded x]
  show ?thesis
  proof (cases "u = t")
    case False
    then show ?thesis using step_others [OF run, of t] assms(1) by (simp add: mute_def)
  next
    case True
    show ?thesis
    proof (cases c)
      case (C_serve q ss i)
      show ?thesis
      proof (cases "th_objs (pg_threads pg t) (entry_of q)")
        case None
        then have "entry_of q \<noteq> E_log_sent" using ob(1) by auto
        then show ?thesis using run C_serve True None ob by (auto simp: mute_def put_proc_def split: if_splits)
      next
        case (Some o1)
        then obtain th2 p2 where "serve q sm m ss i (pg_threads pg t) (pg_proc pg) = Some (th2, p2)" "pg1 = put_thread t P_out pg (th2, p2)"
          using run C_serve True by (auto split: if_splits)
        then show ?thesis using serve_mute [OF ob, of q sm m ss i "pg_proc pg" th2 p2] ob(2) by (simp add: mute_def)
      qed
    next
      case C_construct
      obtain q i r o1 th1 p1 th2 p2 where at: "pg_place pg t = P_found q i r"
        and b: "tls_build i (entry_of q) r (pg_threads pg t) (pg_proc pg) = Some (o1, th1, p1)"
        and s: "serve q sm m (\<lambda>_. gw_shm (pr_world p1)) i th1 p1 = Some (th2, p2)" "pg1 = put_thread t P_out pg (th2, p2)"
        using run C_construct True by (auto split: place.splits option.splits)
      have "entry_of q \<noteq> E_log_sent" using assms(1) at by (simp add: mute_def)
      then have "th_objs th1 E_log_sent = Some ob" using tls_build_others(1) [OF b] ob(1) by metis
      then show ?thesis using serve_mute [OF _ ob(2) s(1)] ob(2) s(2) by (simp add: mute_def)
    next
      case (C_exit sd)
      then show ?thesis using assms(3) [of sd] x True by simp
    qed (use run True assms(1) in \<open>auto simp: mute_def Let_def put_proc_def simp del: api_step.simps split: if_splits option.splits place.splits prod.splits\<close>)
  qed
qed

text \<open>The constructor ends with a muted thread, and until then the thread makes no other step.\<close>

lemma muting_step:
  assumes "muting t pg" "prog_step sm m x pg = Some pg1"
  shows "if x = (t, C_construct) then mute t pg1 else muting t pg1"
proof -
  obtain u c where x: "x = (u, c)" by (cases x)
  obtain q i where at: "pg_place pg t = P_found q i None" "entry_of q = E_log_sent" using assms(1) by (auto simp: muting_def)
  note run = assms(2) [unfolded x]
  show ?thesis
  proof (cases "u = t")
    case False
    then show ?thesis using step_others [OF run, of t] assms(1) x by (simp add: muting_def)
  next
    case True
    then have c: "c = C_construct" using run at(1) by (cases c) (auto simp: Let_def)
    obtain o1 th1 p1 th2 p2 where b: "tls_build i E_log_sent None (pg_threads pg t) (pg_proc pg) = Some (o1, th1, p1)"
      and s: "serve q sm m (\<lambda>_. gw_shm (pr_world p1)) i th1 p1 = Some (th2, p2)" "pg1 = put_thread t P_out pg (th2, p2)"
      using run c True at by (auto split: option.splits)
    note o1 = tls_build_others(2,3) [OF b]
    then show ?thesis using serve_mute [OF o1 s(1)] s(2) x c True by (simp add: mute_def)
  qed
qed

lemma mute_run:
  assumes "mute t pg \<or> muting t pg \<and> (t, C_construct) \<in> set xs" "prog_run sm m xs pg = Some pg1" "\<And>sd. (t, C_exit sd) \<notin> set xs"
  shows "mute t pg1"
  using assms
proof (induction xs arbitrary: pg)
  case (Cons x xs)
  obtain pg2 where pg2: "prog_step sm m x pg = Some pg2" "prog_run sm m xs pg2 = Some pg1"
    using Cons.prems(2) by (auto split: option.splits)
  have ends: "x \<noteq> (t, C_exit sd)" "(t, C_exit sd) \<notin> set xs" for sd using Cons.prems(3) [of sd] by auto
  have "mute t pg2 \<or> muting t pg2 \<and> (t, C_construct) \<in> set xs"
    using Cons.prems(1) mute_step [OF _ pg2(1) ends(1)] muting_step [OF _ pg2(1), of t] by (cases "x = (t, C_construct)") auto
  then show ?case by (rule Cons.IH [OF _ pg2(2) ends(2)])
qed simp

text \<open>
  C35: A thread that logs before P8 is initialised never logs: its first \<^verbatim>\<open>p8_log_sent\<close> finds no core, waits out
  the timeout and leaves an object without a core in the thread. Whatever is called while it builds the object and
  afterwards, by this thread or others, \<^verbatim>\<open>p8_initialize\<close> included, every later \<^verbatim>\<open>p8_log_sent\<close> of the thread returns
  false and changes nothing, until the thread ends.
\<close>

theorem early_thread_never_logs:
  assumes "th_objs (pg_threads pg t) E_log_sent = None" and "ds_instance (pr_dso (pg_proc pg) m) = None"
    and "\<forall>j. shm_view sm (ss j) = None"
    and "prog_run sm m ((t, C_serve (R_log_sent hash env lc) ss i) # xs) pg = Some pg1"
    and "(t, C_construct) \<in> set xs" and "\<forall>sd. (t, C_exit sd) \<notin> set xs"
  shows "p8_log_sent hash' env' lc' sm m ss' i' (pg_threads pg1 t) (pg_proc pg1) = Some (Some False, pg_threads pg1 t, pg_proc pg1)"
proof -
  obtain pg2 where pg2: "prog_step sm m (t, C_serve (R_log_sent hash env lc) ss i) pg = Some pg2" "prog_run sm m xs pg2 = Some pg1"
    using assms(4) by (auto split: option.splits)
  have "pg_place pg2 t = P_found (R_log_sent hash env lc) i None"
    using pg2(1) assms(1,2) find_core_blind [OF assms(3), of m "pg_proc pg"] by (auto simp: put_proc_def split: if_splits)
  then have "muting t pg2" by (simp add: muting_def)
  then have "mute t pg2 \<or> muting t pg2 \<and> (t, C_construct) \<in> set xs" using assms(5) by simp
  from mute_run [OF this pg2(2)] assms(6) have "mute t pg1" by blast
  then show ?thesis using mute_send by (auto simp: mute_def)
qed

text \<open>P8 comes up while the first call is still building its object; the thread does not log through it.\<close>

definition demo_early :: "(nat \<times> (addr option, (string \<times> string) list, bool \<times> byte list \<times> nat list) thread_call) list" where
  "demo_early = [(1, C_init (demo_init (Some 7))), (0, C_construct)]"

lemma early_thread_never_logs_witness:
  "\<exists>pg. prog_run demo_shm 0 ((0, C_serve (R_log_sent (\<lambda>_ _. 0) demo_env (demo_call 0)) (\<lambda>_. None) 5) # demo_early) (program_start None of_nat) = Some pg \<and>
     fst (p8_get_initialized (pr_dso (pg_proc pg) 0) (pr_world (pg_proc pg))) \<and>
     p8_log_sent (\<lambda>_ _. 0) demo_env (demo_call 0) demo_shm 0 (\<lambda>_. None) 6 (pg_threads pg 0) (pg_proc pg) = Some (Some False, pg_threads pg 0, pg_proc pg)"
proof -
  let ?x = "(0, C_serve (R_log_sent (\<lambda>_ _. 0) demo_env (demo_call 0)) (\<lambda>_. None) 5)"
  obtain ob where ob: "core_ctor demo_idle (Some ''null'') = Some ob" "c_initialized (sy_core (co_sys ob))"
    using demo_idle_ctor by blast
  have blind: "\<forall>j. shm_view demo_shm ((\<lambda>_. None) j) = None" by (simp add: shm_view_def demo_shm_def)
  have shm: "sm_read demo_shm None = None" "sm_create demo_shm 7 None = Some (Some 7)" by (simp_all add: demo_shm_def)
  obtain pg where pg: "prog_run demo_shm 0 (?x # demo_early) (program_start None of_nat) = Some pg"
    and up: "fst (p8_get_initialized (pr_dso (pg_proc pg) 0) (pr_world (pg_proc pg)))"
    using ob shm
    by (simp add: find_core_blind [OF blind] demo_early_def program_start_def process_start_def p8_initialize_def publish_def demo_init_def
        tls_get_def tls_build_def tls_object_def forward_def entry_defs obj_send_def put_thread_def put_proc_def p8_get_initialized_def Let_def)
  have "p8_log_sent (\<lambda>_ _. 0) demo_env (demo_call 0) demo_shm 0 (\<lambda>_. None) 6 (pg_threads pg 0) (pg_proc pg) = Some (Some False, pg_threads pg 0, pg_proc pg)"
    by (rule early_thread_never_logs [OF _ _ blind pg]) (simp_all add: program_start_def process_start_def demo_early_def)
  then show ?thesis using pg up by blast
qed

section \<open>A release in the middle of a lookup\<close>

text \<open>
  Without the client's care the pointer that a thread has looked up may be that of a destroyed core when it is
  used: the reference is taken after the lookup, if at all, and the instance pointer is cleared after the reference
  has been given back.
\<close>

lemma serve_content:
  assumes "th_objs th (entry_of q) = Some ob" "serve q sm m ss i th p = Some (th2, p2)"
  shows "only_content p p2"
  using assms
  by (cases q) (simp_all only: serve.simps entry_of.simps entry_defs,
      (erule (1) send_op.served_content create_op.served_content emit_op.served_content stub_op.served_content)+)

lemma last_release:
  assumes "gw_cores (pr_world (pg_proc pg)) a = Some (1, ob)" "ds_instance (pr_dso (pg_proc pg) m) = Some a"
    and "prog_run sm m ((u, C_release) # (u, C_drop sd) # xs) pg = Some pg2"
  shows "\<exists>pg1. prog_run sm m xs pg1 = Some pg2 \<and> gw_cores (pr_world (pg_proc pg1)) a = None \<and>
    ds_instance (pr_dso (pg_proc pg1) m) = Some a \<and> (\<forall>t. t \<noteq> u \<longrightarrow> pg_place pg1 t = pg_place pg t)"
  using assms
  by (auto simp: Let_def put_proc_def release_unlink_def release_ref_def delete_core_def split: if_splits option.splits)

lemma release_races:
  fixes pg :: "('s, 'f) program" and sd :: "('j, 'f) shutdown"
  assumes "gw_cores (pr_world (pg_proc pg)) a = Some (1, ob)" "ds_instance (pr_dso (pg_proc pg) m) = Some a" "t \<noteq> u"
  shows "pg_place pg t = P_found q i (Some a) \<Longrightarrow>
      prog_run sm m [(u, C_release), (u, C_drop sd), (t, C_construct)] pg = Some pg2 \<Longrightarrow> gw_bad (pr_world (pg_proc pg2))"
    and "pg_place pg t = P_read d a \<Longrightarrow>
      prog_run sm m [(u, C_release), (u, C_drop sd), (t, C_use)] pg = Some pg2 \<Longrightarrow> gw_bad (pr_world (pg_proc pg2))"
proof -
  assume at: "pg_place pg t = P_found q i (Some a)" and run: "prog_run sm m [(u, C_release), (u, C_drop sd), (t, C_construct)] pg = Some pg2"
  obtain pg1 where r: "prog_run sm m [(t, C_construct :: ('s, 'j, 'f) thread_call)] pg1 = Some pg2" "gw_cores (pr_world (pg_proc pg1)) a = None"
    "pg_place pg1 t = pg_place pg t"
    using last_release [OF assms(1,2) run] assms(3) by blast
  have pg1: "prog_step sm m (t, C_construct :: ('s, 'j, 'f) thread_call) pg1 = Some pg2" "gw_cores (pr_world (pg_proc pg1)) a = None"
    "pg_place pg1 t = P_found q i (Some a)"
    using r(2,3) r(1) [unfolded prog_run.simps] at by (simp_all only: option.simps split: option.splits)
  obtain o1 th1 p1 th2 p2 where b: "tls_build i (entry_of q) (Some a) (pg_threads pg1 t) (pg_proc pg1) = Some (o1, th1, p1)"
    and s: "serve q sm m (\<lambda>_. gw_shm (pr_world p1)) i th1 p1 = Some (th2, p2)" "pg2 = put_thread t P_out pg1 (th2, p2)"
    using pg1(1,3) by (auto split: option.splits)
  have "gw_bad (pr_world p1)"
    using b pg1(2) by (cases "pr_objs (pg_proc pg1) i") (auto simp: tls_build_def Let_def tls_ctor_def addref_def use_core_def)
  then show "gw_bad (pr_world (pg_proc pg2))"
    using serve_content [OF tls_build_others(2) [OF b] s(1)] s(2) by (simp add: only_content_def)
next
  assume at: "pg_place pg t = P_read d a" and run: "prog_run sm m [(u, C_release), (u, C_drop sd), (t, C_use)] pg = Some pg2"
  obtain pg1 where "prog_run sm m [(t, C_use :: ('s, 'j, 'f) thread_call)] pg1 = Some pg2" "gw_cores (pr_world (pg_proc pg1)) a = None"
    "ds_instance (pr_dso (pg_proc pg1) m) = Some a" "pg_place pg1 t = pg_place pg t"
    using last_release [OF assms(1,2) run] assms(3) by blast
  with at show "gw_bad (pr_world (pg_proc pg2))"
    by (auto simp: Let_def put_proc_def direct_use_def call_core_def)
qed

text \<open>Such a run: one thread makes its first metric while another releases.\<close>

definition demo_race :: "(nat \<times> (addr option, (string \<times> string) list, bool \<times> byte list \<times> nat list) thread_call) list" where
  "demo_race = [(0, C_init (demo_init (Some 7))), (1, C_serve (R_mtk_create None) (\<lambda>_. None) 5),
     (0, C_release), (0, C_drop demo_down), (1, C_construct)]"

lemma demo_race_bad:
  "\<exists>pg. prog_run demo_shm 0 demo_race (program_start None of_nat) = Some pg \<and> gw_bad (pr_world (pg_proc pg))"
proof -
  obtain ob where ob: "core_ctor demo_idle (Some ''null'') = Some ob" "c_initialized (sy_core (co_sys ob))" "\<not> co_running ob"
    using demo_idle_ctor by blast
  obtain f where dt: "\<And>x. \<not> co_running x \<Longrightarrow> core_dtor demo_idle 0 [] x = Some (f x)"
    using core_dtor_idle [of _ demo_idle 0 "[]"] by metis
  show ?thesis using ob
    by (simp add: demo_race_def demo_program_simps obj_create_def in_core_def dt)
qed

end
