(* ===== verification/Spec2Isabelle.thy ===== *)
theory Spec2Isabelle
  imports Delivery AttrBlock EntryPoints
begin

text \<open>
  P8, a telemetry library: threads of a program serialise log records and metric samples into
  fixed-size buffers, and one worker thread writes the buffers to a sink. This development models the
  engine (\<^verbatim>\<open>src/engine\<close>) and its wire protocol (\<^verbatim>\<open>src/api/p8_protocol.h\<close>).

  \<^bold>\<open>How the program works.\<close> \<^verbatim>\<open>p8_initialize\<close> builds the one \<^verbatim>\<open>cp8_core\<close> of the process: it reads a JSON
  configuration, creates a memory budget, a buffer pool and a sink, writes a hello packet and starts
  the worker. Every thread that logs owns a thread-local writer. A call looks its call site up, which
  may register a descriptor in the service buffers, takes a buffer from the pool when it has none (and
  may block for it), serialises a record into it, over several buffers if need be, and keeps full
  buffers in a list. The worker periodically takes the service buffers, the queue of buffers left
  by finished threads and what all live writers hold, hands them to the sink and returns them to the
  pool, where they go first to blocked threads. A core lives until the last reference to it is
  dropped.

  \<^bold>\<open>Theories, in the order they build on each other.\<close>

  \<^item> \<open>Prelude\<close>: machine types, \<^verbatim>\<open>size_t\<close> subtraction, little-endian numbers, byte ranges, and the collections
    \<open>codec_simps\<close> and \<open>frame_simps\<close>.
  \<^item> \<open>Protocol\<close>: constants and structs of \<^verbatim>\<open>api/p8_protocol.h\<close> with the layout a C compiler gives them, which
    meets the assertions of \<^verbatim>\<open>p8_static_checks.cpp\<close>; encoders and decoders of the headers.
  \<^item> \<open>LogFormat\<close>: the parser of printf formats (\<^verbatim>\<open>p8_log.cpp\<close>).
  \<^item> \<open>MemBudget\<close>: \<^verbatim>\<open>p8_memory_budget.cpp\<close>; the compare-and-swap loop under any interleaving.
  \<^item> \<open>WaitQueue\<close>, \<open>BufPool\<close>, \<open>PoolSystem\<close>: \<^verbatim>\<open>p8_buffer_pool.cpp\<close>: the intrusive queue of waiters, the operations
    under the mutex, and the system of threads that acquire, block, are served, time out of a
    wait and leave, as one step per critical section.
  \<^item> \<open>CorePool\<close>: what producers call in \<^verbatim>\<open>p8_core.cpp\<close>: acquiring and releasing buffers with the
    back-pressure wake, the ready queue, drop counters.
  \<^item> \<open>TlsWriter\<close>, \<open>AttrBlock\<close>: \<^verbatim>\<open>p8_tls_writer.cpp\<close>: rotation of buffers, the fragmented copy, hand-over, and
    the contiguous attribute serialiser. \<open>WriterRegistry\<close>: the list of live writers in \<^verbatim>\<open>p8_core.cpp\<close>.
  \<^item> \<open>SvcData\<close>, \<open>Registry\<close>: descriptors in the service buffers, and the registries of attributes,
    modules, metrics and call sites in \<^verbatim>\<open>p8_core.cpp\<close>.
  \<^item> \<open>RecordStream\<close>, \<open>LogSend\<close>, \<open>LogStream\<close>, \<open>CallEnv\<close>, \<open>LogCall\<close>: \<^verbatim>\<open>cp8_log::send\<close> of \<^verbatim>\<open>p8_log.cpp\<close>: the
    pieces of a record, the operations, what a record puts on the wire, what may happen while a call waits for
    a buffer, and the whole call.
    \<open>MtkWriter\<close>: \<^verbatim>\<open>p8_mtk.cpp\<close> and the stubs of \<^verbatim>\<open>p8_trc.cpp\<close>.
  \<^item> \<open>Sinks\<close>: the sink interface (\<^verbatim>\<open>p8_sink.hpp\<close>), the file sink and the null sink.
  \<^item> \<open>Worker\<close>: \<^verbatim>\<open>worker_main\<close> and \<^verbatim>\<open>flush_ready\<close> of \<^verbatim>\<open>p8_core.cpp\<close>, with arbitrary interference between the
    critical sections of a pass.
  \<^item> \<open>Config\<close>: memory sizes, the configuration file (\<^verbatim>\<open>p8_config.cpp\<close>), the hello header.
  \<^item> \<open>Lifecycle\<close>: constructor and destructor of \<^verbatim>\<open>cp8_core\<close>, start and stop of the worker.
  \<^item> \<open>Globals\<close>: \<^verbatim>\<open>p8_initialize\<close>, \<^verbatim>\<open>p8_release\<close>, the shared-memory segment, reference counts and thread-local
    objects.
  \<^item> \<open>EntryPoints\<close>: the C functions that work through a \<^verbatim>\<open>thread_local\<close> object each (\<^verbatim>\<open>p8_log_sent\<close>, \<^verbatim>\<open>p8_mtk_*\<close>,
    \<^verbatim>\<open>p8_trc_*\<close>), the end of a thread, and the guards of the client header; programs of several threads that make
    any calls of the API, cut into steps where another thread can come between the lookup of the core and the use of
    the pointer, or between the parts of \<^verbatim>\<open>p8_release\<close>.
  \<^item> \<open>Delivery\<close>: writers, worker and file sink composed.

  \<^bold>\<open>State.\<close> The core is one record, extended along the theories (\<open>core\<close>, \<open>reg_core\<close>); buffers are named by
  addresses, and \<open>c_mem\<close> maps an address to its bytes, so that aliasing between a writer, the pool
  and the worker is visible. A flag \<open>c_ub\<close> records an access outside a buffer. \<^verbatim>\<open>kit::c_lst\<close> is the list of its
  elements. Integers that can wrap are words or written with their modulus. Allocations, clocks,
  hashes and the answers of the operating system are arguments; where an operation may not come
  back it is a \<open>partial_function\<close> in the option type, and that it does come back is a theorem, so no
  fuel is needed. Loops with a fixed bound recurse structurally or on the length of what is left.

  What other threads do while a call waits unlocked is an argument too, with the law \<open>env_ok\<close>: the worker may
  take full buffers of the waiting writer, which are followed through a history kept in the ghost part of the
  core record, and buffers and descriptors may circulate; the drop counters of the writer and the registries
  stay as they are.

  \<^bold>\<open>What is shown.\<close>

  \<^item> Memory: under every interleaving each buffer is in one place and the budget is charged exactly;
    no wake-up is lost, waiters are served in order, shutdown releases everyone and its barrier opens.
  \<^item> Serialisation: it ends, stays inside the buffers and extends the stream a reader recovers by
    exactly the record, or rolls back; where it does not (padding at the end of a buffer) the
    deviation is stated and shown to occur.
  \<^item> Descriptors and registries: ids are stable and names found again, the service stream splits
    back into whole entries of the descriptors that fit a buffer; one that does not is lost uncounted.
  \<^item> Delivery: a pass of the worker hands over everything in flight; the file sink accounts for
    every byte. If all sink calls of the pass report success (an open file may still take less than it was given), a
    reader of the file recovers the streams of the writers, a record or sample reported as sent among them.
    Shutdown and the exit of the last thread hand everything to the sink.
  \<^item> Lifetime: with one module, whose client keeps \<^verbatim>\<open>p8_release\<close> apart from lookups of the core, from the functions
    without an object and from \<^verbatim>\<open>p8_initialize\<close> (\<open>orderly\<close>), a core exists exactly as long as it is referred to. Without that
    a pointer to a destroyed core is shown to be used (\<open>release_races\<close>), and so it is with two modules, for want of a
    reference. A thread that logs before \<^verbatim>\<open>p8_initialize\<close> is shown to stay mute.
  \<^item> Configuration and start: values of sizes, the hello packet on any host, which sink results.

  \<^bold>\<open>Interfaces.\<close> Locales state what one part relies on in another, each interpreted on the model:
  \<open>byte_budget\<close>, \<open>fifo_waiters\<close>, \<open>buffer_source\<close>, \<open>record_stream\<close>, \<open>name_registry\<close>, \<open>sink_contract\<close> with
  \<open>storing_sink\<close>, \<open>refcounted\<close> and \<open>tls_op\<close>. Code that is not part of the sources is a parameter with a law: \<open>file_law\<close>
  (\<^verbatim>\<open>kit::c_file\<close>), \<open>shm_law\<close> (\<^verbatim>\<open>kit::c_shared\<close>), \<open>casecmp_law\<close>, \<open>bswap_law\<close>; each is shown to hold
  of a concrete function.

  \<^bold>\<open>Not modelled.\<close> The capture mode and accessors of the test build (\<^verbatim>\<open>P8_TESTING\<close>); the profiler hooks, empty
  unless a special build defines them; the macros of \<^verbatim>\<open>api/p8_client_api.h\<close>; the Windows branches; memory
  orderings weaker than the interleaving of critical sections; messages to stderr. The example
  program, tests and build files are no part of the library.
\<close>

end
